(* ===== verification/Prelude.thy ===== *)
theory Prelude
  imports Main "HOL-Library.Word"
begin

text \<open>
  Shared vocabulary of the development: the errors a C++ operation can end in, the result type
  that carries them and its sequencing operator, checked 64-bit signed arithmetic, and the generic
  list lemmas that the component theories use.
\<close>

section \<open>Machine integers\<close>

text \<open>
  \<^verbatim>\<open>include/orderbook/types.h\<close>: \<open>OrderId\<close> and \<open>SequenceNumber\<close> are \<open>uint64_t\<close>, so they
  are words and their \<open>+\<close> wraps. \<open>Price\<close> and \<open>Quantity\<close> are \<open>int64_t\<close>: signed overflow is
  undefined behaviour in C++, so they are integers whose arithmetic is checked against the width and
  ends in an error outside of it.
\<close>

type_synonym OrderId = "64 word"
type_synonym SequenceNumber = "64 word"
type_synonym Price = int
type_synonym Quantity = int
type_synonym Byte = "8 word"
type_synonym Size = "64 word"

definition i64_min :: int where "i64_min = - (2 ^ 63)"
definition i64_max :: int where "i64_max = 2 ^ 63 - 1"

definition in_i64 :: "int \<Rightarrow> bool" where
  "in_i64 x \<longleftrightarrow> i64_min \<le> x \<and> x \<le> i64_max"

section \<open>Errors and results\<close>

text \<open>
  One constructor per \<open>throw\<close> statement of the code, and one per undefined behaviour an operation
  can run into. Nothing in the code catches an exception, so an error ends the thread.
\<close>

datatype error =
    Quantity_not_positive          \<comment> \<open>\<open>Order\<close> constructor\<close>
  | Fill_exceeds_remaining OrderId Quantity Quantity  \<comment> \<open>\<open>Order::fill_order\<close>\<close>
  | Level_price_not_positive       \<comment> \<open>\<open>PriceLevel\<close> constructor\<close>
  | Unmatched_price Price OrderId Price  \<comment> \<open>\<open>PriceLevel::add_order\<close>\<close>
  | Already_filled                 \<comment> \<open>\<open>PriceLevel::add_order\<close>\<close>
  | Level_empty Price              \<comment> \<open>\<open>pop_front_order\<close>, \<open>fill_front_order\<close>\<close>
  | Front_not_filled               \<comment> \<open>\<open>pop_front_order\<close>\<close>
  | Bids_empty                     \<comment> \<open>\<open>best_bid\<close>\<close>
  | Asks_empty                     \<comment> \<open>\<open>best_ask\<close>\<close>
  | UB_overflow                    \<comment> \<open>signed overflow\<close>
  | UB_uninitialised               \<comment> \<open>use of a variable no extraction has set\<close>
  | UB_front                       \<comment> \<open>\<open>front()\<close> of an empty list\<close>
  | UB_iterator                    \<comment> \<open>use of an iterator that points to no node\<close>
  | Map_at                         \<comment> \<open>\<open>unordered_map::at\<close> on a missing key\<close>

type_synonym 'a res = "error + 'a"

definition rbind :: "'a res \<Rightarrow> ('a \<Rightarrow> 'b res) \<Rightarrow> 'b res" where
  "rbind m f = (case m of Inl e \<Rightarrow> Inl e | Inr x \<Rightarrow> f x)"

lemma rbind_Inl [simp]: "rbind (Inl e) f = Inl e"
  by (simp add: rbind_def)

lemma rbind_Inr [simp]: "rbind (Inr x) f = f x"
  by (simp add: rbind_def)

lemma rbind_eq_Inr_iff: "rbind m f = Inr y \<longleftrightarrow> (\<exists>x. m = Inr x \<and> f x = Inr y)"
  by (cases m) simp_all

lemma rbind_Inr_E:
  assumes "rbind m f = Inr y"
  obtains x where "m = Inr x" and "f x = Inr y"
  using assms by (auto simp: rbind_eq_Inr_iff)

lemma rbind_cong [fundef_cong]:
  assumes "m = m'" and "\<And>x. m' = Inr x \<Longrightarrow> f x = g x"
  shows "rbind m f = rbind m' g"
  using assms by (cases m') simp_all

section \<open>Checked signed arithmetic\<close>

definition i64_check :: "int \<Rightarrow> int res" where
  "i64_check x = (if in_i64 x then Inr x else Inl UB_overflow)"

definition i64_add :: "int \<Rightarrow> int \<Rightarrow> int res" where
  "i64_add a b = i64_check (a + b)"

definition i64_sub :: "int \<Rightarrow> int \<Rightarrow> int res" where
  "i64_sub a b = i64_check (a - b)"

lemma i64_add_ok: "in_i64 (a + b) \<Longrightarrow> i64_add a b = Inr (a + b)"
  by (simp add: i64_add_def i64_check_def)

lemma i64_sub_ok: "in_i64 (a - b) \<Longrightarrow> i64_sub a b = Inr (a - b)"
  by (simp add: i64_sub_def i64_check_def)

lemma i64_add_Inr_iff: "i64_add a b = Inr c \<longleftrightarrow> c = a + b \<and> in_i64 c"
  by (auto simp: i64_add_def i64_check_def)

lemma i64_sub_Inr_iff: "i64_sub a b = Inr c \<longleftrightarrow> c = a - b \<and> in_i64 c"
  by (auto simp: i64_sub_def i64_check_def)

lemma in_i64_between:
  "\<lbrakk> in_i64 hi; 0 \<le> x; x \<le> hi \<rbrakk> \<Longrightarrow> in_i64 x"
  by (simp add: in_i64_def i64_min_def)

lemma in_i64_diff: "\<lbrakk> in_i64 a; 0 \<le> b; b \<le> a \<rbrakk> \<Longrightarrow> in_i64 (a - b)"
  by (simp add: in_i64_def i64_min_def)

lemma in_i64_zero [simp]: "in_i64 0"
  by (simp add: in_i64_def i64_min_def i64_max_def)

lemma in_i64_upper: "in_i64 x \<Longrightarrow> x \<le> i64_max"
  by (simp add: in_i64_def)

lemma in_i64_nonneg_iff: "0 \<le> x \<Longrightarrow> in_i64 x \<longleftrightarrow> x \<le> i64_max"
  by (simp add: in_i64_def i64_min_def)

section \<open>Lists\<close>

lemma sum_list_map_nonneg:
  fixes f :: "'a \<Rightarrow> int"
  assumes "\<And>x. x \<in> set xs \<Longrightarrow> 0 \<le> f x"
  shows "0 \<le> sum_list (map f xs)"
  using assms by (induction xs) auto

lemma sum_list_map_pos:
  fixes f :: "'a \<Rightarrow> int"
  assumes "xs \<noteq> []" and "\<And>x. x \<in> set xs \<Longrightarrow> 0 < f x"
  shows "0 < sum_list (map f xs)"
proof -
  obtain y ys where xs: "xs = y # ys" using assms(1) by (cases xs) auto
  have "0 \<le> sum_list (map f ys)"
    by (rule sum_list_map_nonneg) (use assms(2) xs in force)
  moreover have "0 < f y" using assms(2) xs by simp
  ultimately show ?thesis by (simp add: xs)
qed

lemma filter_key_absent: "k \<notin> fst ` set xs \<Longrightarrow> filter (\<lambda>e. fst e \<noteq> k) xs = xs"
  by (induction xs) auto

lemma filter_key_split:
  "\<lbrakk> k \<notin> fst ` set xs; k \<notin> fst ` set ys \<rbrakk> \<Longrightarrow>
   filter (\<lambda>e. fst e \<noteq> k) (xs @ (k, v) # ys) = xs @ ys"
  by (simp add: filter_key_absent)

end
