(* ===== verification/Exchange_Types.thy ===== *)
theory Exchange_Types
  imports Prelude
begin

text \<open>
  The value types that all components share: the enumerations of
  \<^verbatim>\<open>include/orderbook/types.h\<close>, the client messages of \<^verbatim>\<open>order_messages.h\<close>, the events of
  \<^verbatim>\<open>order_event.h\<close>, and the enumeration printers of \<^verbatim>\<open>helpers.h\<close>.
\<close>

section \<open>Enumerations\<close>

text \<open>
  The enumerations are scoped enums over \<open>int\<close> (over \<open>uint8_t\<close> for \<open>RejectReason\<close>), and the wire
  decoder and the console build them with \<open>static_cast\<close> from an unchecked number, which is a defined
  value of the enum type even when it names no enumerator. The last constructor of each type is such
  a value; the conversions below never use it for the number of a named enumerator.
\<close>

datatype Side = Buy | Sell | Side_raw int

datatype TimeInForce = FillOrKill | GoodTillCancel | ImmediateOrCancel | Tif_raw int

datatype OrderType = Limit | Market | Type_raw int

datatype AddOrderStatus = FullyFilled | PartiallyFilled | Resting | Failed | Rejected

datatype RejectReason =
  NoLiquidity | InvalidOrderId | DuplicateOrderId | InvalidParams | Unknown | Reason_raw Byte

definition Side_of :: "int \<Rightarrow> Side" where
  "Side_of n = (if n = 0 then Buy else if n = 1 then Sell else Side_raw n)"

fun Side_code :: "Side \<Rightarrow> int" where
  "Side_code Buy = 0"
| "Side_code Sell = 1"
| "Side_code (Side_raw n) = n"

definition TimeInForce_of :: "int \<Rightarrow> TimeInForce" where
  "TimeInForce_of n =
     (if n = 0 then FillOrKill else if n = 1 then GoodTillCancel
      else if n = 2 then ImmediateOrCancel else Tif_raw n)"

fun TimeInForce_code :: "TimeInForce \<Rightarrow> int" where
  "TimeInForce_code FillOrKill = 0"
| "TimeInForce_code GoodTillCancel = 1"
| "TimeInForce_code ImmediateOrCancel = 2"
| "TimeInForce_code (Tif_raw n) = n"

definition OrderType_of :: "int \<Rightarrow> OrderType" where
  "OrderType_of n = (if n = 0 then Limit else if n = 1 then Market else Type_raw n)"

fun OrderType_code :: "OrderType \<Rightarrow> int" where
  "OrderType_code Limit = 0"
| "OrderType_code Market = 1"
| "OrderType_code (Type_raw n) = n"

definition RejectReason_of :: "Byte \<Rightarrow> RejectReason" where
  "RejectReason_of n =
     (if n = 1 then NoLiquidity else if n = 2 then InvalidOrderId
      else if n = 3 then DuplicateOrderId else if n = 4 then InvalidParams
      else if n = 255 then Unknown else Reason_raw n)"

fun RejectReason_code :: "RejectReason \<Rightarrow> Byte" where
  "RejectReason_code NoLiquidity = 1"
| "RejectReason_code InvalidOrderId = 2"
| "RejectReason_code DuplicateOrderId = 3"
| "RejectReason_code InvalidParams = 4"
| "RejectReason_code Unknown = 255"
| "RejectReason_code (Reason_raw n) = n"

text \<open>A value is canonical when a raw constructor is not used for an enumerator's number.\<close>

definition Side_valid :: "Side \<Rightarrow> bool" where
  "Side_valid s \<longleftrightarrow> s = Buy \<or> s = Sell"

definition TimeInForce_valid :: "TimeInForce \<Rightarrow> bool" where
  "TimeInForce_valid t \<longleftrightarrow> t \<in> {FillOrKill, GoodTillCancel, ImmediateOrCancel}"

definition OrderType_valid :: "OrderType \<Rightarrow> bool" where
  "OrderType_valid t \<longleftrightarrow> t \<in> {Limit, Market}"

definition RejectReason_canonical :: "RejectReason \<Rightarrow> bool" where
  "RejectReason_canonical r \<longleftrightarrow> RejectReason_of (RejectReason_code r) = r"

lemma Side_code_of [simp]: "Side_code (Side_of n) = n"
  by (simp add: Side_of_def)

lemma TimeInForce_code_of [simp]: "TimeInForce_code (TimeInForce_of n) = n"
  by (simp add: TimeInForce_of_def)

lemma OrderType_code_of [simp]: "OrderType_code (OrderType_of n) = n"
  by (simp add: OrderType_of_def)

lemma RejectReason_code_of [simp]: "RejectReason_code (RejectReason_of n) = n"
  by (simp add: RejectReason_of_def)

section \<open>Client messages\<close>

record AddOrder =
  ao_order_type :: OrderType
  ao_time_in_force :: TimeInForce
  ao_client_order_id :: OrderId
  ao_price :: Price
  ao_quantity :: Quantity
  ao_side :: Side
  ao_connection_id :: int
  ao_seq :: SequenceNumber

record CancelOrder =
  co_id :: OrderId
  co_connection_id :: int
  co_seq :: SequenceNumber

record ModifyOrder =
  mo_id :: OrderId
  mo_new_price :: Price
  mo_new_quantity :: Quantity
  mo_connection_id :: int
  mo_seq :: SequenceNumber

datatype Message = Add_msg AddOrder | Cancel_msg CancelOrder | Modify_msg ModifyOrder

section \<open>Events\<close>

datatype PrivateEvent =
    OrderRested OrderId OrderId Quantity
  | OrderFilled OrderId OrderId
  | OrderExpired OrderId OrderId
  | OrderRejected OrderId RejectReason
  | OrderCanceled OrderId
  | CancelRejected OrderId RejectReason
  | OrderModified OrderId Price Quantity
  | ModifyRejected OrderId RejectReason

datatype PublicEvent =
    TradeExecuted (buyer_id: OrderId) (seller_id: OrderId) (trade_price: Price)
      (trade_quantity: Quantity) (aggressive_side: Side)
  | BookUpdate (update_side: Side) (update_price: Price) (new_total_quantity: Quantity)

text \<open>\<open>RoutedEvent{connection_id, event}\<close>, and the variant of both kinds that the sinks carry.\<close>

datatype Event = Routed int PrivateEvent | Public PublicEvent

section \<open>Printing enumerations\<close>

fun Side_to_string :: "Side \<Rightarrow> string" where
  "Side_to_string Buy = ''Buy''"
| "Side_to_string Sell = ''Sell''"
| "Side_to_string (Side_raw _) = ''unknown''"

fun OrderType_to_string :: "OrderType \<Rightarrow> string" where
  "OrderType_to_string Limit = ''Limit''"
| "OrderType_to_string Market = ''Market''"
| "OrderType_to_string (Type_raw _) = ''unknown''"

fun TimeInForce_to_string :: "TimeInForce \<Rightarrow> string" where
  "TimeInForce_to_string FillOrKill = ''FillOrKill''"
| "TimeInForce_to_string GoodTillCancel = ''GoodTillCancel''"
| "TimeInForce_to_string ImmediateOrCancel = ''ImmediateOrCancel''"
| "TimeInForce_to_string (Tif_raw _) = ''unknown''"

fun AddOrderStatus_to_string :: "AddOrderStatus \<Rightarrow> string" where
  "AddOrderStatus_to_string FullyFilled = ''FullyFilled''"
| "AddOrderStatus_to_string PartiallyFilled = ''PartiallyFilled''"
| "AddOrderStatus_to_string Resting = ''Resting''"
| "AddOrderStatus_to_string Failed = ''Failed''"
| "AddOrderStatus_to_string Rejected = ''Rejected''"

fun RejectReason_to_string :: "RejectReason \<Rightarrow> string" where
  "RejectReason_to_string NoLiquidity = ''NoLiquidity''"
| "RejectReason_to_string InvalidOrderId = ''InvalidOrderId''"
| "RejectReason_to_string DuplicateOrderId = ''DuplicateOrderId''"
| "RejectReason_to_string InvalidParams = ''InvalidParams''"
| "RejectReason_to_string Unknown = ''Unknown''"
| "RejectReason_to_string (Reason_raw _) = ''Unknown''"

end
