(* ===== verification/Orders.thy ===== *)
theory Orders
  imports Exchange_Types
begin

text \<open>
  Orders and trades: \<^verbatim>\<open>include/orderbook/order.h\<close>, \<^verbatim>\<open>orderbook/order.cpp\<close>,
  \<^verbatim>\<open>include/orderbook/trade.h\<close> and \<^verbatim>\<open>orderbook/trade.cpp\<close>. The getters of the classes are the
  record selectors.
\<close>

section \<open>Order\<close>

record Order =
  order_type :: OrderType
  time_in_force :: TimeInForce
  order_id :: OrderId
  price :: Price
  initial_quantity :: Quantity
  remaining_quantity :: Quantity
  side :: Side
  sequence_number :: SequenceNumber
  connection_id :: int
  client_order_id :: OrderId

text \<open>The constructor: the quantity is the initial and the remaining one, and must be positive.\<close>

definition new_Order ::
  "OrderType \<Rightarrow> TimeInForce \<Rightarrow> OrderId \<Rightarrow> Price \<Rightarrow> Quantity \<Rightarrow> Side \<Rightarrow> SequenceNumber \<Rightarrow> int \<Rightarrow>
   OrderId \<Rightarrow> Order res"
where
  "new_Order ot tif oid p q s sn conn cid =
     (if q \<le> 0 then Inl Quantity_not_positive
      else Inr \<lparr>order_type = ot, time_in_force = tif, order_id = oid, price = p,
                initial_quantity = q, remaining_quantity = q, side = s,
                sequence_number = sn, connection_id = conn, client_order_id = cid\<rparr>)"

definition from_replacement :: "Order \<Rightarrow> Price \<Rightarrow> Quantity \<Rightarrow> Order res" where
  "from_replacement ord new_price new_quantity =
     new_Order (order_type ord) (time_in_force ord) (order_id ord) new_price new_quantity
       (side ord) (sequence_number ord) (connection_id ord) (client_order_id ord)"

definition get_filled_quantity :: "Order \<Rightarrow> Quantity res" where
  "get_filled_quantity ord = i64_sub (initial_quantity ord) (remaining_quantity ord)"

definition is_filled :: "Order \<Rightarrow> bool" where
  "is_filled ord \<longleftrightarrow> remaining_quantity ord = 0"

definition is_buy :: "Order \<Rightarrow> bool" where
  "is_buy ord \<longleftrightarrow> side ord = Buy"

definition is_sell :: "Order \<Rightarrow> bool" where
  "is_sell ord \<longleftrightarrow> side ord = Sell"

definition is_limit_order :: "Order \<Rightarrow> bool" where
  "is_limit_order ord \<longleftrightarrow> order_type ord = Limit"

definition is_marker_order :: "Order \<Rightarrow> bool" where
  "is_marker_order ord \<longleftrightarrow> order_type ord = Market"

definition fill_order :: "Order \<Rightarrow> Quantity \<Rightarrow> Order res" where
  "fill_order ord fill_quantity =
     (if fill_quantity > remaining_quantity ord
      then Inl (Fill_exceeds_remaining (order_id ord) (remaining_quantity ord) fill_quantity)
      else rbind (i64_sub (remaining_quantity ord) fill_quantity)
             (\<lambda>r. Inr (ord\<lparr>remaining_quantity := r\<rparr>)))"

section \<open>Trade\<close>

record TradeInfo =
  info_order_id :: OrderId
  info_price :: Price
  info_quantity :: Quantity

definition TradeInfo_of :: "Order \<Rightarrow> TradeInfo" where
  "TradeInfo_of ord =
     \<lparr>info_order_id = order_id ord, info_price = price ord,
      info_quantity = remaining_quantity ord\<rparr>"

record Trade =
  buyer :: TradeInfo
  seller :: TradeInfo
  execution_price :: Price
  execution_quantity :: Quantity
  aggressor_side :: Side

definition Trade_from_match :: "Order \<Rightarrow> Order \<Rightarrow> Trade" where
  "Trade_from_match incoming resting =
     (if is_buy incoming
      then \<lparr>buyer = TradeInfo_of incoming, seller = TradeInfo_of resting,
            execution_price = price resting,
            execution_quantity =
              min (remaining_quantity incoming) (remaining_quantity resting),
            aggressor_side = side incoming\<rparr>
      else \<lparr>buyer = TradeInfo_of resting, seller = TradeInfo_of incoming,
            execution_price = price resting,
            execution_quantity =
              min (remaining_quantity incoming) (remaining_quantity resting),
            aggressor_side = side incoming\<rparr>)"

section \<open>Well-formed orders\<close>

text \<open>
  What the constructor establishes for a positive quantity that fits its type, and every fill keeps.
\<close>

definition order_ok :: "Order \<Rightarrow> bool" where
  "order_ok ord \<longleftrightarrow> 0 \<le> remaining_quantity ord \<and>
     remaining_quantity ord \<le> initial_quantity ord \<and> in_i64 (initial_quantity ord)"

lemma order_ok_nonneg: "order_ok ord \<Longrightarrow> 0 \<le> remaining_quantity ord"
  by (simp add: order_ok_def)

lemma order_ok_in_i64: "order_ok ord \<Longrightarrow> in_i64 (remaining_quantity ord)"
  unfolding order_ok_def by (blast intro: in_i64_between)

lemma order_ok_remaining_max: "order_ok ord \<Longrightarrow> remaining_quantity ord \<le> i64_max"
  by (rule in_i64_upper[OF order_ok_in_i64])

lemma order_ok_fill:
  "\<lbrakk> order_ok ord; 0 \<le> r; r \<le> remaining_quantity ord \<rbrakk> \<Longrightarrow> order_ok (ord\<lparr>remaining_quantity := r\<rparr>)"
  by (simp add: order_ok_def)

lemma new_Order_Inr_iff:
  "new_Order ot tif oid p q s sn conn cid = Inr ord \<longleftrightarrow>
     0 < q \<and> ord = \<lparr>order_type = ot, time_in_force = tif, order_id = oid, price = p,
       initial_quantity = q, remaining_quantity = q, side = s, sequence_number = sn,
       connection_id = conn, client_order_id = cid\<rparr>"
  by (auto simp: new_Order_def)

lemma fill_order_eq:
  assumes "order_ok ord" and "0 \<le> q" and "q \<le> remaining_quantity ord"
  shows "fill_order ord q = Inr (ord\<lparr>remaining_quantity := remaining_quantity ord - q\<rparr>)"
proof -
  have "in_i64 (remaining_quantity ord - q)"
    using assms by (simp add: in_i64_diff order_ok_in_i64)
  with assms(3) show ?thesis by (simp add: fill_order_def i64_sub_ok)
qed

lemma get_filled_quantity_eq:
  assumes "order_ok ord"
  shows "get_filled_quantity ord = Inr (initial_quantity ord - remaining_quantity ord)"
proof -
  have "in_i64 (initial_quantity ord - remaining_quantity ord)"
    using assms by (simp add: in_i64_diff order_ok_def)
  then show ?thesis by (simp add: get_filled_quantity_def i64_sub_ok)
qed

lemma is_buy_update [simp]: "is_buy (ord\<lparr>remaining_quantity := r\<rparr>) = is_buy ord"
  by (simp add: is_buy_def)

end
