(* ===== verification/Price_Level.thy ===== *)
theory Price_Level
  imports Orders
begin

text \<open>
  A price level, \<^verbatim>\<open>include/orderbook/price_level.h\<close> and \<^verbatim>\<open>orderbook/price_level.cpp\<close>: the queue of
  the orders resting at one price, with their cached total quantity.

  \<open>OrderList\<close> is a \<open>std::list\<close>, and the book keeps iterators into it. A list node is a pair of its
  identity and its order; identities come from an allocation counter that the book owns, so an
  iterator, modelled as such an identity, stays valid while other nodes come and go and points to
  nothing once its own node is erased.
\<close>

type_synonym OrderIterator = nat
type_synonym OrderNode = "OrderIterator \<times> Order"

record PriceLevel =
  level_price :: Price
  total_quantity :: Quantity
  orders :: "OrderNode list"

section \<open>Operations\<close>

definition new_PriceLevel :: "Price \<Rightarrow> PriceLevel res" where
  "new_PriceLevel p =
     (if p \<le> 0 then Inl Level_price_not_positive
      else Inr \<lparr>level_price = p, total_quantity = 0, orders = []\<rparr>)"

definition get_order_count :: "PriceLevel \<Rightarrow> nat" where
  "get_order_count lvl = length (orders lvl)"

definition level_empty :: "PriceLevel \<Rightarrow> bool" where
  "level_empty lvl \<longleftrightarrow> orders lvl = []"

text \<open>\<open>add_order\<close> returns the iterator of the new last node, here the fresh identity \<open>n\<close>.\<close>

definition level_add_order :: "PriceLevel \<Rightarrow> OrderIterator \<Rightarrow> Order \<Rightarrow> PriceLevel res" where
  "level_add_order lvl n ord =
     (if price ord \<noteq> level_price lvl
      then Inl (Unmatched_price (level_price lvl) (order_id ord) (price ord))
      else if is_filled ord then Inl Already_filled
      else rbind (i64_add (total_quantity lvl) (remaining_quantity ord))
             (\<lambda>t. Inr (lvl\<lparr>total_quantity := t, orders := orders lvl @ [(n, ord)]\<rparr>)))"

definition erase_order :: "PriceLevel \<Rightarrow> OrderIterator \<Rightarrow> PriceLevel res" where
  "erase_order lvl n =
     (case map_of (orders lvl) n of
        None \<Rightarrow> Inl UB_iterator
      | Some ord \<Rightarrow>
          rbind (i64_sub (total_quantity lvl) (remaining_quantity ord))
            (\<lambda>t. Inr (lvl\<lparr>total_quantity := t,
                          orders := filter (\<lambda>nd. fst nd \<noteq> n) (orders lvl)\<rparr>)))"

definition pop_front_order :: "PriceLevel \<Rightarrow> PriceLevel res" where
  "pop_front_order lvl =
     (case orders lvl of
        [] \<Rightarrow> Inl (Level_empty (level_price lvl))
      | (n, ord) # rest \<Rightarrow>
          if \<not> is_filled ord then Inl Front_not_filled else Inr (lvl\<lparr>orders := rest\<rparr>))"

definition fill_front_order :: "PriceLevel \<Rightarrow> Quantity \<Rightarrow> PriceLevel res" where
  "fill_front_order lvl q =
     (case orders lvl of
        [] \<Rightarrow> Inl (Level_empty (level_price lvl))
      | (n, ord) # rest \<Rightarrow>
          rbind (fill_order ord q) (\<lambda>ord'.
          rbind (i64_sub (total_quantity lvl) q) (\<lambda>t.
            let lvl' = lvl\<lparr>orders := (n, ord') # rest, total_quantity := t\<rparr>
            in if is_filled ord' then pop_front_order lvl' else Inr lvl')))"

definition front_order :: "PriceLevel \<Rightarrow> Order res" where
  "front_order lvl = (case orders lvl of [] \<Rightarrow> Inl UB_front | (n, ord) # rest \<Rightarrow> Inr ord)"

section \<open>Well-formed levels\<close>

abbreviation node_quantity :: "OrderNode \<Rightarrow> Quantity" where
  "node_quantity nd \<equiv> remaining_quantity (snd nd)"

definition nodes_quantity :: "OrderNode list \<Rightarrow> Quantity" where
  "nodes_quantity nds = sum_list (map node_quantity nds)"

definition node_ok :: "Price \<Rightarrow> OrderNode \<Rightarrow> bool" where
  "node_ok p nd \<longleftrightarrow> order_ok (snd nd) \<and> 0 < node_quantity nd \<and> price (snd nd) = p"

text \<open>
  The invariant of a level: a positive price that all its orders have, only orders that have
  something left to fill, and a cached total that is their sum and fits its type. The empty level is
  allowed: it occurs between the construction of a level and the insertion of its first order, and
  between the last fill of a level and its removal.
\<close>

definition level_ok :: "PriceLevel \<Rightarrow> bool" where
  "level_ok lvl \<longleftrightarrow> 0 < level_price lvl \<and>
     total_quantity lvl = nodes_quantity (orders lvl) \<and> in_i64 (total_quantity lvl) \<and>
     distinct (map fst (orders lvl)) \<and>
     (\<forall>nd \<in> set (orders lvl). node_ok (level_price lvl) nd)"

lemma nodes_quantity_simps [simp]:
  "nodes_quantity [] = 0"
  "nodes_quantity (nd # nds) = node_quantity nd + nodes_quantity nds"
  "nodes_quantity (nds @ nds') = nodes_quantity nds + nodes_quantity nds'"
  by (simp_all add: nodes_quantity_def)

lemma node_ok_nonneg: "node_ok p nd \<Longrightarrow> 0 \<le> node_quantity nd"
  by (simp add: node_ok_def)

lemma nodes_quantity_nonneg: "\<forall>nd \<in> set nds. node_ok p nd \<Longrightarrow> 0 \<le> nodes_quantity nds"
  unfolding nodes_quantity_def by (rule sum_list_map_nonneg) (blast dest: node_ok_nonneg)

lemma level_ok_nonneg: "level_ok lvl \<Longrightarrow> 0 \<le> total_quantity lvl"
  by (auto simp: level_ok_def intro: nodes_quantity_nonneg)

lemma level_ok_in_i64: "level_ok lvl \<Longrightarrow> in_i64 (total_quantity lvl)"
  unfolding level_ok_def by blast

lemma level_ok_total_pos:
  assumes "level_ok lvl" and "\<not> level_empty lvl"
  shows "0 < total_quantity lvl"
proof -
  have "0 < nodes_quantity (orders lvl)"
    unfolding nodes_quantity_def
    by (rule sum_list_map_pos) (use assms in \<open>auto simp: level_ok_def node_ok_def level_empty_def\<close>)
  with assms(1) show ?thesis by (simp add: level_ok_def)
qed

lemma level_ok_empty_total: "\<lbrakk> level_ok lvl; level_empty lvl \<rbrakk> \<Longrightarrow> total_quantity lvl = 0"
  by (simp add: level_ok_def level_empty_def)

lemma new_PriceLevel_ok: "new_PriceLevel p = Inr lvl \<Longrightarrow> level_ok lvl"
  by (auto simp: new_PriceLevel_def level_ok_def split: if_splits)

lemma level_add_order_eq:
  assumes "level_ok lvl" and "order_ok ord" and "price ord = level_price lvl"
    and "0 < remaining_quantity ord" and "n \<notin> fst ` set (orders lvl)"
    and "in_i64 (total_quantity lvl + remaining_quantity ord)"
  shows "level_add_order lvl n ord =
      Inr (lvl\<lparr>total_quantity := total_quantity lvl + remaining_quantity ord,
               orders := orders lvl @ [(n, ord)]\<rparr>)"
    and "level_ok (lvl\<lparr>total_quantity := total_quantity lvl + remaining_quantity ord,
                       orders := orders lvl @ [(n, ord)]\<rparr>)"
  using assms
  by (simp_all add: level_add_order_def is_filled_def i64_add_ok level_ok_def node_ok_def)

text \<open>Erasing a node that the level holds.\<close>

lemma filter_node_split:
  assumes "distinct (map fst nds)" and "(n, ord) \<in> set nds"
  shows "nodes_quantity (filter (\<lambda>nd. fst nd \<noteq> n) nds) =
         nodes_quantity nds - remaining_quantity ord"
  using assms
proof (induction nds)
  case Nil
  then show ?case by simp
next
  case (Cons nd nds)
  show ?case
  proof (cases "fst nd = n")
    case True
    then have "n \<notin> fst ` set nds" using Cons.prems(1) by auto
    then have "filter (\<lambda>nd. fst nd \<noteq> n) nds = nds"
      by (intro filter_True) force
    moreover have "nd = (n, ord)"
      using True Cons.prems(2) \<open>n \<notin> fst ` set nds\<close> by (auto simp: image_iff)
    ultimately show ?thesis by simp
  next
    case False
    with Cons show ?thesis by auto
  qed
qed

lemma erase_order_eq:
  assumes "level_ok lvl" and "(n, ord) \<in> set (orders lvl)"
  defines "lvl' \<equiv> lvl\<lparr>total_quantity := total_quantity lvl - remaining_quantity ord,
                      orders := filter (\<lambda>nd. fst nd \<noteq> n) (orders lvl)\<rparr>"
  shows "erase_order lvl n = Inr lvl'" and "level_ok lvl'"
proof -
  have dist: "distinct (map fst (orders lvl))"
    and tot: "total_quantity lvl = nodes_quantity (orders lvl)"
    and nodes: "\<forall>nd \<in> set (orders lvl). node_ok (level_price lvl) nd"
    using assms(1) by (simp_all add: level_ok_def)
  have found: "map_of (orders lvl) n = Some ord"
    using dist assms(2) by simp
  have rest: "nodes_quantity (filter (\<lambda>nd. fst nd \<noteq> n) (orders lvl)) =
      total_quantity lvl - remaining_quantity ord"
    using filter_node_split[OF dist assms(2)] tot by simp
  have "0 \<le> nodes_quantity (filter (\<lambda>nd. fst nd \<noteq> n) (orders lvl))"
    by (rule nodes_quantity_nonneg[of _ "level_price lvl"]) (use nodes in simp)
  moreover have "0 \<le> remaining_quantity ord"
    using nodes assms(2) by (force dest: node_ok_nonneg)
  ultimately have range: "in_i64 (total_quantity lvl - remaining_quantity ord)"
    using rest by (intro in_i64_diff level_ok_in_i64[OF assms(1)]) simp_all
  show "erase_order lvl n = Inr lvl'"
    using found range by (simp add: erase_order_def i64_sub_ok lvl'_def)
  show "level_ok lvl'"
    using assms(1) rest range
    by (auto simp: level_ok_def lvl'_def intro: distinct_map_filter)
qed

text \<open>Filling the front order by at most what it has left.\<close>

lemma fill_front_order_eq:
  assumes "level_ok lvl" and "orders lvl = (n, ord) # rest"
    and "0 \<le> q" and "q \<le> remaining_quantity ord"
  defines "lvl' \<equiv> lvl\<lparr>total_quantity := total_quantity lvl - q,
      orders := (if q = remaining_quantity ord then rest
                  else (n, ord\<lparr>remaining_quantity := remaining_quantity ord - q\<rparr>) # rest)\<rparr>"
  shows "fill_front_order lvl q = Inr lvl'" and "level_ok lvl'"
proof -
  have node: "node_ok (level_price lvl) (n, ord)"
    and tot: "total_quantity lvl = remaining_quantity ord + nodes_quantity rest"
    and ok: "order_ok ord"
    using assms(1,2) by (simp_all add: level_ok_def node_ok_def)
  have "0 \<le> nodes_quantity rest"
    using assms(1,2) by (intro nodes_quantity_nonneg[of _ "level_price lvl"]) (simp add: level_ok_def)
  then have range: "in_i64 (total_quantity lvl - q)"
    using tot assms(3,4) by (intro in_i64_diff level_ok_in_i64[OF assms(1)]) simp_all
  have fill: "fill_order ord q = Inr (ord\<lparr>remaining_quantity := remaining_quantity ord - q\<rparr>)"
    by (rule fill_order_eq[OF ok assms(3,4)])
  show "fill_front_order lvl q = Inr lvl'"
    using assms(2) fill range
    by (auto simp: fill_front_order_def i64_sub_ok is_filled_def pop_front_order_def lvl'_def Let_def)
  show "level_ok lvl'"
    using assms(1,2,3,4) node tot range
    by (auto simp: level_ok_def lvl'_def node_ok_def order_ok_fill)
qed

text \<open>A level loses its front order exactly when the fill is what that order has left.\<close>

lemma fill_front_order_length:
  assumes "fill_front_order lvl q = Inr lvl'" and "orders lvl = (n, ord) # rest"
  shows "length (orders lvl') =
    (if q = remaining_quantity ord then length rest else Suc (length rest))"
  using assms
  by (auto simp: fill_front_order_def fill_order_def rbind_eq_Inr_iff i64_sub_Inr_iff
      pop_front_order_def is_filled_def Let_def split: if_splits)

lemma front_order_Cons [simp]: "orders lvl = (n, ord) # rest \<Longrightarrow> front_order lvl = Inr ord"
  by (simp add: front_order_def)

end
