(* ===== verification/Level_Map.thy ===== *)
theory Level_Map
  imports Price_Level
begin

text \<open>
  The two sides of the book are \<open>std::map<Price, PriceLevel>\<close> with the comparator \<open>std::less\<close>
  (\<open>AskLevels\<close>) and \<open>std::greater\<close> (\<open>BidLevels\<close>), \<^verbatim>\<open>include/orderbook/order_book.h\<close>. A map is the
  list of its entries in iteration order, so \<open>begin()\<close> is the head. The operations take the
  comparator; what they promise needs it to be a strict total order, the locale \<open>level_order\<close>, which
  is interpreted for both comparators.
\<close>

type_synonym Levels = "(Price \<times> PriceLevel) list"
type_synonym Comparator = "Price \<Rightarrow> Price \<Rightarrow> bool"

section \<open>Map operations\<close>

fun levels_insert :: "Comparator \<Rightarrow> Price \<Rightarrow> 'v \<Rightarrow> (Price \<times> 'v) list \<Rightarrow> (Price \<times> 'v) list" where
  "levels_insert before p v [] = [(p, v)]"
| "levels_insert before p v ((k, w) # ls) =
     (if before p k then (p, v) # (k, w) # ls
      else if before k p then (k, w) # levels_insert before p v ls
      else (k, w) # ls)"

text \<open>Assignment through an iterator or a reference to the mapped value.\<close>

definition levels_put :: "Price \<Rightarrow> 'v \<Rightarrow> (Price \<times> 'v) list \<Rightarrow> (Price \<times> 'v) list" where
  "levels_put p v ls = map (\<lambda>e. if fst e = p then (p, v) else e) ls"

definition levels_erase :: "Price \<Rightarrow> (Price \<times> 'v) list \<Rightarrow> (Price \<times> 'v) list" where
  "levels_erase p ls = filter (\<lambda>e. fst e \<noteq> p) ls"

text \<open>
  \<open>levels.try_emplace(price, price)\<close>: constructs the level only when the price has none yet, so only
  then the constructor of \<open>PriceLevel\<close> can throw. Returns the map and the level at the price.
\<close>

definition levels_try_emplace :: "Comparator \<Rightarrow> Price \<Rightarrow> Levels \<Rightarrow> (Levels \<times> PriceLevel) res" where
  "levels_try_emplace before p ls =
     (case map_of ls p of
        Some lvl \<Rightarrow> Inr (ls, lvl)
      | None \<Rightarrow> rbind (new_PriceLevel p) (\<lambda>lvl. Inr (levels_insert before p lvl ls, lvl)))"

section \<open>Facts that need no order\<close>

lemma keys_levels_put [simp]: "map fst (levels_put p v ls) = map fst ls"
  by (auto simp: levels_put_def)

text \<open>Splitting a map at a key: the shape all update lemmas use.\<close>

lemma levels_split:
  assumes "distinct (map fst ls)" and "map_of ls p = Some v"
  obtains a c where "ls = a @ (p, v) # c" and "p \<notin> fst ` set a" and "p \<notin> fst ` set c"
proof -
  obtain a c where "ls = a @ (p, v) # c"
    using assms(2) by (meson map_of_SomeD split_list)
  with assms(1) that show ?thesis by auto
qed

lemma levels_put_absent: "p \<notin> fst ` set ls \<Longrightarrow> levels_put p w ls = ls"
  by (induction ls) (auto simp: levels_put_def)

lemma levels_put_split:
  assumes "p \<notin> fst ` set a" and "p \<notin> fst ` set c"
  shows "levels_put p w (a @ (p, v) # c) = a @ (p, w) # c"
  using levels_put_absent[OF assms(1)] levels_put_absent[OF assms(2)]
  by (simp add: levels_put_def)

lemma levels_erase_split:
  assumes "p \<notin> fst ` set a" and "p \<notin> fst ` set c"
  shows "levels_erase p (a @ (p, v) # c) = a @ c"
  unfolding levels_erase_def by (rule filter_key_split[OF assms])

section \<open>Maps under a strict total order\<close>

locale level_order =
  fixes before :: Comparator
  assumes before_irrefl: "\<not> before p p"
    and before_trans: "\<lbrakk> before p q; before q r \<rbrakk> \<Longrightarrow> before p r"
    and before_total: "p \<noteq> q \<Longrightarrow> before p q \<or> before q p"
begin

lemma keys_distinct: "sorted_wrt before (map fst ls) \<Longrightarrow> distinct (map fst ls)"
  by (induction ls) (use before_irrefl in \<open>auto simp: image_iff\<close>)

lemma set_insert_new:
  "p \<notin> fst ` set ls \<Longrightarrow> set (levels_insert before p v ls) = insert (p, v) (set ls)"
proof (induction ls)
  case Nil
  then show ?case by simp
next
  case (Cons e ls)
  obtain k w where e: "e = (k, w)" by (cases e)
  have "p \<noteq> k" using Cons.prems e by simp
  then have "before p k \<or> before k p" by (rule before_total)
  with Cons e show ?case by auto
qed

lemma insert_new_split:
  assumes "p \<notin> fst ` set ls"
  obtains a c where "ls = a @ c" and "levels_insert before p v ls = a @ (p, v) # c"
proof -
  have "\<exists>a c. ls = a @ c \<and> levels_insert before p v ls = a @ (p, v) # c"
    using assms
  proof (induction ls)
    case Nil
    then show ?case by simp
  next
    case (Cons e ls)
    obtain k w where e: "e = (k, w)" by (cases e)
    have "p \<noteq> k" using Cons.prems e by simp
    then consider "before p k" | "\<not> before p k" "before k p" using before_total by blast
    then show ?case
    proof cases
      case 1
      then show ?thesis using e by (intro exI[of _ "[]"] exI[of _ "e # ls"]) simp
    next
      case 2
      obtain a c where "ls = a @ c" "levels_insert before p v ls = a @ (p, v) # c"
        using Cons by auto
      with 2 e show ?thesis by (intro exI[of _ "e # a"] exI[of _ c]) simp
    qed
  qed
  with that show ?thesis by blast
qed

lemma sorted_insert_new:
  assumes "sorted_wrt before (map fst ls)" and "p \<notin> fst ` set ls"
  shows "sorted_wrt before (map fst (levels_insert before p v ls))"
  using assms
proof (induction ls)
  case Nil
  then show ?case by simp
next
  case (Cons e ls)
  obtain k w where e: "e = (k, w)" by (cases e)
  have notin: "p \<notin> fst ` set ls" and sorted: "sorted_wrt before (map fst ls)"
    and head: "\<forall>x \<in> set ls. before k (fst x)"
    using Cons.prems e by auto
  have "p \<noteq> k" using Cons.prems(2) e by simp
  then consider "before p k" | "\<not> before p k" "before k p" using before_total by blast
  then show ?case
  proof cases
    case 1
    then show ?thesis using e sorted head before_trans by auto
  next
    case 2
    have "sorted_wrt before (map fst (levels_insert before p v ls))"
      by (rule Cons.IH[OF sorted notin])
    with 2 e head show ?thesis by (auto simp: set_insert_new[OF notin])
  qed
qed

end

text \<open>
  The side of the book an incoming order trades against: \<open>crosses x p\<close> says that a limit of \<open>x\<close> accepts
  the price \<open>p\<close> (\<open>cmp_buy\<close>, \<open>cmp_sell\<close>). A limit that accepts a price accepts every better one, so on
  a sorted map the accepted levels are a prefix.
\<close>

locale matching_side = level_order +
  fixes crosses :: "Price \<Rightarrow> Price \<Rightarrow> bool"
  assumes crosses_mono: "\<lbrakk> before p q; crosses x q \<rbrakk> \<Longrightarrow> crosses x p"
begin

lemma takeWhile_crosses:
  assumes "sorted_wrt before (map fst ls)"
  shows "takeWhile (\<lambda>e. crosses x (fst e)) ls = filter (\<lambda>e. crosses x (fst e)) ls"
  using assms
proof (induction ls)
  case Nil
  then show ?case by simp
next
  case (Cons e ls)
  show ?case
  proof (cases "crosses x (fst e)")
    case True
    with Cons show ?thesis by simp
  next
    case False
    with Cons.prems have "\<forall>e' \<in> set ls. \<not> crosses x (fst e')"
      using crosses_mono by auto
    with False show ?thesis by (simp add: filter_empty_conv)
  qed
qed

end

section \<open>The two comparators\<close>

definition cmp_buy :: "Price \<Rightarrow> Price \<Rightarrow> bool" where
  "cmp_buy buy sell \<longleftrightarrow> buy \<ge> sell"

definition cmp_sell :: "Price \<Rightarrow> Price \<Rightarrow> bool" where
  "cmp_sell sell buy \<longleftrightarrow> sell \<le> buy"

abbreviation (input) ask_before :: Comparator where "ask_before \<equiv> (\<lambda>p q. p < q)"
abbreviation (input) bid_before :: Comparator where "bid_before \<equiv> (\<lambda>p q. p > q)"

text \<open>A market order accepts every price: the comparison is absent from its loop.\<close>

abbreviation (input) cmp_any :: "Price \<Rightarrow> Price \<Rightarrow> bool" where "cmp_any \<equiv> (\<lambda>_ _. True)"

interpretation ask_side: matching_side ask_before cmp_buy
  by unfold_locales (auto simp: cmp_buy_def)

interpretation bid_side: matching_side bid_before cmp_sell
  by unfold_locales (auto simp: cmp_sell_def)

interpretation ask_any: matching_side ask_before cmp_any
  by unfold_locales auto

interpretation bid_any: matching_side bid_before cmp_any
  by unfold_locales auto

end
