(* ===== verification/Order_Book.thy ===== *)
theory Order_Book
  imports Level_Map
begin

text \<open>
  The order book, \<^verbatim>\<open>include/orderbook/order_book.h\<close> and \<^verbatim>\<open>include/orderbook/order_book.tpp\<close>: its
  state and every operation, in the order of the code.

  The book is a template over the event sink and only ever calls \<open>push\<close> on it, ignoring the result.
  The field \<open>event_sink\<close> is the sequence of events the book has pushed; the theory of the whole
  server pushes them into the ring buffer. \<open>next_node\<close> is the allocation counter of the list nodes.
\<close>

section \<open>State\<close>

record OrderLocation =
  loc_side :: Side
  loc_price :: Price
  loc_order_it :: OrderIterator

record AddOrderResult =
  status :: AddOrderStatus
  res_execution_quantity :: Quantity
  res_remaining_quantity :: Quantity

record OrderBook =
  bids :: Levels
  asks :: Levels
  trades :: "Trade list"
  order_look_up :: "OrderId \<rightharpoonup> OrderLocation"
  next_order_id :: "64 word"
  event_sink :: "Event list"
  next_node :: OrderIterator

definition new_OrderBook :: OrderBook where
  "new_OrderBook =
     \<lparr>bids = [], asks = [], trades = [], order_look_up = Map.empty, next_order_id = 1,
      event_sink = [], next_node = 0\<rparr>"

section \<open>Results of an insertion\<close>

definition from_match_filled :: "OrderType \<Rightarrow> Quantity \<Rightarrow> Quantity \<Rightarrow> AddOrderResult" where
  "from_match_filled ot execution remaining =
     (if remaining = 0 then
        \<lparr>status = FullyFilled, res_execution_quantity = execution, res_remaining_quantity = remaining\<rparr>
      else if execution = 0 then
        (if ot = Market then
           \<lparr>status = Rejected, res_execution_quantity = execution,
            res_remaining_quantity = remaining\<rparr>
         else
           \<lparr>status = Resting, res_execution_quantity = execution,
            res_remaining_quantity = remaining\<rparr>)
      else
        \<lparr>status = PartiallyFilled, res_execution_quantity = execution,
         res_remaining_quantity = remaining\<rparr>)"

definition from_match :: "bool \<Rightarrow> OrderType \<Rightarrow> Quantity \<Rightarrow> Quantity \<Rightarrow> AddOrderResult" where
  "from_match success ot execution remaining =
     (if success then from_match_filled ot execution remaining
      else \<lparr>status = Failed, res_execution_quantity = 0, res_remaining_quantity = remaining\<rparr>)"

section \<open>Inspection\<close>

definition is_empty :: "OrderBook \<Rightarrow> bool" where
  "is_empty b \<longleftrightarrow> bids b = [] \<and> asks b = []"

definition has_bids :: "OrderBook \<Rightarrow> bool" where "has_bids b \<longleftrightarrow> bids b \<noteq> []"
definition has_asks :: "OrderBook \<Rightarrow> bool" where "has_asks b \<longleftrightarrow> asks b \<noteq> []"

definition best_bid :: "OrderBook \<Rightarrow> Price res" where
  "best_bid b = (case bids b of [] \<Rightarrow> Inl Bids_empty | e # _ \<Rightarrow> Inr (level_price (snd e)))"

definition best_ask :: "OrderBook \<Rightarrow> Price res" where
  "best_ask b = (case asks b of [] \<Rightarrow> Inl Asks_empty | e # _ \<Rightarrow> Inr (level_price (snd e)))"

definition side_levels :: "OrderBook \<Rightarrow> Side \<Rightarrow> Levels" where
  "side_levels b s = (if s = Buy then bids b else asks b)"

definition has_level :: "OrderBook \<Rightarrow> Side \<Rightarrow> Price \<Rightarrow> bool" where
  "has_level b s p \<longleftrightarrow> map_of (side_levels b s) p \<noteq> None"

definition level_quantity :: "OrderBook \<Rightarrow> Side \<Rightarrow> Price \<Rightarrow> Quantity" where
  "level_quantity b s p =
     (case map_of (side_levels b s) p of Some lvl \<Rightarrow> total_quantity lvl | None \<Rightarrow> 0)"

definition level_order_count :: "OrderBook \<Rightarrow> Side \<Rightarrow> Price \<Rightarrow> nat" where
  "level_order_count b s p =
     (case map_of (side_levels b s) p of Some lvl \<Rightarrow> get_order_count lvl | None \<Rightarrow> 0)"

definition bid_level_count :: "OrderBook \<Rightarrow> nat" where "bid_level_count b = length (bids b)"
definition ask_level_count :: "OrderBook \<Rightarrow> nat" where "ask_level_count b = length (asks b)"

section \<open>Events\<close>

definition add_private_event :: "int \<Rightarrow> PrivateEvent \<Rightarrow> OrderBook \<Rightarrow> OrderBook" where
  "add_private_event conn ev b = b\<lparr>event_sink := event_sink b @ [Routed conn ev]\<rparr>"

definition add_public_event :: "PublicEvent \<Rightarrow> OrderBook \<Rightarrow> OrderBook" where
  "add_public_event ev b = b\<lparr>event_sink := event_sink b @ [Public ev]\<rparr>"

section \<open>Executing one trade\<close>

definition remove_look_up :: "OrderId \<Rightarrow> OrderBook \<Rightarrow> bool \<times> OrderBook" where
  "remove_look_up oid b =
     (order_look_up b oid \<noteq> None, b\<lparr>order_look_up := (order_look_up b)(oid := None)\<rparr>)"

text \<open>
  The incoming order and the level are references in the code; the updated values are returned,
  with the executed quantity and the book.
\<close>

definition execute_trade ::
  "Order \<Rightarrow> PriceLevel \<Rightarrow> OrderBook \<Rightarrow> (Quantity \<times> Order \<times> PriceLevel \<times> OrderBook) res"
where
  "execute_trade incoming lvl b =
     rbind (front_order lvl) (\<lambda>front.
     let execution = min (remaining_quantity incoming) (remaining_quantity front);
         trade = Trade_from_match incoming front;
         b = add_public_event
               (TradeExecuted (info_order_id (buyer trade)) (info_order_id (seller trade))
                  (execution_price trade) (execution_quantity trade) (aggressor_side trade)) b;
         b = b\<lparr>trades := trades b @ [trade]\<rparr>;
         getFilled = (remaining_quantity front = execution);
         front_order_id = order_id front;
         maker_conn = connection_id front;
         maker_cid = client_order_id front
     in rbind (fill_order incoming execution) (\<lambda>incoming'.
        rbind (i64_sub (remaining_quantity front) execution) (\<lambda>maker_remaining_after_fill.
        rbind (fill_front_order lvl execution) (\<lambda>lvl'.
          let b = (if getFilled then snd (remove_look_up front_order_id b) else b);
              counterpart_side = (if is_buy incoming' then Sell else Buy);
              b = add_public_event
                    (BookUpdate counterpart_side (level_price lvl') (total_quantity lvl')) b;
              b = (if getFilled
                   then add_private_event maker_conn (OrderFilled front_order_id maker_cid) b
                   else add_private_event maker_conn
                          (OrderRested front_order_id maker_cid maker_remaining_after_fill) b)
          in Inr (execution, incoming', lvl', b)))))"

section \<open>The matching loops\<close>

text \<open>
  The inner loop trades against one level until the order is filled or the level is empty. Each round
  removes the front order of the level or fills the incoming order, whatever the quantities are.
\<close>

lemma execute_trade_InrD:
  assumes "execute_trade incoming lvl b = Inr (q, incoming', lvl', b')"
  shows "\<exists>n front rest. orders lvl = (n, front) # rest \<and>
      q = min (remaining_quantity incoming) (remaining_quantity front) \<and>
      fill_order incoming q = Inr incoming' \<and> fill_front_order lvl q = Inr lvl'"
proof (cases "orders lvl")
  case Nil
  with assms show ?thesis by (simp add: execute_trade_def front_order_def)
next
  case (Cons nd rest)
  then obtain n front where lvl: "orders lvl = (n, front) # rest" by (cases nd) auto
  show ?thesis
    using assms unfolding execute_trade_def front_order_Cons[OF lvl] rbind_Inr Let_def
    by (elim rbind_Inr_E) (simp add: lvl)
qed

lemma execute_trade_progress:
  assumes "execute_trade incoming lvl b = Inr (q, incoming', lvl', b')"
  shows "length (orders lvl') < length (orders lvl) \<or>
    (is_filled incoming' \<and> length (orders lvl') \<le> length (orders lvl))"
proof -
  obtain n front rest where lvl: "orders lvl = (n, front) # rest"
    and q: "q = min (remaining_quantity incoming) (remaining_quantity front)"
    and fill: "fill_order incoming q = Inr incoming'" "fill_front_order lvl q = Inr lvl'"
    using execute_trade_InrD[OF assms] by blast
  have filled: "is_filled incoming'" if "q = remaining_quantity incoming"
    using fill(1) that
    by (auto simp: fill_order_def rbind_eq_Inr_iff i64_sub_Inr_iff is_filled_def split: if_splits)
  show ?thesis
    using fill_front_order_length[OF fill(2) lvl] filled q lvl by auto
qed

definition unfilled_weight :: "Order \<Rightarrow> nat" where
  "unfilled_weight ord = (if is_filled ord then 0 else 1)"

function trade_level_loop ::
  "Order \<Rightarrow> PriceLevel \<Rightarrow> OrderBook \<Rightarrow> Quantity \<Rightarrow> (Quantity \<times> Order \<times> PriceLevel \<times> OrderBook) res"
where
  "trade_level_loop incoming lvl b execution =
     (if \<not> is_filled incoming \<and> \<not> level_empty lvl then
        rbind (execute_trade incoming lvl b) (\<lambda>(q, incoming', lvl', b').
        rbind (i64_add execution q) (\<lambda>execution'.
          trade_level_loop incoming' lvl' b' execution'))
      else Inr (execution, incoming, lvl, b))"
  by pat_completeness auto
termination
  by (relation "measure (\<lambda>(incoming, lvl, _). length (orders lvl) + unfilled_weight incoming)")
     (auto simp: unfilled_weight_def dest: execute_trade_progress)

declare trade_level_loop.simps [simp del]

lemma trade_level_loop_progress:
  assumes "trade_level_loop incoming lvl b execution = Inr (execution', incoming', lvl', b')"
  shows "is_filled incoming' \<or> level_empty lvl'"
  using assms
proof (induction incoming lvl b execution rule: trade_level_loop.induct)
  case (1 incoming lvl b execution)
  show ?case
  proof (cases "\<not> is_filled incoming \<and> \<not> level_empty lvl")
    case True
    with "1.prems" show ?thesis
      by (subst (asm) trade_level_loop.simps) (auto simp: rbind_eq_Inr_iff dest: "1.IH"[OF True])
  next
    case False
    with "1.prems" show ?thesis by (auto simp: trade_level_loop.simps)
  qed
qed

text \<open>
  The outer loop of \<open>match_limit_order_against_side\<close> walks the levels from \<open>begin()\<close>; a level that
  has become empty is erased, otherwise the loop looks at the same level again.
\<close>

function match_levels_loop ::
  "(Price \<Rightarrow> Price \<Rightarrow> bool) \<Rightarrow> Price \<Rightarrow> Order \<Rightarrow> Levels \<Rightarrow> OrderBook \<Rightarrow> Quantity \<Rightarrow>
   (Quantity \<times> Order \<times> Levels \<times> OrderBook) res"
where
  "match_levels_loop cmp p ord [] b execution = Inr (execution, ord, [], b)"
| "match_levels_loop cmp p ord ((k, lvl) # ls) b execution =
     (if \<not> is_filled ord \<and> cmp p (level_price lvl) then
        rbind (trade_level_loop ord lvl b execution) (\<lambda>(execution', ord', lvl', b').
          if level_empty lvl' then match_levels_loop cmp p ord' ls b' execution'
          else match_levels_loop cmp p ord' ((k, lvl') # ls) b' execution')
      else Inr (execution, ord, (k, lvl) # ls, b))"
  by pat_completeness auto
termination
  by (relation "measure (\<lambda>(_, _, ord, ls, _, _). length ls + unfilled_weight ord)")
     (auto simp: unfilled_weight_def dest: trade_level_loop_progress)

declare match_levels_loop.simps [simp del]

definition match_limit_order_against_side ::
  "Order \<Rightarrow> Levels \<Rightarrow> (Price \<Rightarrow> Price \<Rightarrow> bool) \<Rightarrow> OrderBook \<Rightarrow> (Quantity \<times> Order \<times> Levels \<times> OrderBook) res"
where
  "match_limit_order_against_side ord levels cmp b =
     (if levels = [] then Inr (0, ord, levels, b)
      else match_levels_loop cmp (price ord) ord levels b 0)"

text \<open>
  \<open>match_market_order_against_side\<close> is the same loop without the price comparison.
\<close>

definition match_market_order_against_side ::
  "Levels \<Rightarrow> Order \<Rightarrow> OrderBook \<Rightarrow> (Quantity \<times> Order \<times> Levels \<times> OrderBook) res"
where
  "match_market_order_against_side levels ord b =
     (if levels = [] then Inr (0, ord, levels, b)
      else match_levels_loop cmp_any (price ord) ord levels b 0)"

section \<open>Resting an order\<close>

definition add_order_to_side ::
  "Comparator \<Rightarrow> Levels \<Rightarrow> Order \<Rightarrow> OrderBook \<Rightarrow> (bool \<times> Levels \<times> OrderBook) res"
where
  "add_order_to_side before levels ord b =
     (if is_filled ord then Inr (True, levels, b)
      else rbind (levels_try_emplace before (price ord) levels) (\<lambda>(levels', lvl).
           rbind (level_add_order lvl (next_node b) ord) (\<lambda>lvl'.
             let inserted_in_look_up = (order_look_up b (order_id ord) = None);
                 loc = \<lparr>loc_side = side ord, loc_price = price ord, loc_order_it = next_node b\<rparr>;
                 b = b\<lparr>next_node := Suc (next_node b)\<rparr>;
                 b = (if inserted_in_look_up
                      then b\<lparr>order_look_up := (order_look_up b)(order_id ord \<mapsto> loc)\<rparr> else b);
                 b = add_public_event
                       (BookUpdate (side ord) (price ord) (total_quantity lvl')) b
             in Inr (inserted_in_look_up, levels_put (price ord) lvl' levels', b))))"

section \<open>Fill-or-kill check\<close>

fun can_fully_fill_loop ::
  "(Price \<Rightarrow> Price \<Rightarrow> bool) \<Rightarrow> Price \<Rightarrow> Quantity \<Rightarrow> Levels \<Rightarrow> Quantity res"
where
  "can_fully_fill_loop cmp p q [] = Inr q"
| "can_fully_fill_loop cmp p q ((k, lvl) # ls) =
     (if q > 0 \<and> cmp p (level_price lvl)
      then rbind (i64_sub q (total_quantity lvl)) (\<lambda>q'. can_fully_fill_loop cmp p q' ls)
      else Inr q)"

definition can_fully_fill_against_side ::
  "Levels \<Rightarrow> Order \<Rightarrow> (Price \<Rightarrow> Price \<Rightarrow> bool) \<Rightarrow> bool res"
where
  "can_fully_fill_against_side levels ord cmp =
     (if levels = [] then Inr False
      else rbind (can_fully_fill_loop cmp (price ord) (remaining_quantity ord) levels)
             (\<lambda>q. Inr (q \<le> 0)))"

definition can_fully_fill :: "Order \<Rightarrow> OrderBook \<Rightarrow> bool res" where
  "can_fully_fill ord b =
     (if is_buy ord then can_fully_fill_against_side (asks b) ord cmp_buy
      else can_fully_fill_against_side (bids b) ord cmp_sell)"

section \<open>Adding an order\<close>

definition match_buy :: "Order \<Rightarrow> OrderBook \<Rightarrow> (Quantity \<times> Order \<times> OrderBook) res" where
  "match_buy ord b =
     rbind (match_limit_order_against_side ord (asks b) cmp_buy b)
       (\<lambda>(q, ord', ls, b'). Inr (q, ord', b'\<lparr>asks := ls\<rparr>))"

definition match_sell :: "Order \<Rightarrow> OrderBook \<Rightarrow> (Quantity \<times> Order \<times> OrderBook) res" where
  "match_sell ord b =
     rbind (match_limit_order_against_side ord (bids b) cmp_sell b)
       (\<lambda>(q, ord', ls, b'). Inr (q, ord', b'\<lparr>bids := ls\<rparr>))"

definition match_order :: "Order \<Rightarrow> OrderBook \<Rightarrow> (Quantity \<times> Order \<times> OrderBook) res" where
  "match_order ord b = (if is_buy ord then match_buy ord b else match_sell ord b)"

definition rest_order :: "Order \<Rightarrow> OrderBook \<Rightarrow> (bool \<times> OrderBook) res" where
  "rest_order ord b =
     (if is_buy ord
      then rbind (add_order_to_side bid_before (bids b) ord b)
             (\<lambda>(ok, ls, b'). Inr (ok, b'\<lparr>bids := ls\<rparr>))
      else rbind (add_order_to_side ask_before (asks b) ord b)
             (\<lambda>(ok, ls, b'). Inr (ok, b'\<lparr>asks := ls\<rparr>)))"

definition add_limit_order :: "Order \<Rightarrow> OrderBook \<Rightarrow> (AddOrderResult \<times> OrderBook) res" where
  "add_limit_order ord b =
     (let tif = time_in_force ord in
      rbind (if tif = FillOrKill then can_fully_fill ord b else Inr True) (\<lambda>fillable.
      if tif = FillOrKill \<and> \<not> fillable then
        Inr (\<lparr>status = Rejected, res_execution_quantity = 0,
              res_remaining_quantity = remaining_quantity ord\<rparr>, b)
      else
        rbind (match_order ord b) (\<lambda>(execution, ord', b').
          let remaining = remaining_quantity ord' in
          if tif = GoodTillCancel then
            rbind (rest_order ord' b') (\<lambda>(ok, b'').
              Inr (from_match ok (order_type ord') execution remaining, b''))
          else Inr (from_match_filled (order_type ord') execution remaining, b'))))"

definition add_market_order :: "Order \<Rightarrow> OrderBook \<Rightarrow> (AddOrderResult \<times> OrderBook) res" where
  "add_market_order ord b =
     (if is_buy ord
      then rbind (match_market_order_against_side (asks b) ord b) (\<lambda>(execution, ord', ls, b').
             Inr (from_match_filled (order_type ord') execution (remaining_quantity ord'),
                  b'\<lparr>asks := ls\<rparr>))
      else rbind (match_market_order_against_side (bids b) ord b) (\<lambda>(execution, ord', ls, b').
             Inr (from_match_filled (order_type ord') execution (remaining_quantity ord'),
                  b'\<lparr>bids := ls\<rparr>)))"

definition add_order :: "Order \<Rightarrow> OrderBook \<Rightarrow> (AddOrderResult \<times> OrderBook) res" where
  "add_order ord b =
     (if is_limit_order ord then add_limit_order ord b else add_market_order ord b)"

section \<open>Cancelling\<close>

definition cancel_order_side ::
  "Levels \<Rightarrow> OrderLocation \<Rightarrow> OrderBook \<Rightarrow> (bool \<times> Levels \<times> OrderBook) res"
where
  "cancel_order_side levels loc b =
     (case map_of levels (loc_price loc) of
        None \<Rightarrow> Inr (False, levels, b)
      | Some lvl \<Rightarrow>
          rbind (erase_order lvl (loc_order_it loc)) (\<lambda>lvl'.
            let new_qty = (if level_empty lvl' then 0 else total_quantity lvl');
                levels' = (if level_empty lvl' then levels_erase (loc_price loc) levels
                           else levels_put (loc_price loc) lvl' levels);
                b = add_public_event (BookUpdate (loc_side loc) (loc_price loc) new_qty) b
            in Inr (True, levels', b)))"

definition cancel_order :: "OrderId \<Rightarrow> OrderBook \<Rightarrow> (bool \<times> OrderBook) res" where
  "cancel_order oid b =
     (case order_look_up b oid of
        None \<Rightarrow> Inr (False, b)
      | Some loc \<Rightarrow>
          let b = b\<lparr>order_look_up := (order_look_up b)(oid := None)\<rparr> in
          if loc_side loc = Buy
          then rbind (cancel_order_side (bids b) loc b)
                 (\<lambda>(ok, ls, b'). Inr (ok, b'\<lparr>bids := ls\<rparr>))
          else rbind (cancel_order_side (asks b) loc b)
                 (\<lambda>(ok, ls, b'). Inr (ok, b'\<lparr>asks := ls\<rparr>)))"

section \<open>Finding and modifying\<close>

definition levels_nodes :: "Levels \<Rightarrow> OrderNode list" where
  "levels_nodes ls = concat (map (\<lambda>e. orders (snd e)) ls)"

definition book_nodes :: "OrderBook \<Rightarrow> OrderNode list" where
  "book_nodes b = levels_nodes (bids b) @ levels_nodes (asks b)"

text \<open>Dereferencing an iterator yields the order of its node, wherever the node is linked.\<close>

definition deref_order :: "OrderBook \<Rightarrow> OrderIterator \<Rightarrow> Order res" where
  "deref_order b n =
     (case map_of (book_nodes b) n of None \<Rightarrow> Inl UB_iterator | Some ord \<Rightarrow> Inr ord)"

definition find_order :: "OrderId \<Rightarrow> OrderBook \<Rightarrow> Order option res" where
  "find_order oid b =
     (case order_look_up b oid of
        None \<Rightarrow> Inr None
      | Some loc \<Rightarrow> rbind (deref_order b (loc_order_it loc)) (\<lambda>ord. Inr (Some ord)))"

definition modify_order :: "OrderId \<Rightarrow> Price \<Rightarrow> Quantity \<Rightarrow> OrderBook \<Rightarrow> (bool \<times> OrderBook) res" where
  "modify_order oid new_price new_quantity b =
     rbind (find_order oid b) (\<lambda>maybe_old.
       case maybe_old of
         None \<Rightarrow> Inr (False, b)
       | Some old \<Rightarrow>
           rbind (from_replacement old new_price new_quantity) (\<lambda>new_order.
           rbind (cancel_order oid b) (\<lambda>(_, b').
           rbind (add_order new_order b') (\<lambda>(res, b'').
             Inr (status res \<noteq> Failed, b'')))))"

section \<open>Processing messages\<close>

definition report_add :: "AddOrder \<Rightarrow> OrderId \<Rightarrow> AddOrderResult \<Rightarrow> OrderBook \<Rightarrow> OrderBook" where
  "report_add msg book_id res b =
     (let conn = ao_connection_id msg; cid = ao_client_order_id msg; tif = ao_time_in_force msg in
      case status res of
        Failed \<Rightarrow> add_private_event conn (OrderRejected book_id NoLiquidity) b
      | Rejected \<Rightarrow> add_private_event conn (OrderRejected book_id NoLiquidity) b
      | FullyFilled \<Rightarrow> add_private_event conn (OrderFilled book_id cid) b
      | Resting \<Rightarrow>
          (if tif = ImmediateOrCancel
           then add_private_event conn (OrderExpired book_id cid) b
           else add_private_event conn (OrderRested book_id cid (res_remaining_quantity res)) b)
      | PartiallyFilled \<Rightarrow>
          (if tif = GoodTillCancel
           then add_private_event conn (OrderRested book_id cid (res_remaining_quantity res)) b
           else add_private_event conn (OrderExpired book_id cid) b))"

definition process_add :: "AddOrder \<Rightarrow> OrderBook \<Rightarrow> OrderBook res" where
  "process_add msg b =
     (let book_id = next_order_id b;
          b = b\<lparr>next_order_id := next_order_id b + 1\<rparr>
      in rbind (new_Order (ao_order_type msg) (ao_time_in_force msg) book_id (ao_price msg)
                  (ao_quantity msg) (ao_side msg) (ao_seq msg) (ao_connection_id msg)
                  (ao_client_order_id msg)) (\<lambda>ord.
         rbind (add_order ord b) (\<lambda>(res, b'). Inr (report_add msg book_id res b'))))"

definition process_modify :: "ModifyOrder \<Rightarrow> OrderBook \<Rightarrow> OrderBook res" where
  "process_modify msg b =
     rbind (modify_order (mo_id msg) (mo_new_price msg) (mo_new_quantity msg) b) (\<lambda>(modified, b').
       Inr (if \<not> modified
            then add_private_event (mo_connection_id msg) (ModifyRejected (mo_id msg) InvalidOrderId) b'
            else add_private_event (mo_connection_id msg)
                   (OrderModified (mo_id msg) (mo_new_price msg) (mo_new_quantity msg)) b'))"

definition process_cancel :: "CancelOrder \<Rightarrow> OrderBook \<Rightarrow> OrderBook res" where
  "process_cancel msg b =
     rbind (cancel_order (co_id msg) b) (\<lambda>(cancelled, b').
       Inr (if \<not> cancelled
            then add_private_event (co_connection_id msg) (CancelRejected (co_id msg) InvalidOrderId) b'
            else add_private_event (co_connection_id msg) (OrderCanceled (co_id msg)) b'))"

fun process :: "Message \<Rightarrow> OrderBook \<Rightarrow> OrderBook res" where
  "process (Add_msg msg) b = process_add msg b"
| "process (Modify_msg msg) b = process_modify msg b"
| "process (Cancel_msg msg) b = process_cancel msg b"

fun process_all :: "Message list \<Rightarrow> OrderBook \<Rightarrow> OrderBook res" where
  "process_all [] b = Inr b"
| "process_all (m # ms) b = rbind (process m b) (process_all ms)"

end
