(* ===== verification/Matching.thy ===== *)
theory Matching
  imports Order_Book
begin

text \<open>
  What the matching loops compute: a purely functional reference for a sweep of one side of the book,
  and the proof that the code's loops, with their exceptions and their in-place updates, return
  exactly the result of the reference on well-formed levels.

  A sweep yields a list of fills. Each is described by the maker before the trade, by what the
  incoming order had left before it, and by the total of the maker's level after it; everything the
  loop does to the book (trades, index, events) is a function of that list.
\<close>

section \<open>Fills and their effect on the book\<close>

datatype Fill = Fill (fill_maker: Order) (fill_taker_left: Quantity) (fill_level_total: Quantity)

definition fill_quantity :: "Fill \<Rightarrow> Quantity" where
  "fill_quantity f = min (fill_taker_left f) (remaining_quantity (fill_maker f))"

definition fill_complete :: "Fill \<Rightarrow> bool" where
  "fill_complete f \<longleftrightarrow> remaining_quantity (fill_maker f) = fill_quantity f"

definition fill_trade :: "Order \<Rightarrow> Fill \<Rightarrow> Trade" where
  "fill_trade ord f =
     Trade_from_match (ord\<lparr>remaining_quantity := fill_taker_left f\<rparr>) (fill_maker f)"

definition counter_side :: "Order \<Rightarrow> Side" where
  "counter_side ord = (if is_buy ord then Sell else Buy)"

definition fill_events :: "Order \<Rightarrow> Fill \<Rightarrow> Event list" where
  "fill_events ord f =
     (let t = fill_trade ord f; m = fill_maker f in
      [Public (TradeExecuted (info_order_id (buyer t)) (info_order_id (seller t))
                 (execution_price t) (execution_quantity t) (aggressor_side t)),
       Public (BookUpdate (counter_side ord) (price m) (fill_level_total f)),
       Routed (connection_id m)
         (if fill_complete f then OrderFilled (order_id m) (client_order_id m)
          else OrderRested (order_id m) (client_order_id m)
                 (remaining_quantity m - fill_quantity f))])"

definition removed_ids :: "Fill list \<Rightarrow> OrderId set" where
  "removed_ids fs = order_id ` fill_maker ` {f \<in> set fs. fill_complete f}"

definition apply_fills :: "Order \<Rightarrow> Fill list \<Rightarrow> OrderBook \<Rightarrow> OrderBook" where
  "apply_fills ord fs b =
     b\<lparr>trades := trades b @ map (fill_trade ord) fs,
       order_look_up := (order_look_up b) |` (- removed_ids fs),
       event_sink := event_sink b @ concat (map (fill_events ord) fs)\<rparr>"

lemma removed_ids_Nil [simp]: "removed_ids [] = {}"
  by (simp add: removed_ids_def)

lemma removed_ids_Cons:
  "removed_ids (f # fs) =
     (if fill_complete f then {order_id (fill_maker f)} else {}) \<union> removed_ids fs"
  by (auto simp: removed_ids_def)

lemma restrict_map_UNIV [simp]: "m |` UNIV = m"
  by (simp add: restrict_map_def)

lemma removed_ids_append [simp]: "removed_ids (fs @ fs') = removed_ids fs \<union> removed_ids fs'"
  by (auto simp: removed_ids_def)

lemma apply_fills_Nil [simp]: "apply_fills ord [] b = b"
  by (simp add: apply_fills_def)

lemma apply_fills_append:
  "apply_fills ord (fs @ fs') b = apply_fills ord fs' (apply_fills ord fs b)"
  by (simp add: apply_fills_def Compl_Un)

lemma apply_fills_Cons: "apply_fills ord (f # fs) b = apply_fills ord fs (apply_fills ord [f] b)"
  using apply_fills_append[of ord "[f]" fs b] by simp

lemma apply_fills_selectors [simp]:
  "bids (apply_fills ord fs b) = bids b"
  "asks (apply_fills ord fs b) = asks b"
  "next_order_id (apply_fills ord fs b) = next_order_id b"
  "next_node (apply_fills ord fs b) = next_node b"
  "trades (apply_fills ord fs b) = trades b @ map (fill_trade ord) fs"
  "order_look_up (apply_fills ord fs b) = (order_look_up b) |` (- removed_ids fs)"
  "event_sink (apply_fills ord fs b) = event_sink b @ concat (map (fill_events ord) fs)"
  by (simp_all add: apply_fills_def)

text \<open>What the incoming order has left is a parameter of a fill, not read from the order.\<close>

lemma counter_side_update [simp]:
  "counter_side (ord\<lparr>remaining_quantity := r\<rparr>) = counter_side ord"
  by (simp add: counter_side_def)

lemma fill_trade_update [simp]:
  "fill_trade (ord\<lparr>remaining_quantity := r\<rparr>) f = fill_trade ord f"
  by (simp add: fill_trade_def)

lemma fill_events_update [simp]:
  "fill_events (ord\<lparr>remaining_quantity := r\<rparr>) f = fill_events ord f"
  by (simp add: fill_events_def)

lemma apply_fills_update [simp]:
  "apply_fills (ord\<lparr>remaining_quantity := r\<rparr>) fs b = apply_fills ord fs b"
proof -
  have "fill_trade (ord\<lparr>remaining_quantity := r\<rparr>) = fill_trade ord"
    and "fill_events (ord\<lparr>remaining_quantity := r\<rparr>) = fill_events ord"
    by (simp_all add: fun_eq_iff)
  then show ?thesis by (simp add: apply_fills_def)
qed

section \<open>The reference sweep\<close>

text \<open>
  One level: fill the queue from the front with \<open>q\<close>; \<open>t\<close> is the total of the level. Returns the
  fills, what is left of \<open>q\<close> and what is left of the queue.
\<close>

fun take_nodes ::
  "Quantity \<Rightarrow> Quantity \<Rightarrow> OrderNode list \<Rightarrow> Fill list \<times> Quantity \<times> OrderNode list"
where
  "take_nodes q t [] = ([], q, [])"
| "take_nodes q t ((n, ord) # nds) =
     (if q = 0 then ([], 0, (n, ord) # nds)
      else if q < remaining_quantity ord then
        ([Fill ord q (t - q)], 0,
         (n, ord\<lparr>remaining_quantity := remaining_quantity ord - q\<rparr>) # nds)
      else
        (case take_nodes (q - remaining_quantity ord) (t - remaining_quantity ord) nds of
           (fs, q', nds') \<Rightarrow> (Fill ord q (t - remaining_quantity ord) # fs, q', nds')))"

definition level_with :: "PriceLevel \<Rightarrow> OrderNode list \<Rightarrow> PriceLevel" where
  "level_with lvl nds = lvl\<lparr>total_quantity := nodes_quantity nds, orders := nds\<rparr>"

lemma level_with_self: "level_ok lvl \<Longrightarrow> level_with lvl (orders lvl) = lvl"
  by (cases lvl) (simp add: level_with_def level_ok_def)

text \<open>One side: the levels in priority order, as long as the predicate accepts their price.\<close>

fun sweep ::
  "(Price \<Rightarrow> bool) \<Rightarrow> Quantity \<Rightarrow> Levels \<Rightarrow> Fill list \<times> Quantity \<times> Levels"
where
  "sweep accepts q [] = ([], q, [])"
| "sweep accepts q ((k, lvl) # ls) =
     (if q = 0 \<or> \<not> accepts k then ([], q, (k, lvl) # ls)
      else (case take_nodes q (total_quantity lvl) (orders lvl) of
        (fs, q', nds) \<Rightarrow>
          if nds = [] then
            (case sweep accepts q' ls of (fs', q'', ls') \<Rightarrow> (fs @ fs', q'', ls'))
          else (fs, q', (k, level_with lvl nds) # ls)))"

section \<open>The code's loops compute the reference\<close>

definition level_entry_ok :: "Price \<times> PriceLevel \<Rightarrow> bool" where
  "level_entry_ok e \<longleftrightarrow> level_ok (snd e) \<and> level_price (snd e) = fst e"

lemma level_ok_frontD:
  assumes "level_ok lvl" and "orders lvl = (n, front) # rest"
  shows "order_ok front" and "0 < remaining_quantity front" and "price front = level_price lvl"
  using assms by (auto simp: level_ok_def node_ok_def)

lemma execute_trade_eq:
  assumes lvl: "level_ok lvl" "orders lvl = (n, front) # rest" and ord: "order_ok ord"
  defines "x \<equiv> min (remaining_quantity ord) (remaining_quantity front)"
  defines "lvl' \<equiv> lvl\<lparr>total_quantity := total_quantity lvl - x,
      orders := (if x = remaining_quantity front then rest
                 else (n, front\<lparr>remaining_quantity := remaining_quantity front - x\<rparr>) # rest)\<rparr>"
  shows "execute_trade ord lvl b =
      Inr (x, ord\<lparr>remaining_quantity := remaining_quantity ord - x\<rparr>, lvl',
           apply_fills ord [Fill front (remaining_quantity ord) (total_quantity lvl - x)] b)"
    and "level_ok lvl'"
proof -
  note front = level_ok_frontD[OF lvl]
  have x: "0 \<le> x" "x \<le> remaining_quantity front" "x \<le> remaining_quantity ord"
    using order_ok_nonneg[OF ord] front(2) by (auto simp: x_def)
  have fill: "fill_order ord x = Inr (ord\<lparr>remaining_quantity := remaining_quantity ord - x\<rparr>)"
    by (rule fill_order_eq[OF ord x(1,3)])
  have left: "i64_sub (remaining_quantity front) x = Inr (remaining_quantity front - x)"
    by (intro i64_sub_ok in_i64_diff order_ok_in_i64 front x)
  have level: "fill_front_order lvl x = Inr lvl'"
    using fill_front_order_eq(1)[OF lvl x(1,2)] by (simp add: lvl'_def)
  have price: "level_price lvl' = price front"
    using front(3) by (simp add: lvl'_def)
  show "execute_trade ord lvl b =
      Inr (x, ord\<lparr>remaining_quantity := remaining_quantity ord - x\<rparr>, lvl',
           apply_fills ord [Fill front (remaining_quantity ord) (total_quantity lvl - x)] b)"
    unfolding execute_trade_def front_order_Cons[OF lvl(2)] rbind_Inr Let_def
      x_def[symmetric] fill left level price
    by (auto simp: apply_fills_def fill_events_def fill_trade_def fill_quantity_def
        fill_complete_def counter_side_def x_def[symmetric] removed_ids_Cons remove_look_up_def
        add_public_event_def add_private_event_def Let_def lvl'_def
        Map.restrict_complement_singleton_eq)
  show "level_ok lvl'"
    using fill_front_order_eq(2)[OF lvl x(1,2)] by (simp add: lvl'_def)
qed


text \<open>What one round trades, and the level after it.\<close>

definition round_level :: "PriceLevel \<Rightarrow> nat \<Rightarrow> Order \<Rightarrow> OrderNode list \<Rightarrow> Quantity \<Rightarrow> PriceLevel" where
  "round_level lvl n front rest x = lvl\<lparr>total_quantity := total_quantity lvl - x,
     orders := (if x = remaining_quantity front then rest
                else (n, front\<lparr>remaining_quantity := remaining_quantity front - x\<rparr>) # rest)\<rparr>"

lemma trade_level_loop_round:
  assumes lvl_ok: "level_ok lvl" and ord_ok: "order_ok ord" and "0 \<le> e"
    and fits: "in_i64 (e + remaining_quantity ord)" and lvl: "orders lvl = (n, front) # rest"
    and unfilled: "remaining_quantity ord \<noteq> 0"
  defines "x \<equiv> min (remaining_quantity ord) (remaining_quantity front)"
  shows "trade_level_loop ord lvl b e =
      trade_level_loop (ord\<lparr>remaining_quantity := remaining_quantity ord - x\<rparr>) (round_level lvl n front rest x)
        (apply_fills ord [Fill front (remaining_quantity ord) (total_quantity lvl - x)] b) (e + x)"
    and "level_ok (round_level lvl n front rest x)"
    and "order_ok (ord\<lparr>remaining_quantity := remaining_quantity ord - x\<rparr>)"
    and "0 \<le> x" and "x \<le> remaining_quantity ord"
proof -
  note front = level_ok_frontD[OF lvl_ok lvl]
  show range: "0 \<le> x" "x \<le> remaining_quantity ord"
    using order_ok_nonneg[OF ord_ok] front(2) by (auto simp: x_def)
  have "in_i64 (e + x)"
    by (rule in_i64_between[OF fits]) (use \<open>0 \<le> e\<close> range in simp_all)
  then have add: "i64_add e x = Inr (e + x)" by (rule i64_add_ok)
  have "\<not> is_filled ord" "\<not> level_empty lvl"
    using unfilled lvl by (simp_all add: is_filled_def level_empty_def)
  then show "trade_level_loop ord lvl b e =
      trade_level_loop (ord\<lparr>remaining_quantity := remaining_quantity ord - x\<rparr>) (round_level lvl n front rest x)
        (apply_fills ord [Fill front (remaining_quantity ord) (total_quantity lvl - x)] b) (e + x)"
    by (subst trade_level_loop.simps)
       (simp add: execute_trade_eq(1)[OF lvl_ok lvl ord_ok] add x_def[symmetric] round_level_def)
  show "level_ok (round_level lvl n front rest x)"
    unfolding round_level_def x_def by (rule execute_trade_eq(2)[OF lvl_ok lvl ord_ok])
  show "order_ok (ord\<lparr>remaining_quantity := remaining_quantity ord - x\<rparr>)"
    by (rule order_ok_fill[OF ord_ok]) (use range in auto)
qed

lemma trade_level_loop_eq:
  assumes "level_ok lvl" and "order_ok ord" and "0 \<le> e" and "in_i64 (e + remaining_quantity ord)"
    and "take_nodes (remaining_quantity ord) (total_quantity lvl) (orders lvl) = (fs, q', nds')"
  shows "trade_level_loop ord lvl b e =
      Inr (e + (remaining_quantity ord - q'), ord\<lparr>remaining_quantity := q'\<rparr>,
           level_with lvl nds', apply_fills ord fs b)"
  using assms
proof (induction "orders lvl" arbitrary: lvl ord b e fs)
  case Nil
  then have "nds' = []" "q' = remaining_quantity ord" "fs = []" "total_quantity lvl = 0"
    by (auto simp: level_ok_def)
  with Nil show ?case
    by (simp add: trade_level_loop.simps level_empty_def level_with_def)
next
  case (Cons nd rest)
  obtain n front where nd: "nd = (n, front)" by (cases nd)
  note lvl = Cons.hyps(2)[symmetric, unfolded nd]
  let ?q = "remaining_quantity ord" and ?r = "remaining_quantity front"
  show ?case
  proof (cases "?q = 0")
    case True
    with Cons.prems(5) lvl have "fs = []" "q' = 0" "nds' = orders lvl" by auto
    with True show ?thesis
      by (simp add: trade_level_loop.simps is_filled_def level_with_self[OF Cons.prems(1)])
  next
    case unfilled: False
    note round = trade_level_loop_round[OF Cons.prems(1-4) lvl unfilled]
    show ?thesis
    proof (cases "?q < ?r")
      case True
      then have x: "min ?q ?r = ?q" "?q \<noteq> ?r" by simp_all
      have res: "fs = [Fill front ?q (total_quantity lvl - ?q)]" "q' = 0"
        "nds' = (n, front\<lparr>remaining_quantity := ?r - ?q\<rparr>) # rest"
        using Cons.prems(5) lvl unfilled True by auto
      have "level_with lvl nds' = round_level lvl n front rest ?q"
        using round(2) by (simp add: x round_level_def level_with_def level_ok_def res)
      then show ?thesis
        unfolding round(1)[of b] x(1) by (simp add: trade_level_loop.simps is_filled_def res)
    next
      case False
      then have x: "min ?q ?r = ?r" by simp
      obtain fs' where res: "take_nodes (?q - ?r) (total_quantity lvl - ?r) rest = (fs', q', nds')"
        and fs: "fs = Fill front ?q (total_quantity lvl - ?r) # fs'"
        using Cons.prems(5) lvl unfilled False by (auto split: prod.splits)
      let ?lvl = "round_level lvl n front rest ?r"
      have rest: "orders ?lvl = rest" "total_quantity ?lvl = total_quantity lvl - ?r"
        by (simp_all add: round_level_def)
      have ih: "trade_level_loop (ord\<lparr>remaining_quantity := ?q - ?r\<rparr>) ?lvl b' (e + ?r) =
          Inr (e + ?r + (?q - ?r - q'), ord\<lparr>remaining_quantity := q'\<rparr>,
               level_with ?lvl nds', apply_fills ord fs' b')" for b'
        using Cons.hyps(1)[of ?lvl "ord\<lparr>remaining_quantity := ?q - ?r\<rparr>" "e + ?r" fs' b']
          round(2-5)[unfolded x] Cons.prems(3,4) rest res
        by simp
      show ?thesis
        unfolding round(1)[of b] x ih fs apply_fills_Cons[of ord _ fs']
        by (simp add: level_with_def round_level_def)
    qed
  qed
qed


text \<open>What a sweep of one level leaves, and that it is well-formed again.\<close>

definition take_nodes_post ::
  "Price \<Rightarrow> Quantity \<Rightarrow> OrderNode list \<Rightarrow> Quantity \<Rightarrow> OrderNode list \<Rightarrow> bool"
where
  "take_nodes_post p q nds q' nds' \<longleftrightarrow>
     0 \<le> q' \<and> q' \<le> q \<and> nodes_quantity nds' = nodes_quantity nds - (q - q') \<and>
     (\<forall>nd \<in> set nds'. node_ok p nd) \<and> fst ` set nds' \<subseteq> fst ` set nds \<and>
     (distinct (map fst nds) \<longrightarrow> distinct (map fst nds')) \<and> (nds' \<noteq> [] \<longrightarrow> q' = 0)"

lemma take_nodes_bounds:
  assumes "take_nodes q t nds = (fs, q', nds')" and "0 \<le> q" and "\<forall>nd \<in> set nds. node_ok p nd"
  shows "take_nodes_post p q nds q' nds'"
  using assms
proof (induction q t nds arbitrary: fs q' nds' rule: take_nodes.induct)
  case (1 q t)
  then show ?case by (simp add: take_nodes_post_def)
next
  case (2 q t n ord nds)
  have head: "node_ok p (n, ord)" and tail: "\<forall>nd \<in> set nds. node_ok p nd"
    using "2.prems"(3) by simp_all
  consider "q = 0" | "0 < q" "q < remaining_quantity ord" | "0 < q" "remaining_quantity ord \<le> q"
    using "2.prems"(2) by linarith
  then show ?case
  proof cases
    case 1
    with "2.prems" show ?thesis by (auto simp: take_nodes_post_def)
  next
    case 2
    then have "fs = [Fill ord q (t - q)]" "q' = 0"
      "nds' = (n, ord\<lparr>remaining_quantity := remaining_quantity ord - q\<rparr>) # nds"
      using "2.prems"(1) by auto
    with 2 head tail show ?thesis
      by (auto simp: take_nodes_post_def node_ok_def order_ok_fill)
  next
    case 3
    then obtain fs' where res:
      "take_nodes (q - remaining_quantity ord) (t - remaining_quantity ord) nds = (fs', q', nds')"
      using "2.prems"(1) by (auto split: prod.splits)
    have "take_nodes_post p (q - remaining_quantity ord) nds q' nds'"
      using "2.IH"[OF _ _ res _ tail] 3 by simp
    moreover have "0 < remaining_quantity ord" using head by (simp add: node_ok_def)
    ultimately show ?thesis by (auto simp: take_nodes_post_def)
  qed
qed

lemma level_with_ok:
  assumes "level_ok lvl" and "take_nodes_post (level_price lvl) q (orders lvl) q' nds'" and "0 \<le> q"
  shows "level_ok (level_with lvl nds')"
proof -
  have post: "nodes_quantity nds' = total_quantity lvl - (q - q')" "q' \<le> q"
    "\<forall>nd \<in> set nds'. node_ok (level_price lvl) nd" "distinct (map fst nds')"
    using assms(1,2) by (auto simp: take_nodes_post_def level_ok_def)
  have "0 \<le> nodes_quantity nds'"
    by (rule nodes_quantity_nonneg[OF post(3)])
  with post(1,2) have "in_i64 (nodes_quantity nds')"
    by (intro in_i64_between[OF level_ok_in_i64[OF assms(1)]]) simp_all
  with assms(1) post show ?thesis by (simp add: level_with_def level_ok_def)
qed


lemma match_levels_loop_eq:
  assumes "\<forall>e \<in> set ls. level_entry_ok e" and "order_ok ord" and "0 \<le> ex"
    and "in_i64 (ex + remaining_quantity ord)"
    and "sweep (cmp p) (remaining_quantity ord) ls = (fs, q', ls')"
  shows "match_levels_loop cmp p ord ls b ex =
      Inr (ex + (remaining_quantity ord - q'), ord\<lparr>remaining_quantity := q'\<rparr>, ls',
           apply_fills ord fs b)"
  using assms
proof (induction ls arbitrary: ord b ex fs ls')
  case Nil
  then show ?case by (simp add: match_levels_loop.simps)
next
  case (Cons e ls)
  obtain k lvl where e: "e = (k, lvl)" by (cases e)
  have ok: "level_ok lvl" and key: "level_price lvl = k"
    using Cons.prems(1) e by (auto simp: level_entry_ok_def)
  let ?q = "remaining_quantity ord"
  show ?case
  proof (cases "?q = 0 \<or> \<not> cmp p k")
    case True
    with Cons.prems(5) e have "fs = []" "q' = ?q" "ls' = e # ls" by auto
    with True show ?thesis by (auto simp: match_levels_loop.simps e key is_filled_def)
  next
    case False
    obtain fs1 q1 nds where take: "take_nodes ?q (total_quantity lvl) (orders lvl) = (fs1, q1, nds)"
      by (metis prod_cases3)
    have nodes: "\<forall>nd \<in> set (orders lvl). node_ok k nd"
      using ok key by (simp add: level_ok_def)
    have post: "take_nodes_post k ?q (orders lvl) q1 nds"
      by (rule take_nodes_bounds[OF take order_ok_nonneg[OF Cons.prems(2)] nodes])
    have q1: "0 \<le> q1" "q1 \<le> ?q" using post by (auto simp: take_nodes_post_def)
    note inner = trade_level_loop_eq[OF ok Cons.prems(2-4) take]
    have empty: "level_empty (level_with lvl nds) \<longleftrightarrow> nds = []"
      by (simp add: level_empty_def level_with_def)
    show ?thesis
    proof (cases "nds = []")
      case True
      obtain fs2 where rest: "sweep (cmp p) q1 ls = (fs2, q', ls')" and fs: "fs = fs1 @ fs2"
        using Cons.prems(5) False True take e by (auto split: prod.splits)
      have "match_levels_loop cmp p (ord\<lparr>remaining_quantity := q1\<rparr>) ls b' (ex + (?q - q1)) =
          Inr (ex + (?q - q1) + (q1 - q'), ord\<lparr>remaining_quantity := q'\<rparr>, ls',
               apply_fills ord fs2 b')" for b'
        using Cons.IH[of "ord\<lparr>remaining_quantity := q1\<rparr>" "ex + (?q - q1)" fs2 ls' b']
          Cons.prems q1 rest order_ok_fill[OF Cons.prems(2) q1] by simp
      with False True inner empty show ?thesis
        by (simp add: match_levels_loop.simps e key is_filled_def fs apply_fills_append)
    next
      case nonempty: False
      then have "q1 = 0" using post by (simp add: take_nodes_post_def)
      moreover have "fs = fs1" "q' = q1" "ls' = (k, level_with lvl nds) # ls"
        using Cons.prems(5) False nonempty take e by auto
      ultimately show ?thesis
        using False nonempty inner empty
        by (simp add: match_levels_loop.simps e key is_filled_def)
    qed
  qed
qed

end
