(* ===== verification/Sweep.thy ===== *)
theory Sweep
  imports Matching
begin

text \<open>
  Properties of the reference sweep: what it removes from the queue, price-time priority, quantity
  conservation, well-formedness of what is left, and the depth feed of its level totals.
\<close>

section \<open>Nodes, index entries and quantities of a side\<close>

definition node_loc :: "OrderNode \<Rightarrow> OrderId \<times> OrderLocation" where
  "node_loc nd =
     (order_id (snd nd),
      \<lparr>loc_side = side (snd nd), loc_price = price (snd nd), loc_order_it = fst nd\<rparr>)"

abbreviation node_locs :: "OrderNode list \<Rightarrow> (OrderId \<times> OrderLocation) list" where
  "node_locs nds \<equiv> map node_loc nds"

abbreviation levels_quantity :: "Levels \<Rightarrow> Quantity" where
  "levels_quantity ls \<equiv> nodes_quantity (levels_nodes ls)"

lemma levels_nodes_simps [simp]:
  "levels_nodes [] = []"
  "levels_nodes ((k, lvl) # ls) = orders lvl @ levels_nodes ls"
  "levels_nodes (ls @ ls') = levels_nodes ls @ levels_nodes ls'"
  by (simp_all add: levels_nodes_def)

lemma in_levels_nodes_iff:
  "nd \<in> set (levels_nodes ls) \<longleftrightarrow> (\<exists>e \<in> set ls. nd \<in> set (orders (snd e)))"
  by (auto simp: levels_nodes_def)

lemma fst_node_loc [simp]: "fst (node_loc nd) = order_id (snd nd)"
  by (simp add: node_loc_def)

lemma node_loc_fill [simp]:
  "node_loc (n, ord\<lparr>remaining_quantity := r\<rparr>) = node_loc (n, ord)"
  by (simp add: node_loc_def)

lemma level_with_simps [simp]:
  "orders (level_with lvl nds) = nds"
  "level_price (level_with lvl nds) = level_price lvl"
  "total_quantity (level_with lvl nds) = nodes_quantity nds"
  by (simp_all add: level_with_def)

section \<open>Well-formed sides\<close>

text \<open>Every level is well-formed, filed under its own price, and not empty.\<close>

definition levels_ok :: "Levels \<Rightarrow> bool" where
  "levels_ok ls \<longleftrightarrow> (\<forall>e \<in> set ls. level_entry_ok e \<and> \<not> level_empty (snd e))"

definition side_ok :: "Comparator \<Rightarrow> Levels \<Rightarrow> bool" where
  "side_ok before ls \<longleftrightarrow> sorted_wrt before (map fst ls) \<and> levels_ok ls"

lemma levels_ok_simps [simp]:
  "levels_ok []"
  "levels_ok ((k, lvl) # ls) \<longleftrightarrow>
     level_ok lvl \<and> level_price lvl = k \<and> orders lvl \<noteq> [] \<and> levels_ok ls"
  by (auto simp: levels_ok_def level_entry_ok_def level_empty_def)

lemma levels_ok_entries: "levels_ok ls \<Longrightarrow> \<forall>e \<in> set ls. level_entry_ok e"
  by (simp add: levels_ok_def)

lemma level_ok_nodes: "level_ok lvl \<Longrightarrow> \<forall>nd \<in> set (orders lvl). node_ok (level_price lvl) nd"
  by (simp add: level_ok_def)

lemma levels_ok_node:
  assumes "levels_ok ls" and "nd \<in> set (levels_nodes ls)"
  shows "order_ok (snd nd)" and "0 < node_quantity nd" and "price (snd nd) \<in> fst ` set ls"
    and "0 < price (snd nd)"
proof -
  obtain e where e: "e \<in> set ls" "nd \<in> set (orders (snd e))" "level_ok (snd e)"
    "level_price (snd e) = fst e"
    using assms by (auto simp: in_levels_nodes_iff levels_ok_def level_entry_ok_def)
  then have node: "node_ok (fst e) nd" and pos: "0 < fst e" by (auto simp: level_ok_def)
  show "order_ok (snd nd)" "0 < node_quantity nd" using node by (simp_all add: node_ok_def)
  show "price (snd nd) \<in> fst ` set ls" "0 < price (snd nd)"
    using node pos e(1) by (auto simp: node_ok_def)
qed

section \<open>One level\<close>

lemma take_nodes_removed:
  assumes "take_nodes q t nds = (fs, q', nds')"
  shows "\<exists>pre. node_locs nds = pre @ node_locs nds' \<and> removed_ids fs = fst ` set pre"
  using assms
proof (induction q t nds arbitrary: fs q' nds' rule: take_nodes.induct)
  case (1 q t)
  then show ?case by simp
next
  case (2 q t n ord nds)
  consider "q = 0" | "q \<noteq> 0" "q < remaining_quantity ord" | "q \<noteq> 0" "\<not> q < remaining_quantity ord"
    by blast
  then show ?case
  proof cases
    case 1
    with "2.prems" show ?thesis by auto
  next
    case 2
    with "2.prems" show ?thesis
      by (auto simp: removed_ids_Cons fill_complete_def fill_quantity_def)
  next
    case 3
    then obtain fs' where
      res: "take_nodes (q - remaining_quantity ord) (t - remaining_quantity ord) nds = (fs', q', nds')"
      and fs: "fs = Fill ord q (t - remaining_quantity ord) # fs'"
      using "2.prems"(1) by (auto split: prod.splits)
    obtain pre where pre: "node_locs nds = pre @ node_locs nds'" "removed_ids fs' = fst ` set pre"
      using "2.IH"[OF 3 res] by blast
    show ?thesis
      by (rule exI[of _ "node_loc (n, ord) # pre"])
         (use 3 pre in \<open>auto simp: fs removed_ids_Cons fill_complete_def fill_quantity_def\<close>)
  qed
qed

text \<open>
  The shape of the fills of a queue \<open>ords\<close> with \<open>q\<close>: the makers are the first orders of the queue, in
  order; each fill starts from what the fills before it left of \<open>q\<close>; all but the last are complete.
\<close>

fun priority_fills :: "Quantity \<Rightarrow> Order list \<Rightarrow> Fill list \<Rightarrow> Quantity \<Rightarrow> bool" where
  "priority_fills q ords [] q' \<longleftrightarrow> q' = q"
| "priority_fills q [] (f # fs) q' \<longleftrightarrow> False"
| "priority_fills q (ord # ords) (f # fs) q' \<longleftrightarrow>
     fill_maker f = ord \<and> fill_taker_left f = q \<and> 0 < q \<and>
     (if fill_complete f then priority_fills (q - fill_quantity f) ords fs q'
      else fs = [] \<and> q' = 0)"

lemma fill_complete_iff:
  "fill_complete f \<longleftrightarrow> remaining_quantity (fill_maker f) \<le> fill_taker_left f"
  by (auto simp: fill_complete_def fill_quantity_def)

lemma fill_quantity_complete:
  "remaining_quantity (fill_maker f) \<le> fill_taker_left f \<Longrightarrow>
   fill_quantity f = remaining_quantity (fill_maker f)"
  by (simp add: fill_quantity_def)

lemma take_nodes_priority:
  assumes "take_nodes q t nds = (fs, q', nds')" and "0 \<le> q" and "\<forall>nd \<in> set nds. node_ok p nd"
  shows "priority_fills q (map snd nds) fs q' \<and>
    (nds' = [] \<longrightarrow> length fs = length nds \<and> (\<forall>f \<in> set fs. fill_complete f))"
  using assms
proof (induction q t nds arbitrary: fs q' nds' rule: take_nodes.induct)
  case (1 q t)
  then show ?case by simp
next
  case (2 q t n ord nds)
  consider "q = 0" | "0 < q" "q < remaining_quantity ord" | "0 < q" "remaining_quantity ord \<le> q"
    using "2.prems"(2) by linarith
  then show ?case
  proof cases
    case 1
    with "2.prems" show ?thesis by auto
  next
    case 2
    with "2.prems" show ?thesis by (auto simp: fill_complete_def fill_quantity_def)
  next
    case 3
    then obtain fs' where
      res: "take_nodes (q - remaining_quantity ord) (t - remaining_quantity ord) nds = (fs', q', nds')"
      and fs: "fs = Fill ord q (t - remaining_quantity ord) # fs'"
      using "2.prems"(1) by (auto split: prod.splits)
    have "priority_fills (q - remaining_quantity ord) (map snd nds) fs' q' \<and>
        (nds' = [] \<longrightarrow> length fs' = length nds \<and> (\<forall>f \<in> set fs'. fill_complete f))"
      using "2.IH"[OF _ _ res] 3 "2.prems"(3) by auto
    with 3 show ?thesis by (auto simp: fs fill_complete_def fill_quantity_def)
  qed
qed

lemma priority_fills_append:
  assumes "priority_fills q ords fs q1" and "length fs = length ords"
    and "\<forall>f \<in> set fs. fill_complete f" and "priority_fills q1 ords' fs' q2"
  shows "priority_fills q (ords @ ords') (fs @ fs') q2"
  using assms by (induction q ords fs q1 rule: priority_fills.induct) auto

lemma priority_fills_more: "priority_fills q ords fs q' \<Longrightarrow> priority_fills q (ords @ ords') fs q'"
proof (induction q ords fs q' rule: priority_fills.induct)
  case (1 q ords q')
  then show ?case by (cases "ords @ ords'") auto
qed (auto split: if_splits)

lemma priority_fills_facts:
  assumes "priority_fills q ords fs q'" and "\<forall>ord \<in> set ords. 0 < remaining_quantity ord"
    and "0 \<le> q" and "f \<in> set fs"
  shows "fill_maker f \<in> set ords" and "0 < fill_quantity f" and "fill_taker_left f \<le> q"
proof -
  have "fill_maker f \<in> set ords \<and> 0 < fill_quantity f \<and> fill_taker_left f \<le> q"
    using assms
  proof (induction q ords fs q' rule: priority_fills.induct)
    case (3 q ord ords g fs q')
    show ?case
    proof (cases "f = g")
      case True
      with 3 show ?thesis by (auto simp: fill_quantity_def)
    next
      case False
      with "3.prems" have "fill_complete g" "f \<in> set fs" by (auto split: if_splits)
      with 3 show ?thesis by (auto simp: fill_complete_iff fill_quantity_complete)
    qed
  qed auto
  then show "fill_maker f \<in> set ords" "0 < fill_quantity f" "fill_taker_left f \<le> q" by auto
qed

lemma priority_fills_sum:
  assumes "priority_fills q ords fs q'" shows "sum_list (map fill_quantity fs) = q - q'"
  using assms
  by (induction q ords fs q' rule: priority_fills.induct)
     (auto simp: fill_quantity_def fill_complete_def min_def split: if_splits)


section \<open>A side\<close>

text \<open>The elimination rule of a sweep: the three ways it goes on at a level.\<close>

lemma sweep_Cons_cases:
  assumes "sweep accepts q ((k, lvl) # ls) = (fs, q', ls')"
  obtains (stop) "q = 0 \<or> \<not> accepts k" "fs = []" "q' = q" "ls' = (k, lvl) # ls"
  | (clear) fs1 q1 fs2 where "q \<noteq> 0" "accepts k"
      "take_nodes q (total_quantity lvl) (orders lvl) = (fs1, q1, [])"
      "sweep accepts q1 ls = (fs2, q', ls')" "fs = fs1 @ fs2"
  | (part) nds where "q \<noteq> 0" "accepts k" "nds \<noteq> []"
      "take_nodes q (total_quantity lvl) (orders lvl) = (fs, q', nds)"
      "ls' = (k, level_with lvl nds) # ls"
  using assms by (auto split: if_splits prod.splits)

lemma sweep_removed:
  assumes "sweep accepts q ls = (fs, q', ls')"
  shows "\<exists>pre. node_locs (levels_nodes ls) = pre @ node_locs (levels_nodes ls') \<and>
    removed_ids fs = fst ` set pre"
  using assms
proof (induction ls arbitrary: q fs)
  case Nil
  then show ?case by simp
next
  case (Cons e ls)
  obtain k lvl where e: "e = (k, lvl)" by (cases e)
  from Cons.prems[unfolded e] show ?case
  proof (cases rule: sweep_Cons_cases)
    case stop
    then show ?thesis by (simp add: e)
  next
    case (clear fs1 q1 fs2)
    obtain pre1 where "node_locs (orders lvl) = pre1" "removed_ids fs1 = fst ` set pre1"
      using take_nodes_removed[OF clear(3)] by auto
    moreover obtain pre2 where "node_locs (levels_nodes ls) = pre2 @ node_locs (levels_nodes ls')"
      "removed_ids fs2 = fst ` set pre2"
      using Cons.IH[OF clear(4)] by blast
    ultimately show ?thesis
      by (intro exI[of _ "pre1 @ pre2"]) (simp add: e clear(5) image_Un)
  next
    case (part nds)
    from take_nodes_removed[OF part(4)] obtain pre
      where "node_locs (orders lvl) = pre @ node_locs nds" "removed_ids fs = fst ` set pre" by blast
    then show ?thesis by (intro exI[of _ pre]) (simp add: e part(5))
  qed
qed

lemma sweep_keys:
  assumes "sweep accepts q ls = (fs, q', ls')"
  shows "\<exists>pre. map fst ls = pre @ map fst ls'"
  using assms
proof (induction ls arbitrary: q fs)
  case Nil
  then show ?case by simp
next
  case (Cons e ls)
  obtain k lvl where e: "e = (k, lvl)" by (cases e)
  from Cons.prems[unfolded e] show ?case
  proof (cases rule: sweep_Cons_cases)
    case (clear fs1 q1 fs2)
    then show ?thesis using Cons.IH[OF clear(4)] by (auto simp: e intro: exI[of _ "k # _"])
  qed (simp_all add: e)
qed

lemma sweep_keys_subset:
  assumes "sweep accepts q ls = (fs, q', ls')" shows "fst ` set ls' \<subseteq> fst ` set ls"
  using sweep_keys[OF assms] by (metis Un_upper2 list.set_map set_append)

text \<open>What stays on the swept side is what was there, up to remaining quantities.\<close>

definition refilled :: "OrderNode \<Rightarrow> OrderNode \<Rightarrow> bool" where
  "refilled nd0 nd \<longleftrightarrow>
     fst nd = fst nd0 \<and> snd nd = (snd nd0)\<lparr>remaining_quantity := node_quantity nd\<rparr>"

lemma refilled_refl: "refilled nd nd"
  by (cases "snd nd") (simp add: refilled_def)

lemma refilled_update [simp]: "refilled (n, ord) (n, ord\<lparr>remaining_quantity := r\<rparr>)"
  by (simp add: refilled_def)

lemma take_nodes_from:
  assumes "take_nodes q t nds = (fs, q', nds')" and "nd \<in> set nds'"
  shows "\<exists>nd0 \<in> set nds. refilled nd0 nd"
  using assms
proof (induction q t nds arbitrary: fs q' nds' rule: take_nodes.induct)
  case (1 q t)
  then show ?case by simp
next
  case (2 q t n ord nds)
  consider "q = 0" | "q \<noteq> 0" "q < remaining_quantity ord" | "q \<noteq> 0" "\<not> q < remaining_quantity ord"
    by blast
  then show ?case
  proof cases
    case 1
    with "2.prems" refilled_refl[of nd] show ?thesis by auto
  next
    case 2
    with "2.prems" have "nd = (n, ord\<lparr>remaining_quantity := remaining_quantity ord - q\<rparr>) \<or> nd \<in> set nds"
      by auto
    then show ?thesis using refilled_refl[of nd] by auto
  next
    case 3
    then obtain fs' where
      "take_nodes (q - remaining_quantity ord) (t - remaining_quantity ord) nds = (fs', q', nds')"
      using "2.prems"(1) by (auto split: prod.splits)
    from "2.IH"[OF 3 this "2.prems"(2)] show ?thesis by simp
  qed
qed

lemma sweep_nodes_from:
  assumes "sweep accepts q ls = (fs, q', ls')" and "nd \<in> set (levels_nodes ls')"
  shows "\<exists>nd0 \<in> set (levels_nodes ls). refilled nd0 nd"
  using assms
proof (induction ls arbitrary: q fs)
  case Nil
  then show ?case by simp
next
  case (Cons e ls)
  obtain k lvl where e: "e = (k, lvl)" by (cases e)
  from Cons.prems(1)[unfolded e] show ?case
  proof (cases rule: sweep_Cons_cases)
    case stop
    with Cons.prems(2) refilled_refl[of nd] show ?thesis by (auto simp: e)
  next
    case (clear fs1 q1 fs2)
    from Cons.IH[OF clear(4) Cons.prems(2)] show ?thesis by (auto simp: e bex_Un)
  next
    case (part nds)
    with Cons.prems(2) consider "nd \<in> set nds" | "nd \<in> set (levels_nodes ls)" by auto
    then show ?thesis
      by cases (use take_nodes_from[OF part(4)] refilled_refl[of nd] in \<open>auto simp: e bex_Un\<close>)
  qed
qed

lemma sweep_ok:
  assumes "sweep accepts q ls = (fs, q', ls')" and "levels_ok ls" and "0 \<le> q"
  shows "0 \<le> q' \<and> q' \<le> q \<and> levels_ok ls' \<and>
    levels_quantity ls' = levels_quantity ls - (q - q') \<and>
    fst ` set (levels_nodes ls') \<subseteq> fst ` set (levels_nodes ls)"
  using assms
proof (induction ls arbitrary: q fs)
  case Nil
  then show ?case by simp
next
  case (Cons e ls)
  obtain k lvl where e: "e = (k, lvl)" by (cases e)
  have lvl: "level_ok lvl" "level_price lvl = k" and ls: "levels_ok ls"
    using Cons.prems(2) e by simp_all
  note nodes = level_ok_nodes[OF lvl(1)]
  from Cons.prems(1)[unfolded e] show ?case
  proof (cases rule: sweep_Cons_cases)
    case stop
    then show ?thesis using Cons.prems(2,3) e by simp
  next
    case (clear fs1 q1 fs2)
    have post: "take_nodes_post k q (orders lvl) q1 []"
      using take_nodes_bounds[OF clear(3) Cons.prems(3) nodes] lvl(2) by simp
    then have "0 \<le> q1" by (simp add: take_nodes_post_def)
    from Cons.IH[OF clear(4) ls this] post show ?thesis
      by (auto simp: e take_nodes_post_def)
  next
    case (part nds)
    have post: "take_nodes_post (level_price lvl) q (orders lvl) q' nds"
      by (rule take_nodes_bounds[OF part(4) Cons.prems(3) nodes])
    have "level_ok (level_with lvl nds)"
      by (rule level_with_ok[OF lvl(1) post Cons.prems(3)])
    with post part(3,5) lvl ls show ?thesis
      by (auto simp: e take_nodes_post_def)
  qed
qed


lemma sweep_side_ok:
  assumes "sweep accepts q ls = (fs, q', ls')" and "side_ok before ls" and "0 \<le> q"
  shows "side_ok before ls'"
proof -
  have "levels_ok ls'"
    using sweep_ok[OF assms(1) _ assms(3)] assms(2) by (simp add: side_ok_def)
  moreover have "\<exists>pre. map fst ls = pre @ map fst ls'" by (rule sweep_keys[OF assms(1)])
  ultimately show ?thesis using assms(2) by (auto simp: side_ok_def sorted_wrt_append)
qed

text \<open>
  The orders a sweep may trade with: the accepted prefix of the levels, flattened. The fills follow
  that queue in order, whatever the level boundaries.
\<close>

definition accepted_orders :: "(Price \<Rightarrow> bool) \<Rightarrow> Levels \<Rightarrow> Order list" where
  "accepted_orders accepts ls = map snd (levels_nodes (takeWhile (\<lambda>e. accepts (fst e)) ls))"

lemma sweep_priority:
  assumes "sweep accepts q ls = (fs, q', ls')" and "levels_ok ls" and "0 \<le> q"
  shows "priority_fills q (accepted_orders accepts ls) fs q'"
  using assms
proof (induction ls arbitrary: q fs)
  case Nil
  then show ?case by (simp add: accepted_orders_def)
next
  case (Cons e ls)
  obtain k lvl where e: "e = (k, lvl)" by (cases e)
  have lvl: "level_ok lvl" and ls: "levels_ok ls" using Cons.prems(2) e by simp_all
  note nodes = level_ok_nodes[OF lvl]
  from Cons.prems(1)[unfolded e] show ?case
  proof (cases rule: sweep_Cons_cases)
    case stop
    then show ?thesis by simp
  next
    case (clear fs1 q1 fs2)
    have "0 \<le> q1"
      using take_nodes_bounds[OF clear(3) Cons.prems(3) nodes] by (simp add: take_nodes_post_def)
    note rest = Cons.IH[OF clear(4) ls this]
    have "priority_fills q (map snd (orders lvl)) fs1 q1"
      "length fs1 = length (orders lvl)" "\<forall>f \<in> set fs1. fill_complete f"
      using take_nodes_priority[OF clear(3) Cons.prems(3) nodes] by simp_all
    with rest clear(2,5) show ?thesis
      by (simp add: e accepted_orders_def priority_fills_append)
  next
    case (part nds)
    have "priority_fills q (map snd (orders lvl)) fs q'"
      using take_nodes_priority[OF part(4) Cons.prems(3) nodes] by simp
    with part(2) show ?thesis
      by (simp add: e accepted_orders_def priority_fills_more)
  qed
qed

text \<open>What stops a sweep: nothing left to fill, or no accepted level at the front.\<close>

lemma sweep_exhausts:
  assumes "sweep accepts q ls = (fs, q', ls')" and "levels_ok ls" and "0 \<le> q" and "q' \<noteq> 0"
  shows "ls' = dropWhile (\<lambda>e. accepts (fst e)) ls"
  using assms
proof (induction ls arbitrary: q fs)
  case Nil
  then show ?case by simp
next
  case (Cons e ls)
  obtain k lvl where e: "e = (k, lvl)" by (cases e)
  have lvl: "level_ok lvl" and ls: "levels_ok ls" using Cons.prems(2) e by simp_all
  note nodes = level_ok_nodes[OF lvl]
  from Cons.prems(1)[unfolded e] show ?case
  proof (cases rule: sweep_Cons_cases)
    case stop
    with Cons.prems(4) show ?thesis by (simp add: e)
  next
    case (clear fs1 q1 fs2)
    have "0 \<le> q1"
      using take_nodes_bounds[OF clear(3) Cons.prems(3) nodes] by (simp add: take_nodes_post_def)
    from Cons.IH[OF clear(4) ls this Cons.prems(4)] clear(2) show ?thesis by (simp add: e)
  next
    case (part nds)
    then show ?thesis
      using take_nodes_bounds[OF part(4) Cons.prems(3) nodes] Cons.prems(4)
      by (simp add: take_nodes_post_def)
  qed
qed

lemma accepted_orders_facts:
  assumes "levels_ok ls" and "ord \<in> set (accepted_orders accepts ls)"
  shows "accepts (price ord)" and "ord \<in> snd ` set (levels_nodes ls)"
    and "0 < remaining_quantity ord"
proof -
  obtain nd e where nd: "ord = snd nd" "nd \<in> set (orders (snd e))"
    and e: "e \<in> set (takeWhile (\<lambda>e. accepts (fst e)) ls)"
    using assms(2) by (auto simp: accepted_orders_def in_levels_nodes_iff)
  have "accepts (fst e)" "e \<in> set ls" using set_takeWhileD[OF e] by auto
  with assms(1) nd show "accepts (price ord)" "0 < remaining_quantity ord"
    by (auto simp: levels_ok_def level_entry_ok_def level_ok_def node_ok_def)
  have "nd \<in> set (levels_nodes ls)"
    using nd(2) \<open>e \<in> set ls\<close> by (auto simp: in_levels_nodes_iff)
  then show "ord \<in> snd ` set (levels_nodes ls)" by (simp add: nd(1))
qed

context matching_side
begin

text \<open>After a sweep that leaves something to fill, no level of the side crosses the limit.\<close>

lemma sweep_uncrossed:
  assumes "sweep (crosses x) q ls = (fs, q', ls')" and "side_ok before ls" and "0 \<le> q"
    and "q' \<noteq> 0" and "e \<in> set ls'"
  shows "\<not> crosses x (fst e)"
proof -
  have ls: "sorted_wrt before (map fst ls)" "levels_ok ls"
    using assms(2) by (simp_all add: side_ok_def)
  have "e \<in> set (dropWhile (\<lambda>e. crosses x (fst e)) ls)"
    using sweep_exhausts[OF assms(1) ls(2) assms(3,4)] assms(5) by simp
  with ls(1) show ?thesis
  proof (induction ls)
    case Nil
    then show ?case by simp
  next
    case (Cons a ls)
    show ?case
    proof (cases "crosses x (fst a)")
      case True
      with Cons show ?thesis by simp
    next
      case False
      with Cons.prems have "e = a \<or> before (fst a) (fst e)" by auto
      with False crosses_mono show ?thesis by blast
    qed
  qed
qed

text \<open>On a sorted side the accepted orders are all resting orders at a crossing price.\<close>

lemma accepted_orders_eq:
  assumes "side_ok before ls"
  shows "accepted_orders (crosses x) ls =
    map snd (levels_nodes (filter (\<lambda>e. crosses x (fst e)) ls))"
  using assms by (simp add: accepted_orders_def side_ok_def takeWhile_crosses)

end

text \<open>What a sweep leaves of the quantity is decided by the accepted quantity of the side.\<close>

definition orders_quantity :: "Order list \<Rightarrow> Quantity" where
  "orders_quantity ords = sum_list (map remaining_quantity ords)"

lemma orders_quantity_simps [simp]:
  "orders_quantity [] = 0"
  "orders_quantity (ord # ords) = remaining_quantity ord + orders_quantity ords"
  "orders_quantity (ords @ ords') = orders_quantity ords + orders_quantity ords'"
  "orders_quantity (map snd nds) = nodes_quantity nds"
  by (simp_all add: orders_quantity_def nodes_quantity_def comp_def)

lemma orders_quantity_nonneg:
  "\<forall>ord \<in> set ords. 0 < remaining_quantity ord \<Longrightarrow> 0 \<le> orders_quantity ords"
  unfolding orders_quantity_def by (rule sum_list_map_nonneg) (simp add: order.strict_implies_order)

lemma priority_fills_le:
  assumes "priority_fills q ords fs q'" and "\<forall>ord \<in> set ords. 0 < remaining_quantity ord"
  shows "q - q' \<le> orders_quantity ords"
  using assms
proof (induction q ords fs q' rule: priority_fills.induct)
  case (1 q ords q')
  then show ?case by (simp add: orders_quantity_nonneg)
next
  case (2 q f fs q')
  then show ?case by simp
next
  case (3 q ord ords f fs q')
  have "0 \<le> orders_quantity ords" by (rule orders_quantity_nonneg) (use "3.prems"(2) in simp)
  with 3 show ?case
    by (auto simp: fill_complete_iff fill_quantity_complete split: if_splits)
qed

lemma sweep_left:
  assumes "sweep accepts q ls = (fs, q', ls')" and "levels_ok ls" and "0 \<le> q"
  shows "q' = max 0 (q - orders_quantity (accepted_orders accepts ls))"
proof (cases "q' = 0")
  case True
  have "q \<le> orders_quantity (accepted_orders accepts ls)"
    using priority_fills_le[OF sweep_priority[OF assms]] accepted_orders_facts(3)[OF assms(2)] True
    by auto
  with True show ?thesis by simp
next
  case False
  have "levels_quantity ls' = levels_quantity ls - (q - q')" "0 \<le> q'"
    using sweep_ok[OF assms] by simp_all
  moreover have "levels_nodes ls =
      levels_nodes (takeWhile (\<lambda>e. accepts (fst e)) ls) @ levels_nodes ls'"
    unfolding sweep_exhausts[OF assms False] by (simp flip: levels_nodes_simps(3))
  ultimately show ?thesis using False by (simp add: accepted_orders_def)
qed

section \<open>The depth feed of a sweep\<close>

definition depth :: "Levels \<Rightarrow> Price \<Rightarrow> Quantity" where
  "depth ls p = (case map_of ls p of Some lvl \<Rightarrow> total_quantity lvl | None \<Rightarrow> 0)"

lemma depth_nonneg:
  assumes "levels_ok ls" shows "0 \<le> depth ls p"
proof (cases "map_of ls p")
  case None
  then show ?thesis by (simp add: depth_def)
next
  case (Some lvl)
  then have "(p, lvl) \<in> set ls" by (rule map_of_SomeD)
  with assms have "level_ok lvl" by (auto simp: levels_ok_def level_entry_ok_def)
  with Some show ?thesis by (simp add: depth_def level_ok_nonneg)
qed

definition fill_view :: "(Price \<Rightarrow> Quantity) \<Rightarrow> Fill list \<Rightarrow> Price \<Rightarrow> Quantity" where
  "fill_view v fs = fold (\<lambda>f v. v(price (fill_maker f) := fill_level_total f)) fs v"

lemma fill_view_append: "fill_view v (fs @ fs') = fill_view (fill_view v fs) fs'"
  by (simp add: fill_view_def)

lemma take_nodes_view:
  assumes "take_nodes q t nds = (fs, q', nds')" and "\<forall>nd \<in> set nds. node_ok p nd"
    and "t = nodes_quantity nds" and "v p = t"
  shows "fill_view v fs = v(p := nodes_quantity nds')"
  using assms
proof (induction q t nds arbitrary: fs q' nds' v rule: take_nodes.induct)
  case (1 q t)
  then show ?case by (auto simp: fill_view_def)
next
  case (2 q t n ord nds)
  consider "q = 0" | "q \<noteq> 0" "q < remaining_quantity ord" | "q \<noteq> 0" "\<not> q < remaining_quantity ord"
    by blast
  then show ?case
  proof cases
    case 1
    with "2.prems" show ?thesis by (auto simp: fill_view_def)
  next
    case 2
    with "2.prems" show ?thesis by (auto simp: fill_view_def node_ok_def)
  next
    case 3
    then obtain fs' where
      res: "take_nodes (q - remaining_quantity ord) (t - remaining_quantity ord) nds = (fs', q', nds')"
      and fs: "fs = Fill ord q (t - remaining_quantity ord) # fs'"
      using "2.prems"(1) by (auto split: prod.splits)
    have "fill_view (v(p := t - remaining_quantity ord)) fs' =
        (v(p := t - remaining_quantity ord))(p := nodes_quantity nds')"
      by (rule "2.IH"[OF 3 res]) (use "2.prems" in simp_all)
    moreover have "price ord = p" using "2.prems"(2) by (simp add: node_ok_def)
    ultimately show ?thesis by (simp add: fs fill_view_def)
  qed
qed

lemma sweep_view:
  assumes "sweep accepts q ls = (fs, q', ls')" and "levels_ok ls" and "distinct (map fst ls)"
    and "\<And>p. p \<in> fst ` set ls \<Longrightarrow> v p = depth ls p"
  shows "fill_view v fs = (\<lambda>p. if p \<in> fst ` set ls then depth ls' p else v p)"
  using assms
proof (induction ls arbitrary: q fs v)
  case Nil
  then show ?case by (simp add: fill_view_def)
next
  case (Cons e ls)
  obtain k lvl where e: "e = (k, lvl)" by (cases e)
  have lvl: "level_ok lvl" "level_price lvl = k" and ls: "levels_ok ls"
    and keys: "k \<notin> fst ` set ls" "distinct (map fst ls)"
    using Cons.prems(2,3) e by auto
  have tot: "total_quantity lvl = nodes_quantity (orders lvl)"
    using lvl(1) by (simp add: level_ok_def)
  have vk: "v k = total_quantity lvl"
    using Cons.prems(4)[of k] by (simp add: e depth_def)
  have v_rest: "v p = depth ls p" if "p \<in> fst ` set ls" for p
    using Cons.prems(4)[of p] that keys(1) by (auto simp: e depth_def)
  have nodes: "\<forall>nd \<in> set (orders lvl). node_ok k nd"
    using level_ok_nodes[OF lvl(1)] lvl(2) by simp
  from Cons.prems(1)[unfolded e] show ?case
  proof (cases rule: sweep_Cons_cases)
    case stop
    then show ?thesis using Cons.prems(4) by (auto simp: e fill_view_def fun_eq_iff)
  next
    case (clear fs1 q1 fs2)
    have first: "fill_view v fs1 = v(k := 0)"
      using take_nodes_view[OF clear(3) nodes tot, of v] vk by simp
    have "fill_view (v(k := 0)) fs2 =
        (\<lambda>p. if p \<in> fst ` set ls then depth ls' p else (v(k := 0)) p)"
      by (rule Cons.IH[OF clear(4) ls keys(2)]) (use v_rest keys(1) in auto)
    moreover have "k \<notin> fst ` set ls'"
      using sweep_keys_subset[OF clear(4)] keys(1) by blast
    then have "depth ls' k = 0" by (simp add: depth_def map_of_eq_None_iff[THEN iffD2])
    ultimately show ?thesis
      by (auto simp: e clear(5) fill_view_append first fun_eq_iff)
  next
    case (part nds)
    have "fill_view v fs = v(k := nodes_quantity nds)"
      using take_nodes_view[OF part(4) nodes tot, of v] vk by simp
    with v_rest keys(1) show ?thesis
      by (auto simp: e part(5) depth_def fun_eq_iff)
  qed
qed

end
