(* ===== verification/Book_Invariant.thy ===== *)
theory Book_Invariant
  imports Sweep "HOL-Library.Multiset"
begin

text \<open>
  The well-formedness of a book: both sides are sorted maps of well-formed levels, the id index and
  the list nodes agree, and the sides do not cross. Matching, resting and cancelling keep it.
\<close>

section \<open>The index\<close>

text \<open>
  The index against the list \<open>L\<close> of what the nodes of the book say: ids and node identities are
  unique, the identities are allocated, and the index has exactly the entries of \<open>L\<close>.
\<close>

definition index_ok :: "OrderBook \<Rightarrow> (OrderId \<times> OrderLocation) list \<Rightarrow> bool" where
  "index_ok b L \<longleftrightarrow> distinct (map fst L) \<and> distinct (map (loc_order_it \<circ> snd) L) \<and>
     (\<forall>x \<in> set L. loc_order_it (snd x) < next_node b) \<and> order_look_up b = map_of L"

lemma distinct_map_mset: "mset L = mset L' \<Longrightarrow> distinct (map f L) \<longleftrightarrow> distinct (map f L')"
  by (rule mset_eq_imp_distinct_iff) simp

lemma index_ok_mset:
  assumes "mset L = mset L'"
  shows "index_ok b L \<longleftrightarrow> index_ok b L'"
proof -
  have "set L = set L'" using assms by (rule mset_eq_setD)
  moreover have "map_of L = map_of L'" if "distinct (map fst L)"
    using that assms distinct_map_mset[OF assms, of fst] \<open>set L = set L'\<close>
    by (simp add: map_of_inject_set)
  ultimately show ?thesis
    using distinct_map_mset[OF assms, of fst] distinct_map_mset[OF assms, of "loc_order_it \<circ> snd"]
    by (auto simp: index_ok_def)
qed

lemma index_ok_append_commute: "index_ok b (L @ L') \<longleftrightarrow> index_ok b (L' @ L)"
  by (rule index_ok_mset) simp

lemma index_ok_look_up_None:
  "index_ok b L \<Longrightarrow> order_look_up b oid = None \<longleftrightarrow> oid \<notin> fst ` set L"
  by (simp add: index_ok_def map_of_eq_None_iff)

lemma index_ok_look_up_Some:
  "index_ok b L \<Longrightarrow> order_look_up b oid = Some loc \<longleftrightarrow> (oid, loc) \<in> set L"
  by (simp add: index_ok_def)

lemma index_ok_cong:
  assumes "order_look_up b' = order_look_up b" and "next_node b' = next_node b"
  shows "index_ok b' L \<longleftrightarrow> index_ok b L"
  by (simp add: index_ok_def assms)

lemma map_of_absent: "k \<notin> fst ` set L \<Longrightarrow> map_of L k = None"
  by (simp add: map_of_eq_None_iff)

lemma map_of_drop_prefix:
  assumes "distinct (map fst (pre @ L))"
  shows "map_of (pre @ L) |` (- fst ` set pre) = map_of L"
proof (rule ext)
  fix k
  show "(map_of (pre @ L) |` (- fst ` set pre)) k = map_of L k"
  proof (cases "k \<in> fst ` set pre")
    case True
    with assms have "k \<notin> fst ` set L" by auto
    with True show ?thesis by (simp add: map_of_absent)
  next
    case False
    then show ?thesis by (simp add: map_add_def map_of_absent)
  qed
qed

lemma index_ok_removed:
  assumes "index_ok b (pre @ L)" and "removed_ids fs = fst ` set pre"
  shows "index_ok (apply_fills ord fs b) L"
proof -
  have "distinct (map fst (pre @ L))" and "order_look_up b = map_of (pre @ L)"
    using assms(1) by (simp_all add: index_ok_def)
  then have "order_look_up (apply_fills ord fs b) = map_of L"
    using map_of_drop_prefix[of pre L] assms(2) by simp
  with assms(1) show ?thesis by (simp add: index_ok_def)
qed

lemma index_ok_insert:
  assumes "index_ok b L" and "oid \<notin> fst ` set L" and "loc_order_it loc = next_node b"
    and "order_look_up b' = (order_look_up b)(oid \<mapsto> loc)" and "next_node b' = Suc (next_node b)"
  shows "index_ok b' (L @ [(oid, loc)])"
proof -
  have fresh: "\<forall>x \<in> set L. loc_order_it (snd x) < next_node b"
    using assms(1) by (simp add: index_ok_def)
  then have "next_node b \<notin> (loc_order_it \<circ> snd) ` set L" by auto
  moreover have "map_of (L @ [(oid, loc)]) = (map_of L)(oid \<mapsto> loc)"
    using assms(2) by (auto simp: fun_eq_iff map_add_def map_of_absent split: option.splits)
  ultimately show ?thesis
    using fresh assms by (auto simp: index_ok_def less_Suc_eq)
qed

lemma index_ok_erase:
  assumes "index_ok b (pre @ (oid, loc) # post)"
    and "order_look_up b' = (order_look_up b)(oid := None)" and "next_node b' = next_node b"
  shows "index_ok b' (pre @ post)"
proof -
  have keys: "oid \<notin> fst ` set pre" "oid \<notin> fst ` set post"
    using assms(1) by (auto simp: index_ok_def)
  then have "(map_of (pre @ (oid, loc) # post))(oid := None) = map_of (pre @ post)"
    by (simp add: fun_eq_iff map_add_def map_of_absent split: option.split)
  with assms show ?thesis by (auto simp: index_ok_def)
qed

section \<open>The book invariant\<close>

definition uncrossed :: "Levels \<Rightarrow> Levels \<Rightarrow> bool" where
  "uncrossed bs as \<longleftrightarrow> (\<forall>p \<in> fst ` set bs. \<forall>q \<in> fst ` set as. p < q)"

definition resting_ok :: "bool \<Rightarrow> Order \<Rightarrow> bool" where
  "resting_ok buy ord \<longleftrightarrow>
     (is_buy ord \<longleftrightarrow> buy) \<and> is_limit_order ord \<and> time_in_force ord = GoodTillCancel"

definition book_ok :: "OrderBook \<Rightarrow> bool" where
  "book_ok b \<longleftrightarrow>
     side_ok bid_before (bids b) \<and> side_ok ask_before (asks b) \<and>
     (\<forall>nd \<in> set (levels_nodes (bids b)). resting_ok True (snd nd)) \<and>
     (\<forall>nd \<in> set (levels_nodes (asks b)). resting_ok False (snd nd)) \<and>
     index_ok b (node_locs (book_nodes b)) \<and>
     uncrossed (bids b) (asks b)"

definition ids_below :: "OrderBook \<Rightarrow> bool" where
  "ids_below b \<longleftrightarrow> (\<forall>nd \<in> set (book_nodes b). order_id (snd nd) < next_order_id b)"

lemma new_OrderBook_ok: "book_ok new_OrderBook" "ids_below new_OrderBook"
  by (simp_all add: book_ok_def ids_below_def new_OrderBook_def side_ok_def uncrossed_def
      book_nodes_def index_ok_def)

section \<open>The two sides seen from an incoming order\<close>

definition counter_levels :: "Order \<Rightarrow> OrderBook \<Rightarrow> Levels" where
  "counter_levels ord b = (if is_buy ord then asks b else bids b)"

definition own_levels :: "Order \<Rightarrow> OrderBook \<Rightarrow> Levels" where
  "own_levels ord b = (if is_buy ord then bids b else asks b)"

definition set_counter :: "Order \<Rightarrow> Levels \<Rightarrow> OrderBook \<Rightarrow> OrderBook" where
  "set_counter ord ls b = (if is_buy ord then b\<lparr>asks := ls\<rparr> else b\<lparr>bids := ls\<rparr>)"

definition set_own :: "Order \<Rightarrow> Levels \<Rightarrow> OrderBook \<Rightarrow> OrderBook" where
  "set_own ord ls b = (if is_buy ord then b\<lparr>bids := ls\<rparr> else b\<lparr>asks := ls\<rparr>)"

definition counter_before :: "Order \<Rightarrow> Comparator" where
  "counter_before ord = (if is_buy ord then ask_before else bid_before)"

definition own_before :: "Order \<Rightarrow> Comparator" where
  "own_before ord = (if is_buy ord then bid_before else ask_before)"

definition limit_accepts :: "Order \<Rightarrow> Price \<Rightarrow> bool" where
  "limit_accepts ord p =
     (if is_buy ord then cmp_buy (price ord) p else cmp_sell (price ord) p)"

lemma side_selectors [simp]:
  "counter_levels ord (set_counter ord ls b) = ls"
  "own_levels ord (set_counter ord ls b) = own_levels ord b"
  "own_levels ord (set_own ord ls b) = ls"
  "counter_levels ord (set_own ord ls b) = counter_levels ord b"
  "next_order_id (set_counter ord ls b) = next_order_id b"
  "next_order_id (set_own ord ls b) = next_order_id b"
  "next_node (set_counter ord ls b) = next_node b"
  "next_node (set_own ord ls b) = next_node b"
  "order_look_up (set_counter ord ls b) = order_look_up b"
  "order_look_up (set_own ord ls b) = order_look_up b"
  "trades (set_counter ord ls b) = trades b"
  "trades (set_own ord ls b) = trades b"
  "event_sink (set_counter ord ls b) = event_sink b"
  "event_sink (set_own ord ls b) = event_sink b"
  by (simp_all add: counter_levels_def own_levels_def set_counter_def set_own_def)

lemma side_update [simp]:
  "counter_levels (ord\<lparr>remaining_quantity := r\<rparr>) = counter_levels ord"
  "own_levels (ord\<lparr>remaining_quantity := r\<rparr>) = own_levels ord"
  "set_counter (ord\<lparr>remaining_quantity := r\<rparr>) = set_counter ord"
  "set_own (ord\<lparr>remaining_quantity := r\<rparr>) = set_own ord"
  "limit_accepts (ord\<lparr>remaining_quantity := r\<rparr>) = limit_accepts ord"
  by (simp_all add: fun_eq_iff counter_levels_def own_levels_def set_counter_def set_own_def
      limit_accepts_def)

lemma apply_fills_sides [simp]:
  "counter_levels ord (apply_fills ord' fs b) = counter_levels ord b"
  "own_levels ord (apply_fills ord' fs b) = own_levels ord b"
  by (simp_all add: counter_levels_def own_levels_def)

text \<open>The invariant from the view of either kind of incoming order.\<close>

lemma book_ok_iff:
  "book_ok b \<longleftrightarrow>
     side_ok (own_before ord) (own_levels ord b) \<and>
     side_ok (counter_before ord) (counter_levels ord b) \<and>
     (\<forall>nd \<in> set (levels_nodes (own_levels ord b)). resting_ok (is_buy ord) (snd nd)) \<and>
     (\<forall>nd \<in> set (levels_nodes (counter_levels ord b)). resting_ok (\<not> is_buy ord) (snd nd)) \<and>
     index_ok b (node_locs (levels_nodes (counter_levels ord b)) @
                 node_locs (levels_nodes (own_levels ord b))) \<and>
     (\<forall>p \<in> fst ` set (own_levels ord b). \<forall>q \<in> fst ` set (counter_levels ord b).
        if is_buy ord then p < q else q < p)"
proof (cases "is_buy ord")
  case True
  then show ?thesis
    by (simp add: book_ok_def own_before_def counter_before_def own_levels_def counter_levels_def
        book_nodes_def uncrossed_def index_ok_append_commute conj_ac)
next
  case False
  then show ?thesis
    by (auto simp: book_ok_def own_before_def counter_before_def own_levels_def counter_levels_def
        book_nodes_def uncrossed_def)
qed

lemma book_nodes_set:
  "set (book_nodes b) = set (levels_nodes (own_levels ord b)) \<union> set (levels_nodes (counter_levels ord b))"
  by (auto simp: book_nodes_def own_levels_def counter_levels_def)


section \<open>Matching\<close>

text \<open>The effect of a sweep on the whole book.\<close>

definition sweep_book ::
  "(Price \<Rightarrow> bool) \<Rightarrow> Order \<Rightarrow> OrderBook \<Rightarrow> Fill list \<times> Quantity \<times> OrderBook"
where
  "sweep_book accepts ord b =
     (case sweep accepts (remaining_quantity ord) (counter_levels ord b) of
        (fs, q', ls') \<Rightarrow> (fs, q', set_counter ord ls' (apply_fills ord fs b)))"

lemma sweep_bookE:
  assumes "sweep_book accepts ord b = (fs, q', b')"
  obtains ls' where "sweep accepts (remaining_quantity ord) (counter_levels ord b) = (fs, q', ls')"
    and "b' = set_counter ord ls' (apply_fills ord fs b)"
  using assms by (auto simp: sweep_book_def split: prod.splits)

lemma book_ok_counter: "book_ok b \<Longrightarrow> side_ok (counter_before ord) (counter_levels ord b)"
  by (simp add: book_ok_iff[of b ord])

lemma book_ok_own: "book_ok b \<Longrightarrow> side_ok (own_before ord) (own_levels ord b)"
  by (simp add: book_ok_iff[of b ord])

lemma book_ok_levels:
  assumes "book_ok b"
  shows "levels_ok (counter_levels ord b)" and "levels_ok (own_levels ord b)"
  using book_ok_counter[OF assms] book_ok_own[OF assms] by (simp_all add: side_ok_def)

lemma match_order_eq:
  assumes b: "book_ok b" and ord: "order_ok ord"
    and sweep: "sweep_book (limit_accepts ord) ord b = (fs, q', b')"
  shows "match_order ord b =
    Inr (remaining_quantity ord - q', ord\<lparr>remaining_quantity := q'\<rparr>, b')"
proof -
  obtain ls' where
    sw: "sweep (limit_accepts ord) (remaining_quantity ord) (counter_levels ord b) = (fs, q', ls')"
    and b': "b' = set_counter ord ls' (apply_fills ord fs b)"
    by (rule sweep_bookE[OF sweep])
  define cmp where "cmp = (if is_buy ord then cmp_buy else cmp_sell)"
  have acc: "limit_accepts ord = cmp (price ord)"
    by (simp add: limit_accepts_def cmp_def fun_eq_iff)
  have range: "in_i64 (0 + remaining_quantity ord)"
    using order_ok_in_i64[OF ord] by simp
  have loop: "match_limit_order_against_side ord (counter_levels ord b) cmp b =
      Inr (remaining_quantity ord - q', ord\<lparr>remaining_quantity := q'\<rparr>, ls', apply_fills ord fs b)"
  proof (cases "counter_levels ord b = []")
    case True
    with sw show ?thesis by (auto simp: match_limit_order_against_side_def)
  next
    case False
    then show ?thesis
      using match_levels_loop_eq[where cmp = cmp and p = "price ord" and ex = 0,
          OF levels_ok_entries[OF book_ok_levels(1)[OF b]] ord _ range sw[unfolded acc]]
      by (simp add: match_limit_order_against_side_def)
  qed
  show ?thesis
    using loop
    by (auto simp: match_order_def match_buy_def match_sell_def counter_levels_def cmp_def b'
        set_counter_def)
qed

lemma add_market_order_eq:
  assumes b: "book_ok b" and ord: "order_ok ord"
    and sweep: "sweep_book cmp_any' ord b = (fs, q', b')" and any: "cmp_any' = (\<lambda>_. True)"
  shows "add_market_order ord b =
    Inr (from_match_filled (order_type ord) (remaining_quantity ord - q') q', b')"
proof -
  obtain ls' where
    sw: "sweep cmp_any' (remaining_quantity ord) (counter_levels ord b) = (fs, q', ls')"
    and b': "b' = set_counter ord ls' (apply_fills ord fs b)"
    by (rule sweep_bookE[OF sweep])
  have range: "in_i64 (0 + remaining_quantity ord)"
    using order_ok_in_i64[OF ord] by simp
  have loop: "match_market_order_against_side (counter_levels ord b) ord b =
      Inr (remaining_quantity ord - q', ord\<lparr>remaining_quantity := q'\<rparr>, ls', apply_fills ord fs b)"
  proof (cases "counter_levels ord b = []")
    case True
    with sw show ?thesis by (auto simp: match_market_order_against_side_def)
  next
    case False
    then show ?thesis
      using match_levels_loop_eq[where cmp = cmp_any and p = "price ord" and ex = 0,
          OF levels_ok_entries[OF book_ok_levels(1)[OF b]] ord _ range, of ord] sw any
      by (simp add: match_market_order_against_side_def)
  qed
  show ?thesis
    using loop by (auto simp: add_market_order_def counter_levels_def b' set_counter_def)
qed

lemma sweep_book_bounds:
  assumes "sweep_book accepts ord b = (fs, q', b')" and "book_ok b" and "order_ok ord"
  shows "0 \<le> q'" and "q' \<le> remaining_quantity ord"
proof -
  obtain ls' where
    "sweep accepts (remaining_quantity ord) (counter_levels ord b) = (fs, q', ls')"
    by (rule sweep_bookE[OF assms(1)])
  from sweep_ok[OF this book_ok_levels(1)[OF assms(2)] order_ok_nonneg[OF assms(3)]]
  show "0 \<le> q'" "q' \<le> remaining_quantity ord" by simp_all
qed

lemma resting_ok_update [simp]:
  "resting_ok buy (ord\<lparr>remaining_quantity := r\<rparr>) \<longleftrightarrow> resting_ok buy ord"
  by (simp add: resting_ok_def is_limit_order_def)

lemma resting_ok_refilled: "refilled nd0 nd \<Longrightarrow> resting_ok buy (snd nd) \<longleftrightarrow> resting_ok buy (snd nd0)"
  unfolding refilled_def by (metis resting_ok_update)

lemma refilled_order_id: "refilled nd0 nd \<Longrightarrow> order_id (snd nd) = order_id (snd nd0)"
  unfolding refilled_def by (metis Order.select_convs(3) Order.surjective Order.update_convs(6))

lemma sweep_book_ok:
  assumes sweep: "sweep_book accepts ord b = (fs, q', b')" and b: "book_ok b" and ord: "order_ok ord"
  shows "book_ok b'"
proof -
  obtain ls' where
    sw: "sweep accepts (remaining_quantity ord) (counter_levels ord b) = (fs, q', ls')"
    and b': "b' = set_counter ord ls' (apply_fills ord fs b)"
    by (rule sweep_bookE[OF sweep])
  note nonneg = order_ok_nonneg[OF ord]
  note parts = b[unfolded book_ok_iff[of b ord]]
  obtain pre where pre:
    "node_locs (levels_nodes (counter_levels ord b)) = pre @ node_locs (levels_nodes ls')"
    "removed_ids fs = fst ` set pre"
    using sweep_removed[OF sw] by blast
  have "index_ok (apply_fills ord fs b)
      (node_locs (levels_nodes ls') @ node_locs (levels_nodes (own_levels ord b)))"
    by (rule index_ok_removed[OF _ pre(2)]) (use parts pre(1) in simp)
  then have index: "index_ok b'
      (node_locs (levels_nodes ls') @ node_locs (levels_nodes (own_levels ord b)))"
    unfolding b' by (subst index_ok_cong[of _ "apply_fills ord fs b"]) simp_all
  have keys: "fst ` set ls' \<subseteq> fst ` set (counter_levels ord b)"
    by (rule sweep_keys_subset[OF sw])
  have resting: "resting_ok (\<not> is_buy ord) (snd nd)" if nd: "nd \<in> set (levels_nodes ls')" for nd
  proof -
    obtain nd0 where "nd0 \<in> set (levels_nodes (counter_levels ord b))" "refilled nd0 nd"
      using sweep_nodes_from[OF sw nd] by blast
    with parts show ?thesis by (simp add: resting_ok_refilled)
  qed
  have apart: "\<forall>p \<in> fst ` set (own_levels ord b). \<forall>q \<in> fst ` set ls'.
      if is_buy ord then p < q else q < p"
    using parts keys by blast
  have "side_ok (counter_before ord) ls'"
    by (rule sweep_side_ok[OF sw _ nonneg]) (use parts in blast)
  with parts index resting apart show ?thesis
    unfolding book_ok_iff[of b' ord] by (simp add: b')
qed

lemma sweep_book_ids_below:
  assumes sweep: "sweep_book accepts ord b = (fs, q', b')" and "ids_below b"
  shows "ids_below b'"
proof -
  obtain ls' where
    sw: "sweep accepts (remaining_quantity ord) (counter_levels ord b) = (fs, q', ls')"
    and b': "b' = set_counter ord ls' (apply_fills ord fs b)"
    by (rule sweep_bookE[OF sweep])
  have "order_id (snd nd) < next_order_id b" if nd: "nd \<in> set (levels_nodes ls')" for nd
  proof -
    obtain nd0 where "nd0 \<in> set (levels_nodes (counter_levels ord b))" "refilled nd0 nd"
      using sweep_nodes_from[OF sw nd] by blast
    with assms(2) show ?thesis
      by (auto simp: ids_below_def book_nodes_set[of b ord] refilled_order_id)
  qed
  with assms(2) show ?thesis
    by (auto simp: ids_below_def book_nodes_set[of _ ord] b')
qed

text \<open>A limit order that matching leaves unfilled no longer crosses the other side.\<close>

lemma sweep_book_uncrossed:
  assumes sweep: "sweep_book (limit_accepts ord) ord b = (fs, q', b')" and b: "book_ok b"
    and ord: "order_ok ord" and "q' \<noteq> 0" and "e \<in> set (counter_levels ord b')"
  shows "\<not> limit_accepts ord (fst e)"
proof -
  obtain ls' where
    sw: "sweep (limit_accepts ord) (remaining_quantity ord) (counter_levels ord b) = (fs, q', ls')"
    and b': "b' = set_counter ord ls' (apply_fills ord fs b)"
    by (rule sweep_bookE[OF sweep])
  have e: "e \<in> set ls'" using assms(5) by (simp add: b')
  note nonneg = order_ok_nonneg[OF ord] and side = book_ok_counter[OF b, of ord]
  show ?thesis
  proof (cases "is_buy ord")
    case True
    then have "limit_accepts ord = cmp_buy (price ord)" "counter_before ord = ask_before"
      by (simp_all add: limit_accepts_def counter_before_def fun_eq_iff)
    with ask_side.sweep_uncrossed[of "price ord"] sw side nonneg assms(4) e show ?thesis by metis
  next
    case False
    then have "limit_accepts ord = cmp_sell (price ord)" "counter_before ord = bid_before"
      by (simp_all add: limit_accepts_def counter_before_def fun_eq_iff)
    with bid_side.sweep_uncrossed[of "price ord"] sw side nonneg assms(4) e show ?thesis by metis
  qed
qed

end
