(* ===== verification/Book_Updates.thy ===== *)
theory Book_Updates
  imports Book_Invariant
begin

text \<open>
  Resting and cancelling one order: the exact effect on the side, on the index and on the feed, and
  that the book invariant is kept.
\<close>

section \<open>Resting on a side\<close>

definition level_queue :: "Levels \<Rightarrow> Price \<Rightarrow> OrderNode list" where
  "level_queue ls p = (case map_of ls p of Some lvl \<Rightarrow> orders lvl | None \<Rightarrow> [])"

definition rest_effect :: "Order \<Rightarrow> Quantity \<Rightarrow> OrderBook \<Rightarrow> OrderBook" where
  "rest_effect ord t b =
     b\<lparr>next_node := Suc (next_node b),
       order_look_up := (order_look_up b)(order_id ord \<mapsto>
         \<lparr>loc_side = side ord, loc_price = price ord, loc_order_it = next_node b\<rparr>),
       event_sink := event_sink b @ [Public (BookUpdate (side ord) (price ord) t)]\<rparr>"

lemma levels_ok_append [simp]: "levels_ok (a @ c) \<longleftrightarrow> levels_ok a \<and> levels_ok c"
  by (auto simp: levels_ok_def)

lemma map_of_mid:
  assumes "p \<notin> fst ` set a" and "p \<notin> fst ` set c"
  shows "map_of (a @ (p, v) # c) = (map_of (a @ c))(p \<mapsto> v)"
  using assms by (auto simp: fun_eq_iff map_add_def map_of_absent split: option.split)

lemma map_of_without: "\<lbrakk> p \<notin> fst ` set a; p \<notin> fst ` set c \<rbrakk> \<Longrightarrow> map_of (a @ c) p = None"
  by (simp add: map_of_eq_None_iff)

context level_order
begin

text \<open>A key splits a sorted side, whether it is in it or has just been inserted with an empty level.\<close>

lemma try_emplace_split:
  assumes "side_ok before ls" and "0 < p"
  obtains a lvl c where "levels_try_emplace before p ls = Inr (a @ (p, lvl) # c, lvl)"
    and "p \<notin> fst ` set a" and "p \<notin> fst ` set c"
    and "level_ok lvl" and "level_price lvl = p"
    and "sorted_wrt before (map fst (a @ (p, lvl) # c))" and "levels_ok a" and "levels_ok c"
    and "ls = a @ (p, lvl) # c \<or> (ls = a @ c \<and> orders lvl = [])"
proof (cases "map_of ls p")
  case (Some lvl)
  have dist: "distinct (map fst ls)" using assms(1) by (simp add: side_ok_def keys_distinct)
  obtain a c where ls: "ls = a @ (p, lvl) # c" "p \<notin> fst ` set a" "p \<notin> fst ` set c"
    by (rule levels_split[OF dist Some])
  with assms(1) Some show ?thesis
    by (intro that[of a lvl c]) (auto simp: levels_try_emplace_def side_ok_def)
next
  case None
  then have notin: "p \<notin> fst ` set ls" by (simp add: map_of_eq_None_iff)
  define lvl where "lvl = \<lparr>level_price = p, total_quantity = 0, orders = []\<rparr>"
  have new: "new_PriceLevel p = Inr lvl" using assms(2) by (simp add: new_PriceLevel_def lvl_def)
  obtain a c where ls: "ls = a @ c" "levels_insert before p lvl ls = a @ (p, lvl) # c"
    by (rule insert_new_split[OF notin])
  have emplace: "levels_try_emplace before p ls = Inr (a @ (p, lvl) # c, lvl)"
    using None new ls(2) by (simp add: levels_try_emplace_def)
  have "sorted_wrt before (map fst (levels_insert before p lvl ls))"
    by (rule sorted_insert_new[OF _ notin]) (use assms(1) in \<open>simp add: side_ok_def\<close>)
  with assms(1) notin ls new_PriceLevel_ok[OF new] show ?thesis
    by (intro that[of a lvl c, OF emplace]) (auto simp: side_ok_def lvl_def)
qed

lemma add_order_to_side_eq:
  assumes "side_ok before ls" and "order_ok ord" and "0 < remaining_quantity ord" and "0 < price ord"
    and "next_node b \<notin> fst ` set (levels_nodes ls)"
    and "in_i64 (depth ls (price ord) + remaining_quantity ord)"
    and "order_look_up b (order_id ord) = None"
  obtains ls' where
    "add_order_to_side before ls ord b =
       Inr (True, ls', rest_effect ord (depth ls (price ord) + remaining_quantity ord) b)"
    and "side_ok before ls'"
    and "\<exists>x y. levels_nodes ls = x @ y \<and> levels_nodes ls' = x @ (next_node b, ord) # y"
    and "fst ` set ls' = insert (price ord) (fst ` set ls)"
    and "depth ls' = (depth ls)(price ord := depth ls (price ord) + remaining_quantity ord)"
    and "level_queue ls' =
      (level_queue ls)(price ord := level_queue ls (price ord) @ [(next_node b, ord)])"
proof -
  let ?p = "price ord" and ?n = "next_node b"
  obtain a lvl c where emplace: "levels_try_emplace before ?p ls = Inr (a @ (?p, lvl) # c, lvl)"
    and keys: "?p \<notin> fst ` set a" "?p \<notin> fst ` set c"
    and lvl: "level_ok lvl" "level_price lvl = ?p"
    and sorted: "sorted_wrt before (map fst (a @ (?p, lvl) # c))"
    and ok: "levels_ok a" "levels_ok c"
    and ls: "ls = a @ (?p, lvl) # c \<or> (ls = a @ c \<and> orders lvl = [])"
    by (rule try_emplace_split[OF assms(1,4)])
  have mid: "map_of (a @ (?p, l) # c) = (map_of (a @ c))(?p \<mapsto> l)" for l
    by (rule map_of_mid[OF keys])
  have none: "map_of (a @ c) ?p = None" by (rule map_of_without[OF keys])
  have nodes: "levels_nodes ls = levels_nodes a @ orders lvl @ levels_nodes c"
    and dep: "depth ls ?p = total_quantity lvl" and queue: "level_queue ls ?p = orders lvl"
    using ls none level_ok_empty_total[OF lvl(1)]
    by (auto simp: depth_def level_queue_def mid level_empty_def simp del: map_of_append)
  define lvl' where "lvl' = lvl\<lparr>total_quantity := total_quantity lvl + remaining_quantity ord,
    orders := orders lvl @ [(?n, ord)]\<rparr>"
  have fresh: "?n \<notin> fst ` set (orders lvl)" using assms(5) nodes by auto
  have add: "level_add_order lvl ?n ord = Inr lvl'" and lvl'_ok: "level_ok lvl'"
    using level_add_order_eq[OF lvl(1) assms(2) _ assms(3) fresh] lvl(2) assms(6) dep
    by (simp_all add: lvl'_def)
  let ?ls' = "a @ (?p, lvl') # c"
  show ?thesis
  proof (rule that[of ?ls'])
    show "add_order_to_side before ls ord b =
        Inr (True, ?ls', rest_effect ord (depth ls ?p + remaining_quantity ord) b)"
      using assms(3,7) emplace add levels_put_split[OF keys, of lvl' lvl]
      by (simp add: add_order_to_side_def is_filled_def rest_effect_def add_public_event_def dep
          lvl'_def)
    show "side_ok before ?ls'"
      using sorted ok lvl'_ok lvl(2) by (simp add: side_ok_def lvl'_def)
    show "\<exists>x y. levels_nodes ls = x @ y \<and> levels_nodes ?ls' = x @ (?n, ord) # y"
      by (intro exI[of _ "levels_nodes a @ orders lvl"] exI[of _ "levels_nodes c"])
         (simp add: nodes lvl'_def)
    show "fst ` set ?ls' = insert ?p (fst ` set ls)" using ls by auto
    show "depth ?ls' = (depth ls)(?p := depth ls ?p + remaining_quantity ord)"
      using ls unfolding dep by (auto simp: fun_eq_iff depth_def mid lvl'_def simp del: map_of_append)
    show "level_queue ?ls' = (level_queue ls)(?p := level_queue ls ?p @ [(?n, ord)])"
      using ls unfolding queue
      by (auto simp: fun_eq_iff level_queue_def mid lvl'_def simp del: map_of_append)
  qed
qed

text \<open>Unlinking a node of a level, with the removal of the level when it was the last one.\<close>

lemma cancel_order_side_eq:
  assumes "side_ok before ls" and "map_of ls (loc_price loc) = Some lvl"
    and "(loc_order_it loc, ord) \<in> set (orders lvl)"
  obtains ls' where
    "cancel_order_side ls loc b =
       Inr (True, ls', add_public_event
         (BookUpdate (loc_side loc) (loc_price loc)
            (depth ls (loc_price loc) - remaining_quantity ord)) b)"
    and "side_ok before ls'"
    and "\<exists>x y. levels_nodes ls = x @ (loc_order_it loc, ord) # y \<and> levels_nodes ls' = x @ y"
    and "fst ` set ls' \<subseteq> fst ` set ls"
    and "depth ls' = (depth ls)(loc_price loc := depth ls (loc_price loc) - remaining_quantity ord)"
proof -
  let ?p = "loc_price loc" and ?n = "loc_order_it loc"
  have dist: "distinct (map fst ls)" using assms(1) by (simp add: side_ok_def keys_distinct)
  obtain a c where ls: "ls = a @ (?p, lvl) # c"
    and keys: "?p \<notin> fst ` set a" "?p \<notin> fst ` set c"
    by (rule levels_split[OF dist assms(2)])
  have lvl: "level_ok lvl" "level_price lvl = ?p" and ok: "levels_ok a" "levels_ok c"
    and sorted: "sorted_wrt before (map fst ls)"
    using assms(1) ls by (auto simp: side_ok_def)
  have mid: "map_of (a @ (?p, l) # c) = (map_of (a @ c))(?p \<mapsto> l)" for l
    by (rule map_of_mid[OF keys])
  have none: "map_of (a @ c) ?p = None" by (rule map_of_without[OF keys])
  obtain x y where xy: "orders lvl = x @ (?n, ord) # y"
    using assms(3) by (meson split_list)
  have "distinct (map fst (orders lvl))" using lvl(1) by (simp add: level_ok_def)
  then have "?n \<notin> fst ` set x" "?n \<notin> fst ` set y" using xy by auto
  then have filt: "filter (\<lambda>nd. fst nd \<noteq> ?n) (orders lvl) = x @ y"
    unfolding xy by (rule filter_key_split)
  define lvl' where "lvl' = lvl\<lparr>total_quantity := total_quantity lvl - remaining_quantity ord,
    orders := x @ y\<rparr>"
  have erase: "erase_order lvl ?n = Inr lvl'" and lvl'_ok: "level_ok lvl'"
    using erase_order_eq[OF lvl(1) assms(3)] by (simp_all add: filt lvl'_def)
  have dep: "depth ls ?p = total_quantity lvl" using assms(2) by (simp add: depth_def)
  define ls' where "ls' = (if x @ y = [] then a @ c else a @ (?p, lvl') # c)"
  have empty: "level_empty lvl' \<longleftrightarrow> x @ y = []" by (simp add: level_empty_def lvl'_def)
  have tot: "total_quantity lvl' = depth ls ?p - remaining_quantity ord"
    by (simp add: dep lvl'_def)
  have qty: "(if level_empty lvl' then 0 else total_quantity lvl') = depth ls ?p - remaining_quantity ord"
    using level_ok_empty_total[OF lvl'_ok] tot by auto
  show ?thesis
  proof (rule that[of ls'])
    show "cancel_order_side ls loc b =
        Inr (True, ls', add_public_event
          (BookUpdate (loc_side loc) ?p (depth ls ?p - remaining_quantity ord)) b)"
      using assms(2) erase levels_put_split[OF keys, of lvl' lvl] levels_erase_split[OF keys, of lvl]
      by (simp add: cancel_order_side_def Let_def qty) (simp add: empty ls'_def ls)
    show "side_ok before ls'"
      using sorted ok lvl'_ok lvl(2)
      by (auto simp: side_ok_def ls'_def lvl'_def ls sorted_wrt_append)
    show "\<exists>x y. levels_nodes ls = x @ (?n, ord) # y \<and> levels_nodes ls' = x @ y"
      by (intro exI[of _ "levels_nodes a @ x"] exI[of _ "y @ levels_nodes c"])
         (simp add: ls xy ls'_def lvl'_def)
    show "fst ` set ls' \<subseteq> fst ` set ls" by (auto simp: ls ls'_def)
    show "depth ls' = (depth ls)(?p := depth ls ?p - remaining_quantity ord)"
    proof (cases "x @ y = []")
      case True
      then have "depth ls ?p - remaining_quantity ord = 0"
        using level_ok_empty_total[OF lvl'_ok] tot empty by simp
      with True none show ?thesis
        by (auto simp: fun_eq_iff depth_def ls'_def ls mid simp del: map_of_append)
    next
      case False
      with tot show ?thesis
        by (auto simp: fun_eq_iff depth_def ls'_def ls mid simp del: map_of_append)
    qed
  qed
qed

end

end
