(* ===== verification/Book_Operations.thy ===== *)
theory Book_Operations
  imports Book_Updates
begin

text \<open>
  The operations of the whole book on a well-formed state: resting, looking up and cancelling an
  order, the fill-or-kill check, and the insertion of an order. Each is shown to end without an
  exception and to compute the result of the reference sweep.
\<close>

section \<open>Resting an order in the book\<close>

definition fits_level :: "Order \<Rightarrow> OrderBook \<Rightarrow> bool" where
  "fits_level ord b \<longleftrightarrow>
     in_i64 (depth (own_levels ord b) (price ord) + remaining_quantity ord)"

lemma book_ok_node_fresh:
  assumes "book_ok b" shows "next_node b \<notin> fst ` set (book_nodes b)"
proof -
  have "\<forall>x \<in> set (node_locs (book_nodes b)). loc_order_it (snd x) < next_node b"
    using assms by (simp add: book_ok_def index_ok_def)
  then show ?thesis by (fastforce simp: node_loc_def)
qed

lemma book_ok_index: "book_ok b \<Longrightarrow> index_ok b (node_locs (book_nodes b))"
  by (simp add: book_ok_def)

lemma own_before_cases:
  "is_buy ord \<Longrightarrow> own_before ord = bid_before" "\<not> is_buy ord \<Longrightarrow> own_before ord = ask_before"
  by (simp_all add: own_before_def)

lemma rest_order_own:
  "rest_order ord b =
     rbind (add_order_to_side (own_before ord) (own_levels ord b) ord b)
       (\<lambda>(ok, ls, b'). Inr (ok, set_own ord ls b'))"
  by (simp add: rest_order_def own_before_def own_levels_def set_own_def)

lemma rest_order_filled: "is_filled ord \<Longrightarrow> rest_order ord b = Inr (True, b)"
  by (simp add: rest_order_own add_order_to_side_def) (simp add: own_levels_def set_own_def)

lemma rest_effect_selectors [simp]:
  "own_levels ord' (rest_effect ord t b) = own_levels ord' b"
  "counter_levels ord' (rest_effect ord t b) = counter_levels ord' b"
  "next_order_id (rest_effect ord t b) = next_order_id b"
  "next_node (rest_effect ord t b) = Suc (next_node b)"
  "trades (rest_effect ord t b) = trades b"
  "event_sink (rest_effect ord t b) =
     event_sink b @ [Public (BookUpdate (side ord) (price ord) t)]"
  "order_look_up (rest_effect ord t b) = (order_look_up b)(order_id ord \<mapsto>
     \<lparr>loc_side = side ord, loc_price = price ord, loc_order_it = next_node b\<rparr>)"
  by (simp_all add: rest_effect_def own_levels_def counter_levels_def)

text \<open>
  What resting does, as a relation between the books: the order becomes the last of its level on its
  own side, and nothing else of the book changes but the index, the depth at its price and the event.
\<close>

definition rested :: "Order \<Rightarrow> OrderBook \<Rightarrow> OrderBook \<Rightarrow> bool" where
  "rested ord b b' \<longleftrightarrow>
     (\<exists>ls'. b' = set_own ord ls'
          (rest_effect ord (depth (own_levels ord b) (price ord) + remaining_quantity ord) b)) \<and>
     level_queue (own_levels ord b') =
       (level_queue (own_levels ord b))
         (price ord := level_queue (own_levels ord b) (price ord) @ [(next_node b, ord)]) \<and>
     depth (own_levels ord b') = (depth (own_levels ord b))
         (price ord := depth (own_levels ord b) (price ord) + remaining_quantity ord) \<and>
     mset (book_nodes b') = add_mset (next_node b, ord) (mset (book_nodes b))"

lemma book_nodes_own:
  "mset (book_nodes b) =
     mset (levels_nodes (counter_levels ord b)) + mset (levels_nodes (own_levels ord b))"
  by (simp add: book_nodes_def counter_levels_def own_levels_def)

text \<open>Resting on the order's own side, whichever it is.\<close>

lemma rest_own_side:
  assumes b: "book_ok b" and ord: "order_ok ord" "0 < remaining_quantity ord" "0 < price ord"
    and new: "order_look_up b (order_id ord) = None" and fits: "fits_level ord b"
  defines "t \<equiv> depth (own_levels ord b) (price ord) + remaining_quantity ord"
  obtains ls' where "add_order_to_side (own_before ord) (own_levels ord b) ord b =
        Inr (True, ls', rest_effect ord t b)"
    and "side_ok (own_before ord) ls'"
    and "\<exists>x y. levels_nodes (own_levels ord b) = x @ y \<and> levels_nodes ls' = x @ (next_node b, ord) # y"
    and "fst ` set ls' = insert (price ord) (fst ` set (own_levels ord b))"
    and "depth ls' = (depth (own_levels ord b))(price ord := t)"
    and "level_queue ls' = (level_queue (own_levels ord b))
      (price ord := level_queue (own_levels ord b) (price ord) @ [(next_node b, ord)])"
proof -
  have node: "next_node b \<notin> fst ` set (levels_nodes (own_levels ord b))"
    using book_ok_node_fresh[OF b] by (auto simp: book_nodes_set[of b ord])
  show ?thesis
  proof (cases "is_buy ord")
    case True
    show ?thesis
      by (rule bid_side.add_order_to_side_eq[OF _ ord node _ new])
         (use that True book_ok_own[OF b, of ord] fits in \<open>simp_all add: t_def own_before_cases fits_level_def\<close>)
  next
    case False
    show ?thesis
      by (rule ask_side.add_order_to_side_eq[OF _ ord node _ new])
         (use that False book_ok_own[OF b, of ord] fits in \<open>simp_all add: t_def own_before_cases fits_level_def\<close>)
  qed
qed

lemma rest_order_ok:
  assumes b: "book_ok b" and ord: "order_ok ord" "0 < remaining_quantity ord" "0 < price ord"
    and kind: "resting_ok (is_buy ord) ord" and new: "order_look_up b (order_id ord) = None"
    and apart: "\<forall>e \<in> set (counter_levels ord b). \<not> limit_accepts ord (fst e)"
    and fits: "fits_level ord b"
  obtains b' where "rest_order ord b = Inr (True, b')" and "book_ok b'" and "rested ord b b'"
proof -
  let ?ls = "own_levels ord b" and ?cs = "counter_levels ord b" and ?n = "next_node b"
  let ?t = "depth ?ls (price ord) + remaining_quantity ord"
  obtain ls' where add: "add_order_to_side (own_before ord) ?ls ord b =
        Inr (True, ls', rest_effect ord ?t b)"
    and side: "side_ok (own_before ord) ls'"
    and nodes: "\<exists>x y. levels_nodes ?ls = x @ y \<and> levels_nodes ls' = x @ (?n, ord) # y"
    and keys: "fst ` set ls' = insert (price ord) (fst ` set ?ls)"
    and dep: "depth ls' = (depth ?ls)(price ord := ?t)"
    and queue: "level_queue ls' =
      (level_queue ?ls)(price ord := level_queue ?ls (price ord) @ [(?n, ord)])"
    by (rule rest_own_side[OF b ord new fits])
  define b' where "b' = set_own ord ls' (rest_effect ord ?t b)"
  have res: "rest_order ord b = Inr (True, b')"
    by (simp add: rest_order_own add b'_def)
  obtain x y where xy: "levels_nodes ?ls = x @ y" "levels_nodes ls' = x @ (?n, ord) # y"
    using nodes by blast
  note parts = b[unfolded book_ok_iff[of b ord]]
  have index: "index_ok b' (node_locs (levels_nodes ?cs) @ node_locs (levels_nodes ls'))"
  proof -
    let ?L = "node_locs (levels_nodes ?cs) @ node_locs (levels_nodes ?ls)"
    have old: "index_ok b ?L" using parts by blast
    then have notin: "order_id ord \<notin> fst ` set ?L"
      using new index_ok_look_up_None[OF old] by blast
    have loc: "node_loc (?n, ord) = (order_id ord,
        \<lparr>loc_side = side ord, loc_price = price ord, loc_order_it = ?n\<rparr>)" (is "_ = (_, ?loc)")
      by (simp add: node_loc_def)
    have "index_ok b' (?L @ [(order_id ord, ?loc)])"
      by (rule index_ok_insert[OF old notin]) (simp_all add: b'_def rest_effect_def)
    then show ?thesis
      by (rule index_ok_mset[THEN iffD1, rotated]) (simp add: xy loc)
  qed
  have cross: "\<forall>p \<in> fst ` set ls'. \<forall>q \<in> fst ` set ?cs. if is_buy ord then p < q else q < p"
    using parts apart unfolding keys
    by (auto simp: limit_accepts_def cmp_buy_def cmp_sell_def split: if_splits)
  have "book_ok b'"
    unfolding book_ok_iff[of b' ord]
    using parts side index cross kind by (auto simp: b'_def xy)
  moreover have "rested ord b b'"
    unfolding rested_def
    using dep queue
    by (auto simp: b'_def book_nodes_own[of _ ord] xy)
  ultimately show ?thesis using that[OF res] by blast
qed


section \<open>Finding and cancelling an order\<close>

lemma book_ok_distinct_nodes: "book_ok b \<Longrightarrow> distinct (map fst (book_nodes b))"
  using book_ok_index[of b] by (simp add: index_ok_def comp_def node_loc_def)

text \<open>The index finds an id exactly when a resting order has it.\<close>

lemma book_ok_look_up_iff:
  assumes "book_ok b"
  shows "order_look_up b oid = Some loc \<longleftrightarrow> (\<exists>nd \<in> set (book_nodes b). node_loc nd = (oid, loc))"
  unfolding index_ok_look_up_Some[OF book_ok_index[OF assms]] set_map image_iff
  by (rule bex_cong[OF refl]) (rule eq_commute)

lemma book_ok_look_up_None:
  assumes "book_ok b"
  shows "order_look_up b oid = None \<longleftrightarrow> (\<forall>nd \<in> set (book_nodes b). order_id (snd nd) \<noteq> oid)"
  using index_ok_look_up_None[OF book_ok_index[OF assms], of oid] by (auto simp: image_iff)

lemma find_order_None:
  "\<lbrakk> book_ok b; order_look_up b oid = None \<rbrakk> \<Longrightarrow> find_order oid b = Inr None"
  by (simp add: find_order_def)

lemma find_order_eq:
  assumes "book_ok b" and "(n, ord) \<in> set (book_nodes b)"
  shows "find_order (order_id ord) b = Inr (Some ord)"
proof -
  have "order_look_up b (order_id ord) = Some (snd (node_loc (n, ord)))"
    using assms by (auto simp: book_ok_look_up_iff[OF assms(1)] node_loc_def intro!: bexI[of _ "(n, ord)"])
  moreover have "map_of (book_nodes b) n = Some ord"
    using book_ok_distinct_nodes[OF assms(1)] assms(2) by simp
  ultimately show ?thesis by (simp add: find_order_def deref_order_def node_loc_def)
qed

text \<open>What a cancellation does, as a relation between the books.\<close>

definition cancel_effect :: "Order \<Rightarrow> Quantity \<Rightarrow> OrderBook \<Rightarrow> OrderBook" where
  "cancel_effect ord t b =
     b\<lparr>order_look_up := (order_look_up b)(order_id ord := None),
       event_sink := event_sink b @ [Public (BookUpdate (side ord) (price ord) t)]\<rparr>"

lemma cancel_effect_selectors [simp]:
  "own_levels ord' (cancel_effect ord t b) = own_levels ord' b"
  "counter_levels ord' (cancel_effect ord t b) = counter_levels ord' b"
  "next_order_id (cancel_effect ord t b) = next_order_id b"
  "next_node (cancel_effect ord t b) = next_node b"
  "trades (cancel_effect ord t b) = trades b"
  "event_sink (cancel_effect ord t b) =
     event_sink b @ [Public (BookUpdate (side ord) (price ord) t)]"
  by (simp_all add: cancel_effect_def own_levels_def counter_levels_def)

definition cancelled :: "OrderNode \<Rightarrow> OrderBook \<Rightarrow> OrderBook \<Rightarrow> bool" where
  "cancelled nd b b' \<longleftrightarrow>
     (let ord = snd nd; t = depth (own_levels ord b) (price ord) - remaining_quantity ord in
      (\<exists>ls'. b' = set_own ord ls' (cancel_effect ord t b)) \<and>
      depth (own_levels ord b') = (depth (own_levels ord b))(price ord := t) \<and>
      (\<exists>x y. levels_nodes (own_levels ord b) = x @ nd # y \<and>
             levels_nodes (own_levels ord b') = x @ y))"

lemma cancel_order_own:
  assumes "order_look_up b (order_id ord) = Some loc" and "loc_side loc = side ord"
  shows "cancel_order (order_id ord) b =
    (let b1 = b\<lparr>order_look_up := (order_look_up b)(order_id ord := None)\<rparr> in
     rbind (cancel_order_side (own_levels ord b) loc b1)
       (\<lambda>(ok, ls, b'). Inr (ok, set_own ord ls b')))"
  using assms
  by (simp add: cancel_order_def Let_def is_buy_def own_levels_def set_own_def)

lemma own_side_node:
  assumes b: "book_ok b" and "nd \<in> set (book_nodes b)"
  shows "nd \<in> set (levels_nodes (own_levels (snd nd) b))"
proof (rule ccontr)
  assume "nd \<notin> set (levels_nodes (own_levels (snd nd) b))"
  with assms(2) have "nd \<in> set (levels_nodes (counter_levels (snd nd) b))"
    by (simp add: book_nodes_set[of b "snd nd"])
  with b have "resting_ok (\<not> is_buy (snd nd)) (snd nd)"
    by (simp add: book_ok_iff[of b "snd nd"])
  then show False by (simp add: resting_ok_def)
qed

lemma levels_find_node:
  assumes "levels_ok ls" and "distinct (map fst ls)" and "nd \<in> set (levels_nodes ls)"
  obtains lvl where "map_of ls (price (snd nd)) = Some lvl" and "nd \<in> set (orders lvl)"
proof -
  obtain e where e: "e \<in> set ls" "nd \<in> set (orders (snd e))"
    using assms(3) by (auto simp: in_levels_nodes_iff)
  then have "price (snd nd) = fst e"
    using assms(1) by (auto simp: levels_ok_def level_entry_ok_def level_ok_def node_ok_def)
  with e assms(2) that[of "snd e"] show ?thesis by simp
qed

text \<open>Cancelling on the order's own side, whichever it is.\<close>

lemma cancel_own_side:
  assumes b: "book_ok b" and own: "(n, ord) \<in> set (levels_nodes (own_levels ord b))"
    and loc: "loc = \<lparr>loc_side = side ord, loc_price = price ord, loc_order_it = n\<rparr>"
  defines "t \<equiv> depth (own_levels ord b) (price ord) - remaining_quantity ord"
  obtains ls' where "cancel_order_side (own_levels ord b) loc b1 =
       Inr (True, ls', add_public_event (BookUpdate (side ord) (price ord) t) b1)"
    and "side_ok (own_before ord) ls'"
    and "\<exists>x y. levels_nodes (own_levels ord b) = x @ (n, ord) # y \<and> levels_nodes ls' = x @ y"
    and "fst ` set ls' \<subseteq> fst ` set (own_levels ord b)"
    and "depth ls' = (depth (own_levels ord b))(price ord := t)"
proof (cases "is_buy ord")
  case True
  have s: "side_ok bid_before (own_levels ord b)"
    using book_ok_own[OF b, of ord] True by (simp add: own_before_cases)
  obtain lvl where "map_of (own_levels ord b) (price ord) = Some lvl" "(n, ord) \<in> set (orders lvl)"
    using levels_find_node[OF book_ok_levels(2)[OF b] bid_side.keys_distinct own] s
    by (auto simp: side_ok_def)
  then show ?thesis
    using bid_side.cancel_order_side_eq[OF s, of loc lvl ord b1] that True
    by (simp add: loc t_def own_before_cases) blast
next
  case False
  have s: "side_ok ask_before (own_levels ord b)"
    using book_ok_own[OF b, of ord] False by (simp add: own_before_cases)
  obtain lvl where "map_of (own_levels ord b) (price ord) = Some lvl" "(n, ord) \<in> set (orders lvl)"
    using levels_find_node[OF book_ok_levels(2)[OF b] ask_side.keys_distinct own] s
    by (auto simp: side_ok_def)
  then show ?thesis
    using ask_side.cancel_order_side_eq[OF s, of loc lvl ord b1] that False
    by (simp add: loc t_def own_before_cases) blast
qed

lemma cancel_order_ok:
  assumes b: "book_ok b" and nd: "(n, ord) \<in> set (book_nodes b)"
  obtains b' where "cancel_order (order_id ord) b = Inr (True, b')" and "book_ok b'"
    and "cancelled (n, ord) b b'"
proof -
  let ?ls = "own_levels ord b" and ?cs = "counter_levels ord b"
  define loc where "loc = \<lparr>loc_side = side ord, loc_price = price ord, loc_order_it = n\<rparr>"
  have look: "order_look_up b (order_id ord) = Some loc"
    using nd by (auto simp: book_ok_look_up_iff[OF b] node_loc_def loc_def intro!: bexI[of _ "(n, ord)"])
  have own: "(n, ord) \<in> set (levels_nodes ?ls)" using own_side_node[OF b nd] by simp
  define b1 where "b1 = b\<lparr>order_look_up := (order_look_up b)(order_id ord := None)\<rparr>"
  let ?t = "depth ?ls (price ord) - remaining_quantity ord"
  obtain ls' where cancel: "cancel_order_side ?ls loc b1 =
       Inr (True, ls', add_public_event (BookUpdate (side ord) (price ord) ?t) b1)"
    and side: "side_ok (own_before ord) ls'"
    and nodes: "\<exists>x y. levels_nodes ?ls = x @ (n, ord) # y \<and> levels_nodes ls' = x @ y"
    and keys: "fst ` set ls' \<subseteq> fst ` set ?ls"
    and dep: "depth ls' = (depth ?ls)(price ord := ?t)"
    by (rule cancel_own_side[OF b own loc_def, of b1])
  define b' where "b' = set_own ord ls' (cancel_effect ord ?t b)"
  have b1_eff: "add_public_event (BookUpdate (side ord) (price ord) ?t) b1 = cancel_effect ord ?t b"
    by (simp add: add_public_event_def b1_def cancel_effect_def)
  have res: "cancel_order (order_id ord) b = Inr (True, b')"
    using cancel
    by (simp add: cancel_order_own[OF look, unfolded loc_def] loc_def b1_def[symmetric] Let_def
        b1_eff b'_def)
  obtain x y where xy: "levels_nodes ?ls = x @ (n, ord) # y" "levels_nodes ls' = x @ y"
    using nodes by blast
  note parts = b[unfolded book_ok_iff[of b ord]]
  have "index_ok b ((node_locs (levels_nodes ?cs) @ node_locs x) @
      (order_id ord, snd (node_loc (n, ord))) # node_locs y)"
    using parts xy(1) by (simp add: node_loc_def)
  then have "index_ok b' ((node_locs (levels_nodes ?cs) @ node_locs x) @ node_locs y)"
    by (rule index_ok_erase) (simp_all add: b'_def cancel_effect_def)
  then have index: "index_ok b' (node_locs (levels_nodes ?cs) @ node_locs (levels_nodes ls'))"
    by (simp add: xy)
  have resting: "\<forall>nd \<in> set (levels_nodes ls'). resting_ok (is_buy ord) (snd nd)"
    using parts by (simp add: xy)
  have cross: "\<forall>p \<in> fst ` set ls'. \<forall>q \<in> fst ` set ?cs. if is_buy ord then p < q else q < p"
    using parts keys by blast
  have "book_ok b'"
    unfolding book_ok_iff[of b' ord]
    using parts index side resting cross by (simp add: b'_def)
  moreover have "cancelled (n, ord) b b'"
    using dep xy by (auto simp: cancelled_def Let_def b'_def)
  ultimately show ?thesis using that[OF res] by blast
qed

lemma cancel_order_None: "order_look_up b oid = None \<Longrightarrow> cancel_order oid b = Inr (False, b)"
  by (simp add: cancel_order_def)


section \<open>The fill-or-kill check\<close>

definition liquidity :: "Order \<Rightarrow> OrderBook \<Rightarrow> Quantity" where
  "liquidity ord b = orders_quantity (accepted_orders (limit_accepts ord) (counter_levels ord b))"

lemma can_fully_fill_loop_eq:
  assumes "levels_ok ls" and "in_i64 q"
  shows "\<exists>r. can_fully_fill_loop cmp p q ls = Inr r \<and>
    (r \<le> 0 \<longleftrightarrow> q \<le> orders_quantity (accepted_orders (cmp p) ls))"
  using assms
proof (induction ls arbitrary: q)
  case Nil
  then show ?case by (simp add: accepted_orders_def)
next
  case (Cons e ls)
  obtain k lvl where e: "e = (k, lvl)" by (cases e)
  have lvl: "level_ok lvl" "level_price lvl = k" and ls: "levels_ok ls"
    using Cons.prems(1) e by simp_all
  have rest: "0 \<le> orders_quantity (accepted_orders (cmp p) ls)"
    by (rule orders_quantity_nonneg) (use accepted_orders_facts(3)[OF ls] in blast)
  have tot: "0 \<le> total_quantity lvl" "total_quantity lvl \<le> i64_max"
    "total_quantity lvl = nodes_quantity (orders lvl)"
    using level_ok_nonneg[OF lvl(1)] in_i64_upper[OF level_ok_in_i64[OF lvl(1)]] lvl(1)
    by (auto simp: level_ok_def)
  have acc: "accepted_orders (cmp p) (e # ls) =
      (if cmp p k then map snd (orders lvl) @ accepted_orders (cmp p) ls else [])"
    by (simp add: accepted_orders_def e)
  show ?case
  proof (cases "q > 0 \<and> cmp p k")
    case True
    then have range: "in_i64 (q - total_quantity lvl)"
      using Cons.prems(2) tot(1,2) by (auto simp: in_i64_def i64_min_def i64_max_def)
    obtain r where "can_fully_fill_loop cmp p (q - total_quantity lvl) ls = Inr r"
      "r \<le> 0 \<longleftrightarrow> q - total_quantity lvl \<le> orders_quantity (accepted_orders (cmp p) ls)"
      using Cons.IH[OF ls range] by blast
    with True lvl(2) range tot(3) show ?thesis
      by (auto simp: e i64_sub_ok acc[unfolded e])
  next
    case False
    have "\<not> q \<le> 0 \<or> q \<le> orders_quantity (accepted_orders (cmp p) (e # ls))"
      using rest tot by (simp add: acc)
    with False lvl(2) show ?thesis by (auto simp: e acc[unfolded e])
  qed
qed

lemma can_fully_fill_eq:
  assumes b: "book_ok b" and ord: "order_ok ord" "0 < remaining_quantity ord"
  shows "can_fully_fill ord b = Inr (remaining_quantity ord \<le> liquidity ord b)"
proof -
  define cmp where "cmp = (if is_buy ord then cmp_buy else cmp_sell)"
  have acc: "limit_accepts ord = cmp (price ord)"
    by (simp add: limit_accepts_def cmp_def fun_eq_iff)
  obtain r where loop: "can_fully_fill_loop cmp (price ord) (remaining_quantity ord)
        (counter_levels ord b) = Inr r"
    and r: "r \<le> 0 \<longleftrightarrow> remaining_quantity ord \<le> liquidity ord b"
    using can_fully_fill_loop_eq[OF book_ok_levels(1)[OF b] order_ok_in_i64[OF ord(1)],
        of cmp "price ord" ord]
    by (auto simp: liquidity_def acc)
  have "can_fully_fill_against_side (counter_levels ord b) ord cmp =
      Inr (remaining_quantity ord \<le> liquidity ord b)"
    using loop r ord(2) by (auto simp: can_fully_fill_against_side_def)
  then show ?thesis
    by (auto simp: can_fully_fill_def cmp_def counter_levels_def)
qed

lemma sweep_book_left:
  assumes "sweep_book (limit_accepts ord) ord b = (fs, q', b')" and "book_ok b" and "order_ok ord"
  shows "q' = max 0 (remaining_quantity ord - liquidity ord b)"
proof -
  obtain ls' where
    "sweep (limit_accepts ord) (remaining_quantity ord) (counter_levels ord b) = (fs, q', ls')"
    by (rule sweep_bookE[OF assms(1)])
  from sweep_left[OF this book_ok_levels(1)[OF assms(2)] order_ok_nonneg[OF assms(3)]]
  show ?thesis by (simp add: liquidity_def)
qed

section \<open>Inserting an order\<close>

text \<open>A fill-or-kill order is rejected, with the book unchanged, exactly when the book cannot fill it.\<close>

lemma add_limit_order_FOK_rejected:
  assumes "book_ok b" and "order_ok ord" and "0 < remaining_quantity ord"
    and "time_in_force ord = FillOrKill" and "liquidity ord b < remaining_quantity ord"
  shows "add_limit_order ord b =
    Inr (\<lparr>status = Rejected, res_execution_quantity = 0,
          res_remaining_quantity = remaining_quantity ord\<rparr>, b)"
  using assms by (simp add: add_limit_order_def can_fully_fill_eq)

lemma add_limit_order_not_resting:
  assumes b: "book_ok b" and ord: "order_ok ord" "0 < remaining_quantity ord"
    and sweep: "sweep_book (limit_accepts ord) ord b = (fs, q', b')"
    and tif: "time_in_force ord \<noteq> GoodTillCancel"
    and fok: "time_in_force ord = FillOrKill \<longrightarrow> remaining_quantity ord \<le> liquidity ord b"
  shows "add_limit_order ord b =
    Inr (from_match_filled (order_type ord) (remaining_quantity ord - q') q', b')"
proof (cases "time_in_force ord = FillOrKill")
  case True
  with fok tif show ?thesis
    by (simp add: add_limit_order_def can_fully_fill_eq[OF b ord] match_order_eq[OF b ord(1) sweep])
next
  case False
  with tif show ?thesis
    by (simp add: add_limit_order_def match_order_eq[OF b ord(1) sweep])
qed

lemma add_limit_order_GTC:
  assumes b: "book_ok b" and ord: "order_ok ord" "0 < remaining_quantity ord"
    and sweep: "sweep_book (limit_accepts ord) ord b = (fs, q', b')"
    and tif: "time_in_force ord = GoodTillCancel"
    and rest: "rest_order (ord\<lparr>remaining_quantity := q'\<rparr>) b' = Inr (True, b'')"
  shows "add_limit_order ord b =
    Inr (from_match_filled (order_type ord) (remaining_quantity ord - q') q', b'')"
  using tif by (simp add: add_limit_order_def match_order_eq[OF b ord(1) sweep] rest from_match_def)


text \<open>
  Why the book cannot take an order, if it cannot. Only what a good-till-cancel limit order has left
  after it has matched is stored; the code then constructs the level or adds to its total.
\<close>

definition unmatched_limit :: "Order \<Rightarrow> OrderBook \<Rightarrow> Quantity" where
  "unmatched_limit ord b = max 0 (remaining_quantity ord - liquidity ord b)"

definition rest_error :: "Order \<Rightarrow> OrderBook \<Rightarrow> error option" where
  "rest_error ord b =
     (if \<not> is_limit_order ord \<or> time_in_force ord \<noteq> GoodTillCancel \<or> unmatched_limit ord b = 0
      then None
      else if price ord \<le> 0 then Some Level_price_not_positive
      else if \<not> in_i64 (depth (own_levels ord b) (price ord) + unmatched_limit ord b)
      then Some UB_overflow
      else None)"

text \<open>What the book needs of an order to insert it without an exception.\<close>

definition insertable :: "Order \<Rightarrow> OrderBook \<Rightarrow> bool" where
  "insertable ord b \<longleftrightarrow> order_ok ord \<and> 0 < remaining_quantity ord \<and>
     order_look_up b (order_id ord) = None \<and> rest_error ord b = None"

text \<open>A positive price at which the whole quantity fits is enough, whatever matches.\<close>

lemma rest_error_whole:
  assumes b: "book_ok b" and ord: "0 < price ord" "fits_level ord b" "0 \<le> remaining_quantity ord"
  shows "rest_error ord b = None"
proof -
  have "0 \<le> depth (own_levels ord b) (price ord)"
    by (rule depth_nonneg[OF book_ok_levels(2)[OF b]])
  moreover have "0 \<le> liquidity ord b"
    unfolding liquidity_def
    by (rule orders_quantity_nonneg)
       (use accepted_orders_facts(3)[OF book_ok_levels(1)[OF b]] in blast)
  ultimately have "in_i64 (depth (own_levels ord b) (price ord) + unmatched_limit ord b)"
    using ord by (auto simp: unmatched_limit_def fits_level_def in_i64_def i64_min_def)
  with ord show ?thesis by (simp add: rest_error_def)
qed

definition order_accepts :: "Order \<Rightarrow> Price \<Rightarrow> bool" where
  "order_accepts ord = (if is_limit_order ord then limit_accepts ord else (\<lambda>_. True))"

lemma order_accepts_update [simp]:
  "order_accepts (ord\<lparr>remaining_quantity := r\<rparr>) = order_accepts ord"
  by (simp add: order_accepts_def is_limit_order_def)

lemma sweep_book_own [simp]:
  "sweep_book accepts ord b = (fs, q', b') \<Longrightarrow> own_levels ord b' = own_levels ord b"
  by (auto elim: sweep_bookE)

lemma sweep_book_frame:
  assumes "sweep_book accepts ord b = (fs, q', b')"
  shows "next_order_id b' = next_order_id b" and "next_node b' = next_node b"
    and "order_look_up b' = (order_look_up b) |` (- removed_ids fs)"
    and "trades b' = trades b @ map (fill_trade ord) fs"
    and "event_sink b' = event_sink b @ concat (map (fill_events ord) fs)"
  using assms by (auto elim: sweep_bookE)

text \<open>
  The three ways an insertion ends. The code's case distinctions on the type and the time in force
  are these; \<open>swept\<close> covers every order that does not rest, including a filled one.
\<close>

text \<open>What is left of a good-till-cancel limit order after its sweep can rest.\<close>

lemma remainder_facts:
  assumes b: "book_ok b" and ord: "order_ok ord" "order_look_up b (order_id ord) = None"
    and kind: "is_limit_order ord" "time_in_force ord = GoodTillCancel"
    and sweep: "sweep_book (limit_accepts ord) ord b = (fs, q', b1)" and q': "0 < q'"
  shows "book_ok b1" and "order_ok (ord\<lparr>remaining_quantity := q'\<rparr>)"
    and "unmatched_limit ord b = q'"
    and "order_look_up b1 (order_id ord) = None"
    and "resting_ok (is_buy ord) ord"
    and "\<forall>e \<in> set (counter_levels ord b1). \<not> limit_accepts ord (fst e)"
proof -
  note b1 = sweep_book_ok[OF sweep b ord(1)] and bounds = sweep_book_bounds[OF sweep b ord(1)]
  show "book_ok b1" "order_ok (ord\<lparr>remaining_quantity := q'\<rparr>)"
    by (rule b1) (rule order_ok_fill[OF ord(1) bounds])
  show "unmatched_limit ord b = q'"
    using sweep_book_left[OF sweep b ord(1)] by (simp add: unmatched_limit_def)
  show "order_look_up b1 (order_id ord) = None"
    using ord(2) by (simp add: sweep_book_frame[OF sweep] restrict_map_def)
  show "resting_ok (is_buy ord) ord"
    using kind by (simp add: resting_ok_def is_limit_order_def)
  show "\<forall>e \<in> set (counter_levels ord b1). \<not> limit_accepts ord (fst e)"
    using sweep_book_uncrossed[OF sweep b ord(1)] q' by simp
qed

lemma remainder_rests:
  assumes b: "book_ok b" and ord: "insertable ord b"
    and kind: "is_limit_order ord" "time_in_force ord = GoodTillCancel"
    and sweep: "sweep_book (limit_accepts ord) ord b = (fs, q', b1)" and q': "0 < q'"
  obtains b' where "rest_order (ord\<lparr>remaining_quantity := q'\<rparr>) b1 = Inr (True, b')" and "book_ok b'"
    and "rested (ord\<lparr>remaining_quantity := q'\<rparr>) b1 b'"
proof -
  have ok: "order_ok ord" "order_look_up b (order_id ord) = None" "rest_error ord b = None"
    using ord by (simp_all add: insertable_def)
  note f = remainder_facts[OF b ok(1,2) kind sweep q']
  have "0 < price ord" "in_i64 (depth (own_levels ord b) (price ord) + q')"
    using ok(3) kind q' f(3) by (auto simp: rest_error_def split: if_splits)
  then have fits: "fits_level (ord\<lparr>remaining_quantity := q'\<rparr>) b1"
    by (simp add: fits_level_def sweep_book_own[OF sweep])
  have resting: "resting_ok (is_buy (ord\<lparr>remaining_quantity := q'\<rparr>)) (ord\<lparr>remaining_quantity := q'\<rparr>)"
    and new: "order_look_up b1 (order_id (ord\<lparr>remaining_quantity := q'\<rparr>)) = None"
    and apart: "\<forall>e \<in> set (counter_levels (ord\<lparr>remaining_quantity := q'\<rparr>) b1).
      \<not> limit_accepts (ord\<lparr>remaining_quantity := q'\<rparr>) (fst e)"
    using f(4-6) by simp_all
  show thesis
    by (rule rest_order_ok[OF f(1,2) _ _ resting new apart fits])
       (use q' \<open>0 < price ord\<close> that in simp_all)
qed

text \<open>A remainder the book cannot store ends the insertion with the error that \<open>rest_error\<close> names.\<close>

lemma rest_order_fails:
  assumes b: "book_ok b" and ord: "0 < remaining_quantity ord"
    and e: "e = (if price ord \<le> 0 then Level_price_not_positive else UB_overflow)"
    and bad: "price ord \<le> 0 \<or> \<not> fits_level ord b"
  shows "rest_order ord b = Inl e"
proof -
  let ?ls = "own_levels ord b"
  have side: "side_ok (own_before ord) ?ls" by (rule book_ok_own[OF b])
  have add: "add_order_to_side (own_before ord) ?ls ord b = Inl e"
  proof (cases "map_of ?ls (price ord)")
    case None
    with bad e ord show ?thesis
      by (auto simp: add_order_to_side_def is_filled_def levels_try_emplace_def new_PriceLevel_def
          level_add_order_def fits_level_def depth_def i64_add_def i64_check_def)
  next
    case (Some lvl)
    have "level_entry_ok (price ord, lvl)"
      using side map_of_SomeD[OF Some] unfolding side_ok_def levels_ok_def by blast
    then have lvl: "level_ok lvl" "level_price lvl = price ord"
      by (simp_all add: level_entry_ok_def)
    then have "0 < price ord" by (simp add: level_ok_def)
    with Some lvl bad e ord show ?thesis
      by (auto simp: add_order_to_side_def is_filled_def levels_try_emplace_def
          level_add_order_def fits_level_def depth_def i64_add_def i64_check_def)
  qed
  then show ?thesis by (simp add: rest_order_own)
qed

lemma add_order_fails:
  assumes b: "book_ok b" and ord: "order_ok ord" "0 < remaining_quantity ord"
    and new: "order_look_up b (order_id ord) = None" and e: "rest_error ord b = Some e"
  shows "add_order ord b = Inl e"
proof -
  obtain fs q' b1 where sweep: "sweep_book (limit_accepts ord) ord b = (fs, q', b1)"
    by (metis prod_cases3)
  have left: "unmatched_limit ord b = q'"
    using sweep_book_left[OF sweep b ord(1)] by (simp add: unmatched_limit_def)
  have kind: "is_limit_order ord" "time_in_force ord = GoodTillCancel" and q': "0 < q'"
    using e left sweep_book_bounds[OF sweep b ord(1)]
    by (auto simp: rest_error_def split: if_splits)
  note f = remainder_facts[OF b ord(1) new kind sweep q']
  have "rest_order (ord\<lparr>remaining_quantity := q'\<rparr>) b1 = Inl e"
    by (rule rest_order_fails[OF f(1)])
       (use e kind q' left in \<open>auto simp: rest_error_def fits_level_def sweep_book_own[OF sweep]
          split: if_splits\<close>)
  with kind show ?thesis
    by (simp add: add_order_def add_limit_order_def match_order_eq[OF b ord(1) sweep])
qed

lemma add_order_cases:
  assumes b: "book_ok b" and ord: "insertable ord b"
  obtains
    (rejected) "is_limit_order ord" "time_in_force ord = FillOrKill"
      "liquidity ord b < remaining_quantity ord"
      "add_order ord b = Inr (\<lparr>status = Rejected, res_execution_quantity = 0,
         res_remaining_quantity = remaining_quantity ord\<rparr>, b)"
  | (swept) fs q' b' where "sweep_book (order_accepts ord) ord b = (fs, q', b')"
      "is_limit_order ord \<and> time_in_force ord = GoodTillCancel \<longrightarrow> q' = 0"
      "is_limit_order ord \<and> time_in_force ord = FillOrKill \<longrightarrow> q' = 0"
      "add_order ord b = Inr (from_match_filled (order_type ord) (remaining_quantity ord - q') q', b')"
      "book_ok b'"
  | (rested) fs q' b1 b' where "sweep_book (order_accepts ord) ord b = (fs, q', b1)"
      "is_limit_order ord" "time_in_force ord = GoodTillCancel" "0 < q'"
      "book_ok b1" "rested (ord\<lparr>remaining_quantity := q'\<rparr>) b1 b'"
      "add_order ord b = Inr (from_match_filled (order_type ord) (remaining_quantity ord - q') q', b')"
      "book_ok b'"
proof -
  have ok: "order_ok ord" "0 < remaining_quantity ord" using ord by (simp_all add: insertable_def)
  obtain fs q' b1 where sweep: "sweep_book (order_accepts ord) ord b = (fs, q', b1)"
    by (metis prod_cases3)
  note b1 = sweep_book_ok[OF sweep b ok(1)] and bounds = sweep_book_bounds[OF sweep b ok(1)]
  show ?thesis
  proof (cases "is_limit_order ord")
    case False
    then have "order_accepts ord = (\<lambda>_. True)" by (simp add: order_accepts_def)
    from add_market_order_eq[OF b ok(1) sweep this] False b1 show ?thesis
      by (intro swept[OF sweep]) (simp_all add: add_order_def)
  next
    case True
    then have acc: "order_accepts ord = limit_accepts ord" by (simp add: order_accepts_def)
    note sweep' = sweep[unfolded acc]
    have add: "add_order ord b = add_limit_order ord b" using True by (simp add: add_order_def)
    show ?thesis
    proof (cases "time_in_force ord = GoodTillCancel")
      case gtc: True
      show ?thesis
      proof (cases "q' = 0")
        case True
        have "rest_order (ord\<lparr>remaining_quantity := q'\<rparr>) b1 = Inr (True, b1)"
          by (rule rest_order_filled) (simp add: True is_filled_def)
        from add_limit_order_GTC[OF b ok sweep' gtc this] True b1 show ?thesis
          by (intro swept[OF sweep]) (simp_all add: add)
      next
        case False
        then have q': "0 < q'" using bounds by simp
        obtain b' where "rest_order (ord\<lparr>remaining_quantity := q'\<rparr>) b1 = Inr (True, b')" "book_ok b'"
          "rested (ord\<lparr>remaining_quantity := q'\<rparr>) b1 b'"
          by (rule remainder_rests[OF b ord \<open>is_limit_order ord\<close> gtc sweep' q'])
        with add_limit_order_GTC[OF b ok sweep' gtc] b1 q' True gtc show ?thesis
          by (intro rested[OF sweep, of b']) (simp_all add: add)
      qed
    next
      case not_gtc: False
      show ?thesis
      proof (cases "time_in_force ord = FillOrKill \<and> liquidity ord b < remaining_quantity ord")
        case True
        with add_limit_order_FOK_rejected[OF b ok] \<open>is_limit_order ord\<close> show ?thesis
          by (intro rejected) (simp_all add: add)
      next
        case False
        then have fok: "time_in_force ord = FillOrKill \<longrightarrow> remaining_quantity ord \<le> liquidity ord b"
          by auto
        have "time_in_force ord = FillOrKill \<longrightarrow> q' = 0"
          using fok sweep_book_left[OF sweep' b ok(1)] by auto
        with add_limit_order_not_resting[OF b ok sweep' not_gtc fok] not_gtc b1 show ?thesis
          by (intro swept[OF sweep]) (simp_all add: add)
      qed
    qed
  qed
qed

end
