(* ===== verification/Process.thy ===== *)
theory Process
  imports Book_Operations
begin

text \<open>
  Processing client messages on a well-formed book: valid messages are processed without an
  exception and keep the book well-formed. The reachable books are those a run of the engine over
  valid messages can produce from the empty book.
\<close>

section \<open>Valid messages\<close>

definition order_of_add :: "AddOrder \<Rightarrow> OrderId \<Rightarrow> Order" where
  "order_of_add m oid =
     \<lparr>order_type = ao_order_type m, time_in_force = ao_time_in_force m, order_id = oid,
      price = ao_price m, initial_quantity = ao_quantity m, remaining_quantity = ao_quantity m,
      side = ao_side m, sequence_number = ao_seq m, connection_id = ao_connection_id m,
      client_order_id = ao_client_order_id m\<rparr>"

lemma order_of_add_simps [simp]:
  "order_type (order_of_add m oid) = ao_order_type m"
  "time_in_force (order_of_add m oid) = ao_time_in_force m"
  "order_id (order_of_add m oid) = oid"
  "price (order_of_add m oid) = ao_price m"
  "initial_quantity (order_of_add m oid) = ao_quantity m"
  "remaining_quantity (order_of_add m oid) = ao_quantity m"
  "side (order_of_add m oid) = ao_side m"
  "connection_id (order_of_add m oid) = ao_connection_id m"
  "client_order_id (order_of_add m oid) = ao_client_order_id m"
  by (simp_all add: order_of_add_def)

definition replacement :: "Order \<Rightarrow> Price \<Rightarrow> Quantity \<Rightarrow> Order" where
  "replacement ord p q = ord\<lparr>price := p, initial_quantity := q, remaining_quantity := q\<rparr>"

text \<open>
  The error a message ends the engine thread with, if any. Nothing in the code checks these
  conditions before the message changes the book. They are decided before the message is processed:
  for a modification, in the book that its cancellation leaves.
\<close>

definition add_error :: "AddOrder \<Rightarrow> OrderBook \<Rightarrow> error option" where
  "add_error m b =
     (if ao_quantity m \<le> 0 then Some Quantity_not_positive
      else rest_error (order_of_add m (next_order_id b)) b)"

definition modify_error :: "ModifyOrder \<Rightarrow> OrderBook \<Rightarrow> error option" where
  "modify_error m b =
     (case find_order (mo_id m) b of
        Inr (Some ord) \<Rightarrow>
          if mo_new_quantity m \<le> 0 then Some Quantity_not_positive
          else (case cancel_order (mo_id m) b of
                  Inr (_, b') \<Rightarrow>
                    rest_error (replacement ord (mo_new_price m) (mo_new_quantity m)) b'
                | Inl e \<Rightarrow> Some e)
      | Inr None \<Rightarrow> None
      | Inl e \<Rightarrow> Some e)"

fun message_error :: "Message \<Rightarrow> OrderBook \<Rightarrow> error option" where
  "message_error (Add_msg m) b = add_error m b"
| "message_error (Modify_msg m) b = modify_error m b"
| "message_error (Cancel_msg m) b = None"

text \<open>The quantity of a message is an \<open>int64_t\<close>; a valid message is one that raises no error.\<close>

fun quantity_in_type :: "Message \<Rightarrow> bool" where
  "quantity_in_type (Add_msg m) = in_i64 (ao_quantity m)"
| "quantity_in_type (Modify_msg m) = in_i64 (mo_new_quantity m)"
| "quantity_in_type (Cancel_msg m) = True"

definition message_valid :: "Message \<Rightarrow> OrderBook \<Rightarrow> bool" where
  "message_valid m b \<longleftrightarrow> quantity_in_type m \<and> message_error m b = None"

abbreviation "add_valid m \<equiv> message_valid (Add_msg m)"
abbreviation "modify_valid m \<equiv> message_valid (Modify_msg m)"

lemma level_quantity_depth: "level_quantity b s p = depth (side_levels b s) p"
  by (simp add: level_quantity_def depth_def)

lemma side_levels_own: "side_levels b (side ord) = own_levels ord b"
  by (simp add: side_levels_def own_levels_def is_buy_def)

section \<open>Frame facts\<close>

lemma book_nodes_frame:
  assumes "bids b' = bids b" and "asks b' = asks b"
  shows "book_nodes b' = book_nodes b"
  by (simp add: book_nodes_def assms)

lemma book_ok_frame:
  assumes "bids b' = bids b" and "asks b' = asks b" and "order_look_up b' = order_look_up b"
    and "next_node b' = next_node b"
  shows "book_ok b' \<longleftrightarrow> book_ok b"
  by (simp add: book_ok_def book_nodes_frame[OF assms(1,2)] assms index_ok_cong[OF assms(3,4)])

lemma book_ok_next [simp]: "book_ok (b\<lparr>next_order_id := i\<rparr>) \<longleftrightarrow> book_ok b"
  by (rule book_ok_frame) simp_all

lemma add_private_event_simps [simp]:
  "bids (add_private_event c ev b) = bids b"
  "asks (add_private_event c ev b) = asks b"
  "trades (add_private_event c ev b) = trades b"
  "order_look_up (add_private_event c ev b) = order_look_up b"
  "next_order_id (add_private_event c ev b) = next_order_id b"
  "next_node (add_private_event c ev b) = next_node b"
  "event_sink (add_private_event c ev b) = event_sink b @ [Routed c ev]"
  by (simp_all add: add_private_event_def)

lemma book_ok_private [simp]: "book_ok (add_private_event c ev b) \<longleftrightarrow> book_ok b"
  by (rule book_ok_frame) simp_all

lemma book_nodes_private [simp]: "book_nodes (add_private_event c ev b) = book_nodes b"
  by (rule book_nodes_frame) simp_all

lemma book_nodes_next [simp]: "book_nodes (b\<lparr>next_order_id := i\<rparr>) = book_nodes b"
  by (rule book_nodes_frame) simp_all

text \<open>The answer to an insertion is one private event; it is all that \<open>report_add\<close> does.\<close>

definition add_report :: "AddOrder \<Rightarrow> OrderId \<Rightarrow> AddOrderResult \<Rightarrow> PrivateEvent" where
  "add_report m oid res =
     (case status res of
        Failed \<Rightarrow> OrderRejected oid NoLiquidity
      | Rejected \<Rightarrow> OrderRejected oid NoLiquidity
      | FullyFilled \<Rightarrow> OrderFilled oid (ao_client_order_id m)
      | Resting \<Rightarrow>
          if ao_time_in_force m = ImmediateOrCancel then OrderExpired oid (ao_client_order_id m)
          else OrderRested oid (ao_client_order_id m) (res_remaining_quantity res)
      | PartiallyFilled \<Rightarrow>
          if ao_time_in_force m = GoodTillCancel
          then OrderRested oid (ao_client_order_id m) (res_remaining_quantity res)
          else OrderExpired oid (ao_client_order_id m))"

lemma report_add_eq:
  "report_add m oid res b = add_private_event (ao_connection_id m) (add_report m oid res) b"
  by (simp add: report_add_def add_report_def Let_def split: AddOrderStatus.split)

section \<open>Adding\<close>

text \<open>What a book that processes an insertion looks like before the order enters.\<close>

definition with_next_id :: "OrderBook \<Rightarrow> OrderBook" where
  "with_next_id b = b\<lparr>next_order_id := next_order_id b + 1\<rparr>"

lemma with_next_id_simps [simp]:
  "book_ok (with_next_id b) \<longleftrightarrow> book_ok b"
  "book_nodes (with_next_id b) = book_nodes b"
  "own_levels ord (with_next_id b) = own_levels ord b"
  "counter_levels ord (with_next_id b) = counter_levels ord b"
  "order_look_up (with_next_id b) = order_look_up b"
  "next_order_id (with_next_id b) = next_order_id b + 1"
  "next_node (with_next_id b) = next_node b"
  "trades (with_next_id b) = trades b"
  "event_sink (with_next_id b) = event_sink b"
  by (simp_all add: with_next_id_def own_levels_def counter_levels_def)

lemma process_add_eq:
  assumes "0 < ao_quantity m"
    and "add_order (order_of_add m (next_order_id b)) (with_next_id b) = Inr (res, b')"
  shows "process_add m b =
    Inr (add_private_event (ao_connection_id m) (add_report m (next_order_id b) res) b')"
proof -
  have "new_Order (ao_order_type m) (ao_time_in_force m) (next_order_id b) (ao_price m)
      (ao_quantity m) (ao_side m) (ao_seq m) (ao_connection_id m) (ao_client_order_id m) =
      Inr (order_of_add m (next_order_id b))"
    using assms(1) by (simp add: new_Order_def order_of_add_def)
  with assms(2) show ?thesis
    by (simp add: process_add_def Let_def report_add_eq with_next_id_def)
qed

lemma rest_error_next_id [simp]: "rest_error ord (with_next_id b) = rest_error ord b"
  by (simp add: rest_error_def unmatched_limit_def liquidity_def)

lemma order_of_add_new:
  assumes "book_ok b" and "ids_below b"
  shows "order_look_up b (order_id (order_of_add m (next_order_id b))) = None"
  using assms(2) by (auto simp: book_ok_look_up_None[OF assms(1)] ids_below_def)

lemma order_of_add_ok:
  "\<lbrakk> in_i64 (ao_quantity m); 0 < ao_quantity m \<rbrakk> \<Longrightarrow> order_ok (order_of_add m oid)"
  by (simp add: order_ok_def)

lemma add_validD:
  assumes "add_valid m b"
  shows "0 < ao_quantity m" and "in_i64 (ao_quantity m)"
    and "rest_error (order_of_add m (next_order_id b)) b = None"
  using assms by (auto simp: message_valid_def add_error_def split: if_splits)

lemma insertable_add:
  assumes "book_ok b" and "ids_below b" and "add_valid m b"
  shows "insertable (order_of_add m (next_order_id b)) (with_next_id b)"
  using add_validD[OF assms(3)] order_of_add_ok[of m] order_of_add_new[OF assms(1,2), of m]
  by (simp add: insertable_def)

lemma rested_selectors:
  assumes "rested ord b b'"
  shows "next_order_id b' = next_order_id b" and "trades b' = trades b"
    and "counter_levels ord b' = counter_levels ord b"
    and "set (book_nodes b') = insert (next_node b, ord) (set (book_nodes b))"
    and "event_sink b' = event_sink b @ [Public (BookUpdate (side ord) (price ord)
      (depth (own_levels ord b) (price ord) + remaining_quantity ord))]"
    and "order_look_up b' = (order_look_up b)(order_id ord \<mapsto>
      \<lparr>loc_side = side ord, loc_price = price ord, loc_order_it = next_node b\<rparr>)"
  using assms mset_eq_setD[of "book_nodes b'" "(next_node b, ord) # book_nodes b"]
  by (auto simp: rested_def)

lemma ids_below_mono:
  assumes "ids_below b" and "set (book_nodes b') \<subseteq> set (book_nodes b)"
    and "next_order_id b \<le> next_order_id b'"
  shows "ids_below b'"
  unfolding ids_below_def
proof
  fix nd assume "nd \<in> set (book_nodes b')"
  then have "order_id (snd nd) < next_order_id b"
    using assms(1,2) by (auto simp: ids_below_def)
  from this assms(3) show "order_id (snd nd) < next_order_id b'" by (rule order_less_le_trans)
qed

lemma add_order_ids_below:
  assumes b: "book_ok b" and ord: "insertable ord b" and "ids_below b"
    and "order_id ord < next_order_id b" and "add_order ord b = Inr (res, b')"
  shows "ids_below b'" and "next_order_id b' = next_order_id b"
proof -
  have "ids_below b' \<and> next_order_id b' = next_order_id b"
    using b ord
  proof (cases rule: add_order_cases)
    case rejected
    with assms(3,5) show ?thesis by simp
  next
    case (swept fs q' b1)
    with assms(3,5) sweep_book_ids_below[OF swept(1)] sweep_book_frame[OF swept(1)]
    show ?thesis by simp
  next
    case (rested fs q' b1 b2)
    then have "b' = b2" using assms(5) by simp
    moreover have "ids_below b1" by (rule sweep_book_ids_below[OF rested(1) assms(3)])
    ultimately show ?thesis
      using rested_selectors[OF rested(6)] sweep_book_frame[OF rested(1)] assms(4)
      by (auto simp: ids_below_def)
  qed
  then show "ids_below b'" "next_order_id b' = next_order_id b" by simp_all
qed

lemma from_match_filled_status [simp]: "status (from_match_filled ot e r) \<noteq> Failed"
  by (simp add: from_match_filled_def)

lemma add_order_total:
  assumes b: "book_ok b" and ord: "insertable ord b"
  obtains res b' where "add_order ord b = Inr (res, b')" and "book_ok b'" and "status res \<noteq> Failed"
  using b ord
proof (cases rule: add_order_cases)
  case rejected
  then show ?thesis using b by (intro that[OF rejected(4)]) simp_all
next
  case (swept fs q' b')
  then show ?thesis by (intro that[OF swept(4)]) simp_all
next
  case (rested fs q' b1 b')
  then show ?thesis by (intro that[OF rested(7)]) simp_all
qed

lemma word_less_succ: "(x :: 64 word) \<noteq> - 1 \<Longrightarrow> x < x + 1"
  by (metis inc_less_eq_triv_imp linorder_less_linear word_le_less_eq)

lemma process_add_ok:
  assumes b: "book_ok b" and ids: "ids_below b" and valid: "add_valid m b"
    and room: "next_order_id b \<noteq> - 1"
  obtains res b' where "process_add m b =
      Inr (add_private_event (ao_connection_id m) (add_report m (next_order_id b) res) b')"
    and "add_order (order_of_add m (next_order_id b)) (with_next_id b) = Inr (res, b')"
    and "book_ok b'" and "ids_below b'" and "next_order_id b' = next_order_id b + 1"
proof -
  let ?ord = "order_of_add m (next_order_id b)" and ?b = "with_next_id b"
  have ins: "insertable ?ord ?b" by (rule insertable_add[OF b ids valid])
  have b1: "book_ok ?b" using b by simp
  have less: "next_order_id b < next_order_id b + 1" by (rule word_less_succ[OF room])
  then have ids1: "ids_below ?b"
    using ids_below_mono[OF ids, of ?b] by simp
  obtain res b' where add: "add_order ?ord ?b = Inr (res, b')" and ok: "book_ok b'"
    by (rule add_order_total[OF b1 ins])
  have "process_add m b =
      Inr (add_private_event (ao_connection_id m) (add_report m (next_order_id b) res) b')"
    by (rule process_add_eq[OF add_validD(1)[OF valid] add])
  moreover have "ids_below b'" "next_order_id b' = next_order_id b + 1"
    using add_order_ids_below[OF b1 ins ids1 _ add] less by simp_all
  ultimately show ?thesis using that add ok by blast
qed


section \<open>Cancelling\<close>

lemma cancelled_selectors:
  assumes "cancelled nd b b'"
  shows "next_order_id b' = next_order_id b" and "trades b' = trades b"
    and "next_node b' = next_node b"
    and "counter_levels (snd nd) b' = counter_levels (snd nd) b"
    and "set (book_nodes b') \<subseteq> set (book_nodes b)"
    and "order_look_up b' = (order_look_up b)(order_id (snd nd) := None)"
    and "depth (own_levels (snd nd) b') = (depth (own_levels (snd nd) b))
      (price (snd nd) := depth (own_levels (snd nd) b) (price (snd nd)) - node_quantity nd)"
    and "event_sink b' = event_sink b @ [Public (BookUpdate (side (snd nd)) (price (snd nd))
      (depth (own_levels (snd nd) b) (price (snd nd)) - node_quantity nd))]"
  using assms
  by (auto simp: cancelled_def Let_def book_nodes_set[of _ "snd nd"])
     (simp_all add: cancel_effect_def)

lemma cancel_order_total:
  assumes b: "book_ok b"
  obtains (unknown) "find_order oid b = Inr None" "cancel_order oid b = Inr (False, b)"
      "order_look_up b oid = None"
  | (known) n ord b' where "(n, ord) \<in> set (book_nodes b)" "order_id ord = oid"
      "find_order oid b = Inr (Some ord)" "cancel_order oid b = Inr (True, b')" "book_ok b'"
      "cancelled (n, ord) b b'"
proof (cases "order_look_up b oid")
  case None
  show ?thesis
    by (rule unknown[OF find_order_None[OF b None] cancel_order_None[OF None] None])
next
  case (Some loc)
  then obtain n ord where nd: "(n, ord) \<in> set (book_nodes b)" and oid: "order_id ord = oid"
    by (auto simp: book_ok_look_up_iff[OF b] node_loc_def)
  obtain b' where "cancel_order (order_id ord) b = Inr (True, b')" "book_ok b'"
    "cancelled (n, ord) b b'"
    by (rule cancel_order_ok[OF b nd])
  with known[OF nd oid] find_order_eq[OF b nd] oid show ?thesis by simp
qed

section \<open>Modifying\<close>

lemma replacement_simps [simp]:
  "order_type (replacement ord p q) = order_type ord"
  "time_in_force (replacement ord p q) = time_in_force ord"
  "order_id (replacement ord p q) = order_id ord"
  "price (replacement ord p q) = p"
  "initial_quantity (replacement ord p q) = q"
  "remaining_quantity (replacement ord p q) = q"
  "side (replacement ord p q) = side ord"
  "connection_id (replacement ord p q) = connection_id ord"
  "client_order_id (replacement ord p q) = client_order_id ord"
  by (simp_all add: replacement_def)

lemma from_replacement_eq: "0 < q \<Longrightarrow> from_replacement ord p q = Inr (replacement ord p q)"
  by (simp add: from_replacement_def new_Order_def replacement_def)

lemma replacement_side [simp]:
  "own_levels (replacement ord p q) = own_levels ord"
  "counter_levels (replacement ord p q) = counter_levels ord"
  by (simp_all add: fun_eq_iff own_levels_def counter_levels_def is_buy_def)

lemma resting_order_kind:
  assumes "book_ok b" and "(n, ord) \<in> set (book_nodes b)"
  shows "order_type ord = Limit" and "time_in_force ord = GoodTillCancel"
  using assms unfolding book_ok_def book_nodes_def
  by (auto simp: resting_ok_def is_limit_order_def)

lemma replacement_ok: "\<lbrakk> 0 < q; q \<le> i64_max \<rbrakk> \<Longrightarrow> order_ok (replacement ord p q)"
  by (simp add: order_ok_def in_i64_nonneg_iff)

lemma insertable_replacement:
  assumes c: "cancelled (n, ord) b b'" and q: "0 < q" "q \<le> i64_max"
    and rest: "rest_error (replacement ord p q) b' = None"
  shows "insertable (replacement ord p q) b'"
  using cancelled_selectors(6)[OF c] q rest replacement_ok[OF q] by (simp add: insertable_def)

text \<open>A positive price at which the new quantity fits beside the old one is enough.\<close>

lemma rest_error_replacement:
  assumes b: "book_ok b" and nd: "(n, ord) \<in> set (book_nodes b)" and c: "cancelled (n, ord) b b'"
    and b': "book_ok b'"
    and q: "0 < q" and p: "0 < p" "in_i64 (level_quantity b (side ord) p + q)"
  shows "rest_error (replacement ord p q) b' = None"
proof -
  note sel = cancelled_selectors[OF c, simplified]
  have dep: "0 \<le> depth (own_levels ord b') p"
    by (rule depth_nonneg[OF book_ok_levels(2)[OF b']])
  have "order_ok ord"
    using levels_ok_node(1)[OF book_ok_levels(2)[OF b, of ord] own_side_node[OF b nd, simplified]]
    by simp
  then have "0 \<le> remaining_quantity ord" by (rule order_ok_nonneg)
  then have "depth (own_levels ord b') p \<le> depth (own_levels ord b) p"
    by (simp add: sel(7))
  with dep p q have "fits_level (replacement ord p q) b'"
    by (simp add: fits_level_def level_quantity_depth side_levels_own in_i64_def i64_min_def)
  then show ?thesis by (intro rest_error_whole[OF b']) (use p q in simp_all)
qed

text \<open>A modification of a resting order, up to the insertion of its replacement.\<close>

lemma modify_order_steps:
  assumes b: "book_ok b" and nd: "(n, ord) \<in> set (book_nodes b)" and q: "0 < q"
  obtains b1 where "cancel_order (order_id ord) b = Inr (True, b1)"
    and "cancelled (n, ord) b b1" and "book_ok b1"
    and "modify_order (order_id ord) p q b =
      rbind (add_order (replacement ord p q) b1) (\<lambda>(res, b2). Inr (status res \<noteq> Failed, b2))"
proof -
  obtain b1 where c: "cancel_order (order_id ord) b = Inr (True, b1)" "book_ok b1"
    "cancelled (n, ord) b b1"
    by (rule cancel_order_ok[OF b nd])
  from that[OF c(1,3,2)] show ?thesis
    by (simp add: modify_order_def find_order_eq[OF b nd] from_replacement_eq[OF q] c(1))
qed

lemma modify_order_known:
  assumes b: "book_ok b" and nd: "(n, ord) \<in> set (book_nodes b)"
    and q: "0 < q" "q \<le> i64_max"
    and rest: "\<And>b1. \<lbrakk> cancel_order (order_id ord) b = Inr (True, b1); cancelled (n, ord) b b1; book_ok b1 \<rbrakk> \<Longrightarrow>
      rest_error (replacement ord p q) b1 = None"
  obtains b1 res b2 where "cancel_order (order_id ord) b = Inr (True, b1)"
    and "cancelled (n, ord) b b1" and "book_ok b1" and "insertable (replacement ord p q) b1"
    and "add_order (replacement ord p q) b1 = Inr (res, b2)" and "book_ok b2"
    and "modify_order (order_id ord) p q b = Inr (True, b2)"
proof (rule modify_order_steps[OF b nd q(1), of p])
  fix b1
  assume c: "cancel_order (order_id ord) b = Inr (True, b1)" "cancelled (n, ord) b b1" "book_ok b1"
    and m: "modify_order (order_id ord) p q b =
      rbind (add_order (replacement ord p q) b1) (\<lambda>(res, b2). Inr (status res \<noteq> Failed, b2))"
  have ins: "insertable (replacement ord p q) b1"
    by (rule insertable_replacement[OF c(2) q rest[OF c]])
  obtain res b2 where add: "add_order (replacement ord p q) b1 = Inr (res, b2)" "book_ok b2"
    and "status res \<noteq> Failed"
    by (rule add_order_total[OF c(3) ins])
  with that[OF c ins add] m show thesis by simp
qed


section \<open>Every valid message\<close>

definition modify_report :: "ModifyOrder \<Rightarrow> bool \<Rightarrow> PrivateEvent" where
  "modify_report m modified =
     (if modified then OrderModified (mo_id m) (mo_new_price m) (mo_new_quantity m)
      else ModifyRejected (mo_id m) InvalidOrderId)"

definition cancel_report :: "CancelOrder \<Rightarrow> bool \<Rightarrow> PrivateEvent" where
  "cancel_report m done' =
     (if done' then OrderCanceled (co_id m) else CancelRejected (co_id m) InvalidOrderId)"

lemma process_modify_report:
  "modify_order (mo_id m) (mo_new_price m) (mo_new_quantity m) b = Inr (modified, b') \<Longrightarrow>
   process_modify m b =
     Inr (add_private_event (mo_connection_id m) (modify_report m modified) b')"
  by (simp add: process_modify_def modify_report_def)

lemma process_cancel_report:
  "cancel_order (co_id m) b = Inr (ok, b') \<Longrightarrow>
   process_cancel m b = Inr (add_private_event (co_connection_id m) (cancel_report m ok) b')"
  by (simp add: process_cancel_def cancel_report_def)

lemma ids_below_private [simp]: "ids_below (add_private_event c ev b) \<longleftrightarrow> ids_below b"
  by (simp add: ids_below_def)

lemma modify_validD:
  assumes "modify_valid m b" and "order_id ord = mo_id m" and "find_order (mo_id m) b = Inr (Some ord)"
  shows "0 < mo_new_quantity m" and "mo_new_quantity m \<le> i64_max"
    and "cancel_order (order_id ord) b = Inr (True, b1) \<Longrightarrow>
      rest_error (replacement ord (mo_new_price m) (mo_new_quantity m)) b1 = None"
  using assms by (auto simp: message_valid_def modify_error_def in_i64_def split: if_splits)

lemma process_modify_ok:
  assumes b: "book_ok b" and ids: "ids_below b" and valid: "modify_valid m b"
  obtains b' where "process_modify m b = Inr b'" and "book_ok b'" and "ids_below b'"
    and "next_order_id b' = next_order_id b"
proof (cases rule: cancel_order_total[OF b, of "mo_id m"])
  case 1
  then have "modify_order (mo_id m) (mo_new_price m) (mo_new_quantity m) b = Inr (False, b)"
    by (simp add: modify_order_def)
  from that[OF process_modify_report[OF this]] b ids show ?thesis by simp
next
  case (2 n ord b1)
  let ?p = "mo_new_price m" and ?q = "mo_new_quantity m"
  note ok = modify_validD[OF valid 2(2,3)]
  obtain b1 res b2 where c: "cancelled (n, ord) b b1" "book_ok b1"
    and ins: "insertable (replacement ord ?p ?q) b1"
    and add: "add_order (replacement ord ?p ?q) b1 = Inr (res, b2)" and b2: "book_ok b2"
    and res: "modify_order (order_id ord) ?p ?q b = Inr (True, b2)"
    by (rule modify_order_known[OF b 2(1) ok])
  note sel = cancelled_selectors[OF c(1)]
  have ids1: "ids_below b1" by (rule ids_below_mono[OF ids sel(5)]) (simp add: sel(1))
  have "order_id ord < next_order_id b1"
    using ids 2(1) by (auto simp: ids_below_def sel(1))
  then have "ids_below b2" "next_order_id b2 = next_order_id b"
    using add_order_ids_below[OF c(2) ins ids1 _ add] by (simp_all add: sel(1))
  with that[OF process_modify_report[OF res[unfolded 2(2)]]] b2 show ?thesis by simp
qed

lemma process_cancel_ok:
  assumes b: "book_ok b" and ids: "ids_below b"
  obtains b' where "process_cancel m b = Inr b'" and "book_ok b'" and "ids_below b'"
    and "next_order_id b' = next_order_id b"
proof (cases rule: cancel_order_total[OF b, of "co_id m"])
  case 1
  from that[OF process_cancel_report[OF 1(2)]] b ids show ?thesis by simp
next
  case (2 n ord b1)
  note sel = cancelled_selectors[OF 2(6)]
  have "ids_below b1" by (rule ids_below_mono[OF ids sel(5)]) (simp add: sel(1))
  with that[OF process_cancel_report[OF 2(4)]] 2(5) sel(1) show ?thesis by simp
qed

text \<open>
  The id counter is a 64-bit word; one insertion uses one id. \<open>id_room\<close> says that the next id does
  not wrap around.
\<close>

definition id_room :: "OrderBook \<Rightarrow> bool" where
  "id_room b \<longleftrightarrow> next_order_id b \<noteq> - 1"

lemma id_roomI: "unat (next_order_id b) < 2 ^ 64 - 1 \<Longrightarrow> id_room b"
  by (auto simp: id_room_def unsigned_minus_1_eq_mask mask_eq_exp_minus_1)

lemma process_ok:
  assumes b: "book_ok b" "ids_below b" and valid: "message_valid msg b" and room: "id_room b"
  obtains b' where "process msg b = Inr b'" and "book_ok b'" and "ids_below b'"
    and "next_order_id b' = (case msg of Add_msg _ \<Rightarrow> next_order_id b + 1 | _ \<Rightarrow> next_order_id b)"
proof (cases msg)
  case (Add_msg m)
  obtain res b' where "process_add m b =
      Inr (add_private_event (ao_connection_id m) (add_report m (next_order_id b) res) b')"
    and ok: "book_ok b'" "ids_below b'" "next_order_id b' = next_order_id b + 1"
    by (rule process_add_ok[OF b, of m]) (use valid room Add_msg in \<open>simp_all add: id_room_def\<close>)
  then have "process msg b =
      Inr (add_private_event (ao_connection_id m) (add_report m (next_order_id b) res) b')"
    by (simp add: Add_msg)
  from that[OF this] ok Add_msg show ?thesis by simp
next
  case (Modify_msg m)
  obtain b' where "process_modify m b = Inr b'" "book_ok b'" "ids_below b'"
    "next_order_id b' = next_order_id b"
    by (rule process_modify_ok[OF b, of m]) (use valid Modify_msg in simp)
  with that[of b'] Modify_msg show ?thesis by simp
next
  case (Cancel_msg m)
  obtain b' where "process_cancel m b = Inr b'" "book_ok b'" "ids_below b'"
    "next_order_id b' = next_order_id b"
    by (rule process_cancel_ok[OF b, of m])
  with that[of b'] Cancel_msg show ?thesis by simp
qed


section \<open>Every message that is not valid\<close>

lemma process_add_error:
  assumes b: "book_ok b" "ids_below b" and range: "in_i64 (ao_quantity m)" and e: "add_error m b = Some e"
  shows "process_add m b = Inl e"
proof (cases "ao_quantity m \<le> 0")
  case True
  with e show ?thesis by (simp add: process_add_def new_Order_def add_error_def Let_def)
next
  case False
  let ?ord = "order_of_add m (next_order_id b)"
  have q: "0 < ao_quantity m" using False by simp
  have "add_order ?ord (with_next_id b) = Inl e"
    by (rule add_order_fails)
       (use b e q order_of_add_ok[OF range q] order_of_add_new[OF b, of m] in
         \<open>simp_all add: add_error_def\<close>)
  moreover have "new_Order (ao_order_type m) (ao_time_in_force m) (next_order_id b) (ao_price m)
      (ao_quantity m) (ao_side m) (ao_seq m) (ao_connection_id m) (ao_client_order_id m) = Inr ?ord"
    using q by (simp add: new_Order_def order_of_add_def)
  ultimately show ?thesis by (simp add: process_add_def Let_def with_next_id_def)
qed

lemma process_modify_error:
  assumes b: "book_ok b" and range: "in_i64 (mo_new_quantity m)" and e: "modify_error m b = Some e"
  shows "process_modify m b = Inl e"
proof (cases rule: cancel_order_total[OF b, of "mo_id m"])
  case 1
  with e show ?thesis by (simp add: modify_error_def)
next
  case (2 n ord b0)
  let ?p = "mo_new_price m" and ?q = "mo_new_quantity m"
  show ?thesis
  proof (cases "?q \<le> 0")
    case True
    with e 2(3) show ?thesis
      by (simp add: process_modify_def modify_order_def modify_error_def from_replacement_def
          new_Order_def)
  next
    case False
    then have q: "0 < ?q" by simp
    obtain b1 where c: "cancel_order (order_id ord) b = Inr (True, b1)" "cancelled (n, ord) b b1"
      "book_ok b1" and m: "modify_order (order_id ord) ?p ?q b =
        rbind (add_order (replacement ord ?p ?q) b1) (\<lambda>(res, b2). Inr (status res \<noteq> Failed, b2))"
      by (rule modify_order_steps[OF b 2(1) q])
    have "rest_error (replacement ord ?p ?q) b1 = Some e"
      using e q 2(2,3) c(1) by (simp add: modify_error_def)
    moreover have "order_ok (replacement ord ?p ?q)"
      using q in_i64_upper[OF range] by (rule replacement_ok)
    moreover have "order_look_up b1 (order_id (replacement ord ?p ?q)) = None"
      using cancelled_selectors(6)[OF c(2)] by simp
    ultimately have "add_order (replacement ord ?p ?q) b1 = Inl e"
      by (intro add_order_fails[OF c(3)]) (use q in simp_all)
    with m 2(2) show ?thesis by (simp add: process_modify_def)
  qed
qed

lemma process_error:
  "\<lbrakk> book_ok b; ids_below b; quantity_in_type msg; message_error msg b = Some e \<rbrakk> \<Longrightarrow> process msg b = Inl e"
  by (cases msg) (simp_all add: process_add_error process_modify_error)

lemma process_decided:
  assumes "book_ok b" and "ids_below b" and "id_room b" and "quantity_in_type msg"
  shows "process msg b = Inl e \<longleftrightarrow> message_error msg b = Some e"
proof (cases "message_error msg b")
  case None
  then have "message_valid msg b" using assms(4) by (simp add: message_valid_def)
  then obtain b' where "process msg b = Inr b'" by (rule process_ok[OF assms(1,2) _ assms(3)])
  with None show ?thesis by simp
next
  case (Some e')
  with process_error[OF assms(1,2,4) Some] show ?thesis by auto
qed

lemma message_error_cases:
  assumes "book_ok b" and "message_error msg b = Some e"
  shows "e \<in> {Quantity_not_positive, Level_price_not_positive, UB_overflow}"
proof (cases msg)
  case (Modify_msg m)
  show ?thesis
    using assms(2) Modify_msg
    by (cases rule: cancel_order_total[OF assms(1), of "mo_id m"])
       (auto simp: modify_error_def rest_error_def split: if_splits)
qed (use assms in \<open>auto simp: add_error_def rest_error_def split: if_splits\<close>)


section \<open>Reachable books\<close>

inductive engine_step :: "OrderBook \<Rightarrow> Message \<Rightarrow> OrderBook \<Rightarrow> bool" where
  engine_step: "\<lbrakk> message_valid msg b; id_room b; process msg b = Inr b' \<rbrakk> \<Longrightarrow> engine_step b msg b'"

inductive reachable :: "Message list \<Rightarrow> OrderBook \<Rightarrow> bool" where
  start: "reachable [] new_OrderBook"
| step: "\<lbrakk> reachable msgs b; engine_step b msg b' \<rbrakk> \<Longrightarrow> reachable (msgs @ [msg]) b'"

inductive_cases engine_stepE: "engine_step b msg b'"
inductive_simps reachable_snoc: "reachable (msgs @ [msg]) b'"

lemma reachable_inv: "reachable msgs b \<Longrightarrow> book_ok b \<and> ids_below b"
proof (induction rule: reachable.induct)
  case start
  then show ?case by (simp add: new_OrderBook_ok)
next
  case (step msgs b msg b')
  from step.hyps(2) show ?case
  proof (rule engine_stepE)
    assume *: "message_valid msg b" "id_room b" "process msg b = Inr b'"
    show ?thesis
      using process_ok[of b msg] step.IH * by (metis Inr_inject)
  qed
qed

lemma process_all_append:
  "process_all (ms @ ms') b = rbind (process_all ms b) (process_all ms')"
proof (induction ms arbitrary: b)
  case (Cons m ms)
  then show ?case by (cases "process m b") simp_all
qed simp

lemma reachable_process_all: "reachable msgs b \<Longrightarrow> process_all msgs new_OrderBook = Inr b"
proof (induction rule: reachable.induct)
  case (step msgs b msg b')
  then show ?case by (auto simp: process_all_append elim: engine_stepE)
qed simp


text \<open>
  Every run that does not fail is one over valid messages, while the 64 bits of the id counter last:
  the engine fails on every other message.
\<close>

lemma process_all_reachable:
  "\<lbrakk> process_all msgs new_OrderBook = Inr b; \<forall>msg \<in> set msgs. quantity_in_type msg;
     length msgs < 2 ^ 64 - 1 \<rbrakk> \<Longrightarrow>
   reachable msgs b \<and> unat (next_order_id b) \<le> length msgs + 1"
proof (induction msgs arbitrary: b rule: rev_induct)
  case Nil
  then have "b = new_OrderBook" by simp
  moreover have "unat (next_order_id new_OrderBook) \<le> 1" by (simp add: new_OrderBook_def)
  ultimately show ?case using reachable.start by simp
next
  case (snoc msg msgs)
  from snoc.prems(1) obtain b0 where b0: "process_all msgs new_OrderBook = Inr b0" "process msg b0 = Inr b"
    by (auto simp: process_all_append rbind_eq_Inr_iff)
  with snoc have run: "reachable msgs b0" and used: "unat (next_order_id b0) \<le> length msgs + 1" by simp_all
  have ok: "book_ok b0" "ids_below b0" using reachable_inv[OF run] by simp_all
  have below: "unat (next_order_id b0) < 2 ^ 64 - 1" using used snoc.prems(3) by simp
  then have room: "id_room b0" by (rule id_roomI)
  have "message_error msg b0 = None"
    using process_error[OF ok, of msg] b0(2) snoc.prems(2) by (cases "message_error msg b0") auto
  then have valid: "message_valid msg b0" using snoc.prems(2) by (simp add: message_valid_def)
  have "reachable (msgs @ [msg]) b"
    by (rule reachable.step[OF run]) (rule engine_step.intros[OF valid room b0(2)])
  moreover have "unat (next_order_id b) \<le> length (msgs @ [msg]) + 1"
  proof (rule process_ok[OF ok valid room])
    fix b'
    assume "process msg b0 = Inr b'"
      and next_id: "next_order_id b' = (case msg of Add_msg _ \<Rightarrow> next_order_id b0 + 1 | _ \<Rightarrow> next_order_id b0)"
    then have "b' = b" using b0(2) by simp
    moreover have "unat (next_order_id b0 + 1) = unat (next_order_id b0) + 1"
      using below by (subst unat_plus_if_size) (simp add: word_size)
    ultimately show ?thesis using next_id used by (cases msg) simp_all
  qed
  ultimately show ?case by blast
qed

section \<open>Relations between the book before and after a message\<close>

text \<open>
  A message is a sequence of steps: an id is taken, an order is cancelled, an order is inserted, a
  private event is pushed. A transitive relation that holds over each of them holds over a message
  and, from the empty book, over every run.
\<close>

locale book_relation =
  fixes R :: "OrderBook \<Rightarrow> OrderBook \<Rightarrow> bool"
  assumes rel_refl: "R b b"
    and rel_trans: "\<lbrakk> R b b'; R b' b'' \<rbrakk> \<Longrightarrow> R b b''"
    and rel_private: "R b (add_private_event c ev b)"
    and rel_next_id: "R b (with_next_id b)"
    and rel_cancelled: "\<lbrakk> book_ok b; cancelled nd b b'; book_ok b' \<rbrakk> \<Longrightarrow> R b b'"
    and rel_add_order: "\<lbrakk> book_ok b; insertable ord b; add_order ord b = Inr (res, b') \<rbrakk> \<Longrightarrow> R b b'"
begin

lemma add_rel:
  assumes b: "book_ok b" "ids_below b" and valid: "add_valid m b" "next_order_id b \<noteq> - 1"
    and proc: "process_add m b = Inr b'"
  shows "R b b'"
proof -
  obtain res b1 where p: "process_add m b =
      Inr (add_private_event (ao_connection_id m) (add_report m (next_order_id b) res) b1)"
    and add: "add_order (order_of_add m (next_order_id b)) (with_next_id b) = Inr (res, b1)"
    by (rule process_add_ok[OF b valid])
  have "R (with_next_id b) b1"
    by (rule rel_add_order[OF _ insertable_add[OF b valid(1)] add]) (simp add: b)
  then have "R b (add_private_event (ao_connection_id m) (add_report m (next_order_id b) res) b1)"
    by (rule rel_trans[OF rel_next_id rel_trans[OF _ rel_private]])
  with p proc show ?thesis by simp
qed

lemma modify_rel:
  assumes b: "book_ok b" and valid: "modify_valid m b" and proc: "process_modify m b = Inr b'"
  shows "R b b'"
proof (cases rule: cancel_order_total[OF b, of "mo_id m"])
  case 1
  then have "modify_order (mo_id m) (mo_new_price m) (mo_new_quantity m) b = Inr (False, b)"
    by (simp add: modify_order_def)
  from process_modify_report[OF this] proc rel_private show ?thesis by auto
next
  case (2 n ord b0)
  let ?p = "mo_new_price m" and ?q = "mo_new_quantity m"
  note ok = modify_validD[OF valid 2(2,3)]
  obtain b1 res b2 where c: "cancelled (n, ord) b b1" "book_ok b1"
    and ins: "insertable (replacement ord ?p ?q) b1"
    and add: "add_order (replacement ord ?p ?q) b1 = Inr (res, b2)"
    and res: "modify_order (order_id ord) ?p ?q b = Inr (True, b2)"
    by (rule modify_order_known[OF b 2(1) ok])
  have "R b b2"
    by (rule rel_trans[OF rel_cancelled[OF b c] rel_add_order[OF c(2) ins add]])
  with process_modify_report[OF res[unfolded 2(2)]] proc rel_trans[OF _ rel_private]
  show ?thesis by auto
qed

lemma cancel_rel:
  assumes b: "book_ok b" and proc: "process_cancel m b = Inr b'"
  shows "R b b'"
proof (cases rule: cancel_order_total[OF b, of "co_id m"])
  case 1
  from process_cancel_report[OF 1(2)] proc rel_private show ?thesis by auto
next
  case (2 n ord b1)
  from process_cancel_report[OF 2(4)] proc rel_trans[OF rel_cancelled[OF b 2(6,5)] rel_private]
  show ?thesis by simp
qed

lemma process_rel:
  assumes "book_ok b" "ids_below b" and "message_valid msg b" and "id_room b"
    and "process msg b = Inr b'"
  shows "R b b'"
  using assms by (cases msg) (auto simp: id_room_def intro: add_rel modify_rel cancel_rel)

lemma reachable_rel: "reachable msgs b \<Longrightarrow> R new_OrderBook b"
proof (induction rule: reachable.induct)
  case start
  show ?case by (rule rel_refl)
next
  case (step msgs b msg b')
  from step.hyps(2) reachable_inv[OF step.hyps(1)] have "R b b'"
    by (auto elim!: engine_stepE intro: process_rel)
  with step.IH show ?case by (rule rel_trans)
qed

end

end
