(* ===== verification/Market_Data.thy ===== *)
theory Market_Data
  imports Process
begin

text \<open>
  The public event stream of the book as its clients read it: replaying the book updates from an
  empty view gives the depth of both sides, and the trade reports are the trades the book recorded.
\<close>

section \<open>Replaying the stream\<close>

text \<open>
  A view maps a side (\<open>True\<close> for the bids) and a price to the quantity last reported there. A side
  that is not \<open>Buy\<close> is the ask side, as everywhere in the code.
\<close>

type_synonym View = "bool \<Rightarrow> Price \<Rightarrow> Quantity"

fun feed_step :: "Event \<Rightarrow> View \<Rightarrow> View" where
  "feed_step (Public (BookUpdate s p q)) v = v((s = Buy) := (v (s = Buy))(p := q))"
| "feed_step _ v = v"

definition feed :: "Event list \<Rightarrow> View \<Rightarrow> View" where
  "feed evs v = fold feed_step evs v"

definition book_view :: "OrderBook \<Rightarrow> View" where
  "book_view b = (\<lambda>buy. depth (if buy then bids b else asks b))"

definition trade_event :: "Trade \<Rightarrow> PublicEvent" where
  "trade_event t =
     TradeExecuted (info_order_id (buyer t)) (info_order_id (seller t)) (execution_price t)
       (execution_quantity t) (aggressor_side t)"

fun tape :: "Event list \<Rightarrow> PublicEvent list" where
  "tape [] = []"
| "tape (Public (TradeExecuted x y p q s) # evs) = TradeExecuted x y p q s # tape evs"
| "tape (ev # evs) = tape evs"

lemma feed_simps [simp]:
  "feed [] v = v"
  "feed (ev # evs) v = feed evs (feed_step ev v)"
  "feed (evs @ evs') v = feed evs' (feed evs v)"
  by (simp_all add: feed_def)

lemma tape_append [simp]: "tape (evs @ evs') = tape evs @ tape evs'"
  by (induction evs rule: tape.induct) simp_all

lemma book_view_own:
  "book_view b = (\<lambda>buy. depth (if buy = is_buy ord then own_levels ord b else counter_levels ord b))"
  by (auto simp: book_view_def fun_eq_iff own_levels_def counter_levels_def)

section \<open>One step of the book\<close>

text \<open>The events and trades that lead from one book to another account for the change of depth.\<close>

definition tracked :: "OrderBook \<Rightarrow> OrderBook \<Rightarrow> bool" where
  "tracked b b' \<longleftrightarrow>
     (\<exists>evs tds. event_sink b' = event_sink b @ evs \<and> feed evs (book_view b) = book_view b' \<and>
        trades b' = trades b @ tds \<and> tape evs = map trade_event tds)"

lemma trackedI:
  assumes "event_sink b' = event_sink b @ evs" and "feed evs (book_view b) = book_view b'"
    and "trades b' = trades b @ tds" and "tape evs = map trade_event tds"
  shows "tracked b b'"
  using assms unfolding tracked_def by blast

lemma tracked_refl: "tracked b b"
  by (rule trackedI[of _ _ "[]" "[]"]) simp_all

lemma tracked_trans [trans]:
  assumes "tracked b b'" and "tracked b' b''"
  shows "tracked b b''"
proof -
  obtain evs tds evs' tds' where
    "event_sink b' = event_sink b @ evs" "feed evs (book_view b) = book_view b'"
    "trades b' = trades b @ tds" "tape evs = map trade_event tds"
    "event_sink b'' = event_sink b' @ evs'" "feed evs' (book_view b') = book_view b''"
    "trades b'' = trades b' @ tds'" "tape evs' = map trade_event tds'"
    using assms unfolding tracked_def by metis
  then show ?thesis by (intro trackedI[of _ _ "evs @ evs'" "tds @ tds'"]) simp_all
qed

lemma tracked_private: "tracked b (add_private_event c ev b)"
  by (rule trackedI[of _ _ "[Routed c ev]" "[]"]) (simp_all add: book_view_def cong: if_cong)

lemma tracked_next_id: "tracked b (with_next_id b)"
  by (rule trackedI[of _ _ "[]" "[]"]) (simp_all add: book_view_def with_next_id_def cong: if_cong)

lemma fill_view_Cons:
  "fill_view v (f # fs) = fill_view (v(price (fill_maker f) := fill_level_total f)) fs"
  by (simp add: fill_view_def)

lemma feed_fill_events:
  "feed (concat (map (fill_events ord) fs)) v =
     v((\<not> is_buy ord) := fill_view (v (\<not> is_buy ord)) fs)"
proof (induction fs arbitrary: v)
  case Nil
  then show ?case by (simp add: fill_view_def)
next
  case (Cons f fs)
  have "feed (fill_events ord f) v =
      v((\<not> is_buy ord) := (v (\<not> is_buy ord))(price (fill_maker f) := fill_level_total f))"
    by (simp add: fill_events_def Let_def counter_side_def)
  then show ?case
    unfolding list.map concat.simps feed_simps Cons.IH fill_view_Cons
    by (metis fun_upd_same fun_upd_upd)
qed

lemma tape_fill_events:
  "tape (concat (map (fill_events ord) fs)) = map trade_event (map (fill_trade ord) fs)"
  by (induction fs) (simp_all add: fill_events_def trade_event_def Let_def)

lemma depth_absent: "p \<notin> fst ` set ls \<Longrightarrow> depth ls p = 0"
  by (simp add: depth_def map_of_absent)

lemma sweep_view_all:
  assumes "sweep accepts q ls = (fs, q', ls')" and "levels_ok ls" and "distinct (map fst ls)"
  shows "fill_view (depth ls) fs = depth ls'"
proof
  fix p
  have "depth ls p = 0 \<and> depth ls' p = 0" if "p \<notin> fst ` set ls"
    using that sweep_keys_subset[OF assms(1)] by (blast intro: depth_absent)
  then show "fill_view (depth ls) fs p = depth ls' p"
    using sweep_view[OF assms, of "depth ls"] by auto
qed

lemma side_keys_distinct:
  assumes "book_ok b" shows "distinct (map fst (bids b))" and "distinct (map fst (asks b))"
  using assms bid_side.keys_distinct ask_side.keys_distinct
  by (auto simp: book_ok_def side_ok_def)

lemma tracked_sweep:
  assumes sweep: "sweep_book accepts ord b = (fs, q', b')" and b: "book_ok b"
  shows "tracked b b'"
proof -
  obtain ls' where
    sw: "sweep accepts (remaining_quantity ord) (counter_levels ord b) = (fs, q', ls')"
    and b': "b' = set_counter ord ls' (apply_fills ord fs b)"
    by (rule sweep_bookE[OF sweep])
  have "distinct (map fst (counter_levels ord b))"
    using side_keys_distinct[OF b] by (simp add: counter_levels_def)
  then have "fill_view (depth (counter_levels ord b)) fs = depth ls'"
    by (rule sweep_view_all[OF sw book_ok_levels(1)[OF b]])
  then have "feed (concat (map (fill_events ord) fs)) (book_view b) = book_view b'"
    by (auto simp: feed_fill_events book_view_own[of _ ord] b' fun_eq_iff)
  then show ?thesis
    by (intro trackedI[of _ _ "concat (map (fill_events ord) fs)" "map (fill_trade ord) fs"])
       (simp_all add: b' tape_fill_events)
qed

lemma tracked_rested:
  assumes "rested ord b b'" shows "tracked b b'"
proof -
  note sel = rested_selectors[OF assms]
  have "depth (own_levels ord b') = (depth (own_levels ord b))
      (price ord := depth (own_levels ord b) (price ord) + remaining_quantity ord)"
    using assms by (simp add: rested_def)
  then show ?thesis
    by (intro trackedI[OF sel(5) _ _, of "[]"])
       (auto simp: sel(2,3) book_view_own[of _ ord] fun_eq_iff is_buy_def)
qed

lemma tracked_cancelled:
  assumes "cancelled nd b b'" shows "tracked b b'"
proof -
  note sel = cancelled_selectors[OF assms]
  show ?thesis
    by (rule trackedI[OF sel(8) _ _, of "[]"])
       (auto simp: sel(2,4,7) book_view_own[of _ "snd nd"] fun_eq_iff is_buy_def)
qed

lemma tracked_add_order:
  assumes b: "book_ok b" and ord: "insertable ord b" and add: "add_order ord b = Inr (res, b')"
  shows "tracked b b'"
  using b ord
proof (cases rule: add_order_cases)
  case rejected
  with add show ?thesis by (simp add: tracked_refl)
next
  case (swept fs q' b1)
  with add tracked_sweep[OF swept(1) b] show ?thesis by simp
next
  case (rested fs q' b1 b2)
  with add tracked_trans[OF tracked_sweep[OF rested(1) b] tracked_rested[OF rested(6)]]
  show ?thesis by simp
qed

interpretation tracked: book_relation tracked
  by unfold_locales
    (blast intro: tracked_refl tracked_trans tracked_private tracked_next_id tracked_cancelled
      tracked_add_order)+

end
