(* ===== verification/Book_Results.thy ===== *)
theory Book_Results
  imports Market_Data
begin

text \<open>
  The results of the book's operations in the terms of a client: the queue an order trades with, what
  an insertion trades and leaves, the arrival order within a level, and the reports.
\<close>

section \<open>The matching queue\<close>

text \<open>
  The resting orders an incoming order may trade with: those of the other side at an accepted price,
  level by level from the best price and in queue order within a level.
\<close>

definition matching_queue :: "Order \<Rightarrow> OrderBook \<Rightarrow> Order list" where
  "matching_queue ord b =
     map snd (levels_nodes (filter (\<lambda>e. order_accepts ord (fst e)) (counter_levels ord b)))"

lemma limit_accepts_cases:
  "limit_accepts ord = (if is_buy ord then cmp_buy (price ord) else cmp_sell (price ord))"
  by (simp add: fun_eq_iff limit_accepts_def)

lemma accepted_queue:
  assumes "book_ok b"
  shows "accepted_orders (order_accepts ord) (counter_levels ord b) = matching_queue ord b"
proof -
  note side = book_ok_counter[OF assms, of ord]
  show ?thesis
  proof (cases "is_buy ord")
    case True
    with side have "side_ok ask_before (counter_levels ord b)" by (simp add: counter_before_def)
    with True ask_side.accepted_orders_eq[of "counter_levels ord b" "price ord"]
      ask_any.accepted_orders_eq[of "counter_levels ord b"]
    show ?thesis by (simp add: matching_queue_def order_accepts_def limit_accepts_cases)
  next
    case False
    with side have "side_ok bid_before (counter_levels ord b)" by (simp add: counter_before_def)
    with False bid_side.accepted_orders_eq[of "counter_levels ord b" "price ord"]
      bid_any.accepted_orders_eq[of "counter_levels ord b"]
    show ?thesis by (simp add: matching_queue_def order_accepts_def limit_accepts_cases)
  qed
qed

lemma liquidity_queue:
  "\<lbrakk> book_ok b; is_limit_order ord \<rbrakk> \<Longrightarrow> liquidity ord b = orders_quantity (matching_queue ord b)"
  using accepted_queue[of b ord] by (simp add: liquidity_def order_accepts_def)

lemma matching_queue_facts:
  assumes "book_ok b" and "maker \<in> set (matching_queue ord b)"
  shows "order_accepts ord (price maker)" and "0 < remaining_quantity maker"
    and "maker \<in> snd ` set (levels_nodes (counter_levels ord b))"
    and "is_buy maker \<longleftrightarrow> \<not> is_buy ord"
proof -
  note facts = accepted_orders_facts[OF book_ok_levels(1)[OF assms(1)]
      assms(2)[folded accepted_queue[OF assms(1)]]]
  show "order_accepts ord (price maker)" "0 < remaining_quantity maker"
    "maker \<in> snd ` set (levels_nodes (counter_levels ord b))"
    by (fact facts)+
  with assms(1) show "is_buy maker \<longleftrightarrow> \<not> is_buy ord"
    unfolding book_ok_iff[of b ord] by (auto simp: resting_ok_def)
qed

text \<open>The queue is in price priority; orders at the same price keep the order of their level.\<close>

lemma levels_nodes_sorted:
  assumes "levels_ok ls" and "sorted_wrt before (map fst ls)"
  shows "sorted_wrt (\<lambda>x y. price x = price y \<or> before (price x) (price y))
    (map snd (levels_nodes ls))"
  using assms
proof (induction ls)
  case (Cons e ls)
  obtain k lvl where e: "e = (k, lvl)" by (cases e)
  have here: "\<forall>x \<in> set (map snd (orders lvl)). price x = k"
    using Cons.prems(1) e by (auto simp: level_ok_def node_ok_def)
  have later: "\<forall>nd \<in> set (levels_nodes ls). before k (price (snd nd))"
    using Cons.prems levels_ok_node(3)[of ls] by (fastforce simp: e)
  have eq: "price x = price y" if "x \<in> set (map snd (orders lvl))" "y \<in> set (map snd (orders lvl))" for x y
  proof -
    have "price x = k" "price y = k" using here that by (blast dest: bspec)+
    then show ?thesis by simp
  qed
  have level: "sorted_wrt (\<lambda>x y. price x = price y \<or> before (price x) (price y)) (map snd (orders lvl))"
    unfolding sorted_wrt_iff_nth_less by (intro allI impI disjI1 eq nth_mem) linarith+
  have "levels_ok ls" "sorted_wrt before (map fst ls)" using Cons.prems by (simp_all add: e)
  from Cons.IH[OF this] level here later show ?case
    by (auto simp: e sorted_wrt_append)
qed simp

lemma matching_queue_sorted:
  assumes "book_ok b"
  shows "sorted_wrt (\<lambda>x y. price x = price y \<or> counter_before ord (price x) (price y))
    (matching_queue ord b)"
proof -
  let ?ls = "filter (\<lambda>e. order_accepts ord (fst e)) (counter_levels ord b)"
  have "levels_ok ?ls" using book_ok_levels(1)[OF assms, of ord] by (auto simp: levels_ok_def)
  moreover have "sorted_wrt (counter_before ord) (map fst ?ls)"
    using book_ok_counter[OF assms, of ord] sorted_wrt_filter
    by (auto simp: side_ok_def sorted_wrt_map)
  ultimately show ?thesis unfolding matching_queue_def by (rule levels_nodes_sorted)
qed

section \<open>What an insertion does\<close>

text \<open>An unfillable fill-or-kill order and an order that must not rest.\<close>

definition fok_unfillable :: "Order \<Rightarrow> OrderBook \<Rightarrow> bool" where
  "fok_unfillable ord b \<longleftrightarrow> is_limit_order ord \<and> time_in_force ord = FillOrKill \<and>
     orders_quantity (matching_queue ord b) < remaining_quantity ord"

definition may_rest :: "Order \<Rightarrow> bool" where
  "may_rest ord \<longleftrightarrow> is_limit_order ord \<and> time_in_force ord = GoodTillCancel"

text \<open>What is left of an order that is matched: the quantity its queue does not cover.\<close>

definition unmatched :: "Order \<Rightarrow> OrderBook \<Rightarrow> Quantity" where
  "unmatched ord b =
     (if fok_unfillable ord b then remaining_quantity ord
      else max 0 (remaining_quantity ord - orders_quantity (matching_queue ord b)))"

lemma sweep_book_fills:
  assumes "sweep_book (order_accepts ord) ord b = (fs, q', b')" and "book_ok b" and "order_ok ord"
  shows "priority_fills (remaining_quantity ord) (matching_queue ord b) fs q'"
    and "q' = max 0 (remaining_quantity ord - orders_quantity (matching_queue ord b))"
proof -
  obtain ls' where
    "sweep (order_accepts ord) (remaining_quantity ord) (counter_levels ord b) = (fs, q', ls')"
    by (rule sweep_bookE[OF assms(1)])
  from sweep_priority[OF this book_ok_levels(1)[OF assms(2)] order_ok_nonneg[OF assms(3)]]
    sweep_left[OF this book_ok_levels(1)[OF assms(2)] order_ok_nonneg[OF assms(3)]]
  show "priority_fills (remaining_quantity ord) (matching_queue ord b) fs q'"
    "q' = max 0 (remaining_quantity ord - orders_quantity (matching_queue ord b))"
    by (simp_all add: accepted_queue[OF assms(2)])
qed

definition result_status :: "Order \<Rightarrow> OrderBook \<Rightarrow> AddOrderStatus" where
  "result_status ord b =
     (if fok_unfillable ord b then Rejected
      else if unmatched ord b = 0 then FullyFilled
      else if unmatched ord b = remaining_quantity ord
        then (if order_type ord = Market then Rejected else Resting)
      else PartiallyFilled)"

text \<open>
  The whole insertion in one statement: the fills follow the matching queue, the result reports what
  was executed and what is left, and the book rests the remainder of an order that may rest.
\<close>

lemma from_match_filled_result:
  "from_match_filled ot (q - r) r =
     \<lparr>status = (if r = 0 then FullyFilled
        else if r = q then (if ot = Market then Rejected else Resting) else PartiallyFilled),
      res_execution_quantity = q - r, res_remaining_quantity = r\<rparr>"
  by (auto simp: from_match_filled_def)

lemma add_order_result:
  assumes b: "book_ok b" and ord: "insertable ord b"
  obtains fs b1 b' where
    "add_order ord b = Inr
       (\<lparr>status = result_status ord b,
         res_execution_quantity = remaining_quantity ord - unmatched ord b,
         res_remaining_quantity = unmatched ord b\<rparr>, b')"
    "priority_fills (remaining_quantity ord) (matching_queue ord b) fs (unmatched ord b)"
    "if fok_unfillable ord b then fs = [] \<and> b1 = b
     else sweep_book (order_accepts ord) ord b = (fs, unmatched ord b, b1)"
    "if may_rest ord \<and> unmatched ord b \<noteq> 0
     then rested (ord\<lparr>remaining_quantity := unmatched ord b\<rparr>) b1 b' else b' = b1"
    "trades b' = trades b @ map (fill_trade ord) fs"
    "book_ok b1" "book_ok b'"
  using b ord
proof (cases rule: add_order_cases)
  have ok: "order_ok ord" using ord by (simp add: insertable_def)
  {
    case rejected
    then have f: "fok_unfillable ord b"
      using liquidity_queue[OF b] by (simp add: fok_unfillable_def)
    then have u: "unmatched ord b = remaining_quantity ord" by (simp add: unmatched_def)
    show ?thesis
      by (rule that[of b "[]" b])
         (use rejected(4) f u b in \<open>auto simp: result_status_def fok_unfillable_def may_rest_def\<close>)
  next
    case (swept fs q' b1)
    note fills = sweep_book_fills[OF swept(1) b ok]
    have f: "\<not> fok_unfillable ord b"
      using swept(3) fills(2) by (auto simp: fok_unfillable_def)
    then have u: "unmatched ord b = q'" by (simp add: unmatched_def fills(2))
    show ?thesis
      by (rule that[of b1 fs b1])
         (use swept fills(1) f u sweep_book_frame[OF swept(1)] in
           \<open>auto simp: result_status_def from_match_filled_result may_rest_def\<close>)
  next
    case (rested fs q' b1 b')
    note fills = sweep_book_fills[OF rested(1) b ok]
    have f: "\<not> fok_unfillable ord b" using rested(3) by (simp add: fok_unfillable_def)
    then have u: "unmatched ord b = q'" by (simp add: unmatched_def fills(2))
    show ?thesis
      by (rule that[of b' fs b1])
         (use rested fills(1) f u sweep_book_frame[OF rested(1)] rested_selectors[OF rested(6)] in
           \<open>simp_all add: result_status_def from_match_filled_result may_rest_def\<close>)
  }
qed


section \<open>Trades of the fills\<close>

lemma fill_trade_facts:
  assumes b: "book_ok b" and ord: "order_ok ord"
    and fills: "priority_fills (remaining_quantity ord) (matching_queue ord b) fs q'"
    and f: "f \<in> set fs"
  shows "fill_maker f \<in> set (matching_queue ord b)"
    and "execution_price (fill_trade ord f) = price (fill_maker f)"
    and "execution_quantity (fill_trade ord f) = fill_quantity f"
    and "0 < fill_quantity f" and "fill_quantity f \<le> remaining_quantity ord"
    and "aggressor_side (fill_trade ord f) = side ord"
    and "info_order_id (buyer (fill_trade ord f)) =
      (if is_buy ord then order_id ord else order_id (fill_maker f))"
    and "info_order_id (seller (fill_trade ord f)) =
      (if is_buy ord then order_id (fill_maker f) else order_id ord)"
proof -
  have "\<forall>maker \<in> set (matching_queue ord b). 0 < remaining_quantity maker"
    using matching_queue_facts(2)[OF b] by blast
  note facts = priority_fills_facts[OF fills this order_ok_nonneg[OF ord] f]
  show "fill_maker f \<in> set (matching_queue ord b)" "0 < fill_quantity f"
    by (fact facts)+
  show "fill_quantity f \<le> remaining_quantity ord"
    using facts(3) by (simp add: fill_quantity_def)
qed (auto simp: fill_trade_def Trade_from_match_def TradeInfo_of_def fill_quantity_def)

lemma fills_executed:
  assumes "priority_fills q ords fs q'"
  shows "sum_list (map execution_quantity (map (fill_trade ord) fs)) = q - q'"
proof -
  have "execution_quantity (fill_trade ord f) = fill_quantity f" for f
    by (simp add: fill_trade_def Trade_from_match_def fill_quantity_def)
  then show ?thesis by (simp add: comp_def priority_fills_sum[OF assms])
qed

section \<open>The quantity in the book\<close>

definition book_quantity :: "OrderBook \<Rightarrow> Quantity" where
  "book_quantity b = nodes_quantity (book_nodes b)"

lemma nodes_quantity_mset: "nodes_quantity nds = sum_mset (image_mset node_quantity (mset nds))"
  by (simp add: nodes_quantity_def sum_mset_sum_list flip: mset_map)

lemma book_quantity_own:
  "book_quantity b =
     levels_quantity (counter_levels ord b) + levels_quantity (own_levels ord b)"
  by (simp add: book_quantity_def nodes_quantity_mset book_nodes_own[of b ord])

lemma sweep_book_quantity:
  assumes "sweep_book accepts ord b = (fs, q', b')" and "book_ok b" and "order_ok ord"
  shows "book_quantity b' = book_quantity b - (remaining_quantity ord - q')"
proof -
  obtain ls' where
    sw: "sweep accepts (remaining_quantity ord) (counter_levels ord b) = (fs, q', ls')"
    and b': "b' = set_counter ord ls' (apply_fills ord fs b)"
    by (rule sweep_bookE[OF assms(1)])
  from sweep_ok[OF sw book_ok_levels(1)[OF assms(2)] order_ok_nonneg[OF assms(3)]]
  show ?thesis by (simp add: book_quantity_own[of _ ord] b')
qed

lemma rested_quantity:
  assumes "rested ord b b'"
  shows "book_quantity b' = book_quantity b + remaining_quantity ord"
  using assms by (simp add: rested_def book_quantity_def nodes_quantity_mset)

lemma sweep_book_nodes:
  assumes "sweep_book accepts ord b = (fs, q', b')" and "book_ok b" and "order_ok ord"
  shows "fst ` set (book_nodes b') \<subseteq> fst ` set (book_nodes b)"
proof -
  obtain ls' where
    sw: "sweep accepts (remaining_quantity ord) (counter_levels ord b) = (fs, q', ls')"
    and b': "b' = set_counter ord ls' (apply_fills ord fs b)"
    by (rule sweep_bookE[OF assms(1)])
  from sweep_ok[OF sw book_ok_levels(1)[OF assms(2)] order_ok_nonneg[OF assms(3)]]
  show ?thesis by (auto simp: book_nodes_set[of _ ord] b')
qed

section \<open>Arrival order within a level\<close>

text \<open>
  Nodes are numbered in the order they enter the book, so a queue is in arrival order when its node
  numbers increase.
\<close>

definition price_queue :: "Levels \<Rightarrow> Price \<Rightarrow> OrderNode list" where
  "price_queue ls p = filter (\<lambda>nd. price (snd nd) = p) (levels_nodes ls)"

lemma level_queue_filter:
  assumes "levels_ok ls" and "distinct (map fst ls)"
  shows "level_queue ls p = price_queue ls p"
  using assms
proof (induction ls)
  case Nil
  then show ?case by (simp add: level_queue_def price_queue_def)
next
  case (Cons e ls)
  obtain k lvl where e: "e = (k, lvl)" by (cases e)
  have here: "\<And>n x. (n, x) \<in> set (orders lvl) \<Longrightarrow> price x = k"
    using Cons.prems(1) e by (auto simp: level_ok_def node_ok_def)
  have later: "\<And>n x. (n, x) \<in> set (levels_nodes ls) \<Longrightarrow> price x \<noteq> k"
    using Cons.prems levels_ok_node(3)[of ls] by (fastforce simp: e)
  have "filter (\<lambda>nd. price (snd nd) = p) (orders lvl) = (if p = k then orders lvl else [])"
    using here by (auto simp: filter_id_conv filter_empty_conv)
  moreover have "p = k \<Longrightarrow> filter (\<lambda>nd. price (snd nd) = p) (levels_nodes ls) = []"
    using later by (fastforce simp: filter_empty_conv)
  ultimately show ?case
    using Cons by (auto simp: e level_queue_def price_queue_def)
qed

lemma book_level_queue:
  assumes "book_ok b"
  shows "level_queue (own_levels ord b) p = price_queue (own_levels ord b) p"
    and "level_queue (counter_levels ord b) p = price_queue (counter_levels ord b) p"
  using assms side_keys_distinct[OF assms] book_ok_levels[OF assms, of ord]
  by (simp_all add: level_queue_filter own_levels_def counter_levels_def)

definition fifo :: "Levels \<Rightarrow> bool" where
  "fifo ls \<longleftrightarrow> (\<forall>p. sorted_wrt (<) (map fst (price_queue ls p)))"

definition book_fifo :: "OrderBook \<Rightarrow> bool" where
  "book_fifo b \<longleftrightarrow> fifo (bids b) \<and> fifo (asks b)"

lemma book_fifo_own: "book_fifo b \<longleftrightarrow> fifo (own_levels ord b) \<and> fifo (counter_levels ord b)"
  by (auto simp: book_fifo_def own_levels_def counter_levels_def)

lemma filter_node_locs:
  "map fst (filter (\<lambda>nd. price (snd nd) = p) nds) =
     map (\<lambda>x. loc_order_it (snd x)) (filter (\<lambda>x. loc_price (snd x) = p) (node_locs nds))"
  by (induction nds) (simp_all add: node_loc_def)

lemma fifo_suffix:
  assumes "fifo ls" and "node_locs (levels_nodes ls) = pre @ node_locs (levels_nodes ls')"
  shows "fifo ls'"
  using assms by (simp add: fifo_def price_queue_def filter_node_locs sorted_wrt_append)

lemma fifo_remove:
  assumes "fifo ls" and "levels_nodes ls = x @ nd # y" and "levels_nodes ls' = x @ y"
  shows "fifo ls'"
  unfolding fifo_def price_queue_def assms(3)
proof
  fix p
  have "sorted_wrt (<) (map fst (filter (\<lambda>nd. price (snd nd) = p) (x @ nd # y)))"
    using assms(1) unfolding fifo_def price_queue_def assms(2) by blast
  then show "sorted_wrt (<) (map fst (filter (\<lambda>nd. price (snd nd) = p) (x @ y)))"
    by (auto simp: sorted_wrt_append split: if_splits)
qed

lemma fifo_sweep:
  assumes "sweep_book accepts ord b = (fs, q', b')" and "book_fifo b"
  shows "book_fifo b'"
proof -
  obtain ls' where
    sw: "sweep accepts (remaining_quantity ord) (counter_levels ord b) = (fs, q', ls')"
    and b': "b' = set_counter ord ls' (apply_fills ord fs b)"
    by (rule sweep_bookE[OF assms(1)])
  from sweep_removed[OF sw] assms(2) show ?thesis
    by (auto simp: book_fifo_own[of _ ord] b' intro: fifo_suffix)
qed

lemma fifo_cancelled:
  assumes "cancelled nd b b'" and "book_fifo b" shows "book_fifo b'"
proof -
  have "fifo (own_levels (snd nd) b')"
    using assms fifo_remove unfolding cancelled_def Let_def book_fifo_own[of _ "snd nd"] by blast
  with assms(2) cancelled_selectors(4)[OF assms(1)] show ?thesis
    by (simp add: book_fifo_own[of _ "snd nd"])
qed

lemma fifo_rested:
  assumes r: "rested ord b b'" and b: "book_ok b" "book_ok b'" and fifo: "book_fifo b"
  shows "book_fifo b'"
proof -
  have queue: "price_queue (own_levels ord b') = (price_queue (own_levels ord b))
      (price ord := price_queue (own_levels ord b) (price ord) @ [(next_node b, ord)])"
    using r book_level_queue(1)[OF b(1), of ord] book_level_queue(1)[OF b(2), of ord]
    unfolding rested_def by (auto simp: fun_eq_iff)
  have "fst nd < next_node b" if "nd \<in> set (book_nodes b)" for nd
    using book_ok_index[OF b(1)] that by (auto simp: index_ok_def node_loc_def)
  then have "fst nd < next_node b" if "nd \<in> set (price_queue (own_levels ord b) p)" for nd p
    using that by (auto simp: price_queue_def book_nodes_set[of b ord])
  then have "fifo (own_levels ord b')"
    using fifo unfolding fifo_def book_fifo_own[of _ ord] queue
    by (auto simp: sorted_wrt_append)
  with fifo show ?thesis by (simp add: book_fifo_own[of _ ord] rested_selectors(3)[OF r])
qed

lemma fifo_add_order:
  assumes b: "book_ok b" and ord: "insertable ord b" and add: "add_order ord b = Inr (res, b')"
    and fifo: "book_fifo b"
  shows "book_fifo b'"
proof (rule add_order_result[OF b ord])
  fix fs b1 b2
  assume *: "add_order ord b = Inr
       (\<lparr>status = result_status ord b,
         res_execution_quantity = remaining_quantity ord - unmatched ord b,
         res_remaining_quantity = unmatched ord b\<rparr>, b2)"
    "if fok_unfillable ord b then fs = [] \<and> b1 = b
     else sweep_book (order_accepts ord) ord b = (fs, unmatched ord b, b1)"
    "if may_rest ord \<and> unmatched ord b \<noteq> 0
     then rested (ord\<lparr>remaining_quantity := unmatched ord b\<rparr>) b1 b2 else b2 = b1"
    "book_ok b1" "book_ok b2"
  have "book_fifo b1" using *(2) fifo by (auto split: if_splits intro: fifo_sweep)
  with *(3-5) have "book_fifo b2" by (auto split: if_splits intro: fifo_rested)
  with *(1) add show ?thesis by simp
qed


lemma book_fifo_frame: "\<lbrakk> bids b' = bids b; asks b' = asks b \<rbrakk> \<Longrightarrow> book_fifo b' \<longleftrightarrow> book_fifo b"
  by (simp add: book_fifo_def)

interpretation fifo: book_relation "\<lambda>b b'. book_fifo b \<longrightarrow> book_fifo b'"
proof unfold_locales
  show "book_fifo b \<longrightarrow> book_fifo (add_private_event c ev b)" for b c ev
    by (simp add: book_fifo_frame[of "add_private_event c ev b" b])
  show "book_fifo b \<longrightarrow> book_fifo (with_next_id b)" for b
    by (simp add: book_fifo_def with_next_id_def)
qed (blast intro: fifo_cancelled fifo_add_order)+

lemma new_OrderBook_fifo: "book_fifo new_OrderBook"
  by (simp add: book_fifo_def fifo_def price_queue_def new_OrderBook_def)

lemma reachable_fifo: "reachable msgs b \<Longrightarrow> book_fifo b"
  using fifo.reachable_rel new_OrderBook_fifo by blast


section \<open>Cancelling and modifying\<close>

lemma cancelled_nodes:
  assumes "cancelled nd b b'"
  shows "add_mset nd (mset (book_nodes b')) = mset (book_nodes b)"
proof -
  have "add_mset nd (mset (levels_nodes (own_levels (snd nd) b'))) =
      mset (levels_nodes (own_levels (snd nd) b))"
    using assms by (auto simp: cancelled_def Let_def)
  then show ?thesis
    by (simp add: book_nodes_own[of _ "snd nd"] cancelled_selectors(4)[OF assms]
        flip: union_mset_add_mset_right)
qed

lemma cancelled_queue:
  assumes b: "book_ok b" and c: "cancelled nd b b'" and b': "book_ok b'"
  shows "level_queue (own_levels (snd nd) b') p =
    filter (\<lambda>x. fst x \<noteq> fst nd) (level_queue (own_levels (snd nd) b) p)"
proof -
  obtain x y where xy: "levels_nodes (own_levels (snd nd) b) = x @ nd # y"
    "levels_nodes (own_levels (snd nd) b') = x @ y"
    using c by (auto simp: cancelled_def Let_def)
  have "distinct (map fst (levels_nodes (own_levels (snd nd) b)))"
    using book_ok_distinct_nodes[OF b] by (auto simp: book_nodes_def own_levels_def)
  then have "fst nd \<notin> fst ` set x" "fst nd \<notin> fst ` set y" by (auto simp: xy)
  then have "filter (\<lambda>z. fst z \<noteq> fst nd) x = x" "filter (\<lambda>z. fst z \<noteq> fst nd) y = y"
    by (metis (mono_tags, lifting) filter_True image_eqI)+
  then have eq: "filter (\<lambda>z. fst z \<noteq> fst nd) (x @ nd # y) = x @ y" by simp
  have "price_queue (own_levels (snd nd) b') p =
      filter (\<lambda>z. fst z \<noteq> fst nd) (price_queue (own_levels (snd nd) b) p)"
    unfolding price_queue_def xy eq[symmetric] by (simp only: filter_filter conj_commute)
  then show ?thesis by (simp add: book_level_queue[OF b] book_level_queue[OF b'])
qed

lemma matching_queue_frame:
  "counter_levels ord b' = counter_levels ord b \<Longrightarrow> matching_queue ord b' = matching_queue ord b"
  by (simp add: matching_queue_def)

text \<open>An order with nothing to match rests whole; the sweep finds no fills.\<close>

lemma sweep_book_none:
  assumes sweep: "sweep_book (order_accepts ord) ord b = (fs, q', b')" and b: "book_ok b"
    and ok: "order_ok ord" and none: "matching_queue ord b = []"
  shows "fs = []" and "q' = remaining_quantity ord" and "b' = b"
proof -
  note fills = sweep_book_fills[OF sweep b ok, unfolded none]
  show q': "q' = remaining_quantity ord" using fills(2) order_ok_nonneg[OF ok] by simp
  show fs: "fs = []" using fills(1) by (cases fs) auto
  obtain ls' where
    sw: "sweep (order_accepts ord) (remaining_quantity ord) (counter_levels ord b) = (fs, q', ls')"
    and b': "b' = set_counter ord ls' (apply_fills ord fs b)"
    by (rule sweep_bookE[OF sweep])
  have "filter (\<lambda>e. order_accepts ord (fst e)) (counter_levels ord b) = []"
  proof (rule ccontr)
    assume "\<not> ?thesis"
    then obtain e where e: "e \<in> set (counter_levels ord b)" "order_accepts ord (fst e)"
      by (auto simp: filter_empty_conv)
    with book_ok_levels(1)[OF b] have "orders (snd e) \<noteq> []"
      by (auto simp: levels_ok_def level_empty_def)
    with e none show False
      by (force simp: matching_queue_def levels_nodes_def)
  qed
  then have "ls' = counter_levels ord b"
    using sw fs
    by (cases "counter_levels ord b") (auto split: if_splits)
  with fs show "b' = b" by (simp add: b' set_counter_def counter_levels_def)
qed

section \<open>Processing an insertion\<close>

lemma with_next_id_results [simp]:
  "matching_queue ord (with_next_id b) = matching_queue ord b"
  "fok_unfillable ord (with_next_id b) = fok_unfillable ord b"
  "unmatched ord (with_next_id b) = unmatched ord b"
  "result_status ord (with_next_id b) = result_status ord b"
proof -
  show queue: "matching_queue ord (with_next_id b) = matching_queue ord b"
    by (rule matching_queue_frame) simp
  then show fok: "fok_unfillable ord (with_next_id b) = fok_unfillable ord b"
    by (simp add: fok_unfillable_def)
  with queue show "unmatched ord (with_next_id b) = unmatched ord b" by (simp add: unmatched_def)
  with fok show "result_status ord (with_next_id b) = result_status ord b"
    by (simp add: result_status_def)
qed

text \<open>
  The answer to an insertion, from the order and the book it met. What an order that is neither filled nor
  rejected is told depends on its time in force alone, and differently when nothing was executed:
  so not everything that is called rested is in the book.
\<close>

definition answer :: "AddOrder \<Rightarrow> OrderBook \<Rightarrow> PrivateEvent" where
  "answer m b =
     (let oid = next_order_id b; cid = ao_client_order_id m; ord = order_of_add m oid;
          r = unmatched ord b in
      if fok_unfillable ord b \<or> (ao_order_type m = Market \<and> r = ao_quantity m)
        then OrderRejected oid NoLiquidity
      else if r = 0 then OrderFilled oid cid
      else if (if r = ao_quantity m then ao_time_in_force m \<noteq> ImmediateOrCancel
               else ao_time_in_force m = GoodTillCancel)
        then OrderRested oid cid r
      else OrderExpired oid cid)"

lemma process_add_result:
  assumes b: "book_ok b" "ids_below b" and valid: "add_valid m b" and room: "id_room b"
  defines "ord \<equiv> order_of_add m (next_order_id b)"
  obtains res b1 b' where "process (Add_msg m) b = Inr b'"
    and "b' = add_private_event (ao_connection_id m) (add_report m (next_order_id b) res) b1"
    and "add_order ord (with_next_id b) = Inr (res, b1)"
    and "res = \<lparr>status = result_status ord b,
      res_execution_quantity = ao_quantity m - unmatched ord b,
      res_remaining_quantity = unmatched ord b\<rparr>"
    and "book_ok b1" and "book_ok b'" and "insertable ord (with_next_id b)"
proof -
  have room': "next_order_id b \<noteq> - 1" using room by (simp add: id_room_def)
  obtain res b1 where p: "process_add m b =
      Inr (add_private_event (ao_connection_id m) (add_report m (next_order_id b) res) b1)"
    and add: "add_order ord (with_next_id b) = Inr (res, b1)" and b1: "book_ok b1"
    by (rule process_add_ok[OF b valid room']) (simp add: ord_def)
  have ins: "insertable ord (with_next_id b)"
    unfolding ord_def by (rule insertable_add[OF b valid])
  have "book_ok (with_next_id b)" using b by simp
  then obtain fs b2 b3 where "add_order ord (with_next_id b) = Inr
       (\<lparr>status = result_status ord b,
         res_execution_quantity = ao_quantity m - unmatched ord b,
         res_remaining_quantity = unmatched ord b\<rparr>, b3)"
    by (rule add_order_result[OF _ ins]) (simp add: ord_def)
  with that[OF _ refl add _ b1 _ ins] p add b1 show ?thesis by simp
qed

lemma fok_fillable_unmatched:
  "\<lbrakk> is_limit_order ord; time_in_force ord = FillOrKill; \<not> fok_unfillable ord b \<rbrakk> \<Longrightarrow>
   unmatched ord b = 0"
  by (simp add: unmatched_def fok_unfillable_def)

lemma add_report_answer:
  assumes "0 < ao_quantity m"
    and "res = \<lparr>status = result_status (order_of_add m (next_order_id b)) b,
      res_execution_quantity = e, res_remaining_quantity = unmatched (order_of_add m (next_order_id b)) b\<rparr>"
  shows "add_report m (next_order_id b) res = answer m b"
  using assms by (auto simp: add_report_def answer_def result_status_def Let_def)

text \<open>
  Everything an insertion pushes: the events of its fills in turn, the new total of the level it rests
  in, and the answer.
\<close>

definition insertion_events :: "AddOrder \<Rightarrow> OrderBook \<Rightarrow> Fill list \<Rightarrow> OrderBook \<Rightarrow> Event list" where
  "insertion_events m b fs b' =
     (let ord = order_of_add m (next_order_id b) in
      concat (map (fill_events ord) fs) @
      (if may_rest ord \<and> unmatched ord b \<noteq> 0
       then [Public (BookUpdate (ao_side m) (ao_price m) (level_quantity b' (ao_side m) (ao_price m)))] else []) @
      [Routed (ao_connection_id m) (answer m b)])"

lemma sweep_book_events:
  assumes "sweep_book accepts ord b = (fs, q', b')"
  shows "event_sink b' = event_sink b @ concat (map (fill_events ord) fs)"
  by (rule sweep_bookE[OF assms]) simp

lemma process_add_events:
  assumes b: "book_ok b" "ids_below b" and valid: "add_valid m b" and room: "id_room b"
  defines "ord \<equiv> order_of_add m (next_order_id b)"
  obtains b' fs where "process (Add_msg m) b = Inr b'" and "trades b' = trades b @ map (fill_trade ord) fs"
    and "priority_fills (ao_quantity m) (matching_queue ord b) fs (unmatched ord b)"
    and "event_sink b' = event_sink b @ insertion_events m b fs b'"
proof (rule process_add_result[OF b valid room])
  fix res b1 b'
  assume p: "process (Add_msg m) b = Inr b'"
    "b' = add_private_event (ao_connection_id m) (add_report m (next_order_id b) res) b1"
    "add_order (order_of_add m (next_order_id b)) (with_next_id b) = Inr (res, b1)"
    "res = \<lparr>status = result_status (order_of_add m (next_order_id b)) b,
      res_execution_quantity = ao_quantity m - unmatched (order_of_add m (next_order_id b)) b,
      res_remaining_quantity = unmatched (order_of_add m (next_order_id b)) b\<rparr>"
    "insertable (order_of_add m (next_order_id b)) (with_next_id b)"
  have report: "add_report m (next_order_id b) res = answer m b"
    by (rule add_report_answer[OF _ p(4)]) (rule add_validD(1)[OF valid])
  have ok: "book_ok (with_next_id b)" using b by simp
  have size: "remaining_quantity ord = ao_quantity m" by (simp add: ord_def)
  let ?rest = "ord\<lparr>remaining_quantity := unmatched ord b\<rparr>"
  obtain fs b0 b2 where *: "add_order ord (with_next_id b) = Inr
       (\<lparr>status = result_status ord b, res_execution_quantity = ao_quantity m - unmatched ord b,
         res_remaining_quantity = unmatched ord b\<rparr>, b2)"
    "priority_fills (ao_quantity m) (matching_queue ord b) fs (unmatched ord b)"
    "if fok_unfillable ord b then fs = [] \<and> b0 = with_next_id b
     else sweep_book (order_accepts ord) ord (with_next_id b) = (fs, unmatched ord b, b0)"
    "if may_rest ord \<and> unmatched ord b \<noteq> 0 then rested ?rest b0 b2 else b2 = b0"
    "trades b2 = trades b @ map (fill_trade ord) fs"
    by (rule add_order_result[OF ok p(5)[folded ord_def], unfolded with_next_id_results size]) (simp add: that)
  have b2: "b2 = b1" using *(1) p(3) by (simp add: ord_def)
  have swept: "event_sink b0 = event_sink b @ concat (map (fill_events ord) fs)"
    using *(3) by (auto split: if_splits dest: sweep_book_events)
  have "event_sink b1 = event_sink b0 @ (if may_rest ord \<and> unmatched ord b \<noteq> 0
       then [Public (BookUpdate (ao_side m) (ao_price m) (level_quantity b1 (ao_side m) (ao_price m)))] else [])"
  proof (cases "may_rest ord \<and> unmatched ord b \<noteq> 0")
    case True
    then have rested: "rested ?rest b0 b1" using *(4) b2 by simp
    then have "depth (own_levels ?rest b1) (price ?rest) =
        depth (own_levels ?rest b0) (price ?rest) + remaining_quantity ?rest"
      by (simp add: rested_def)
    moreover have "side_levels b1 (ao_side m) = own_levels ?rest b1"
      using side_levels_own[of b1 ?rest] by (simp add: ord_def)
    ultimately show ?thesis
      using rested_selectors(5)[OF rested] True by (simp add: ord_def level_quantity_depth)
  next
    case False
    with *(4) b2 show ?thesis by auto
  qed
  moreover have "level_quantity b' = level_quantity b1"
    by (simp add: fun_eq_iff level_quantity_depth side_levels_def p(2))
  ultimately show thesis
    using that[OF p(1), of fs] *(2,5) b2 p(2) report swept
    by (simp add: insertion_events_def ord_def Let_def)
qed

section \<open>Where an inserted order is found\<close>

lemma add_order_found:
  assumes b: "book_ok b" and ord: "insertable ord b" and add: "add_order ord b = Inr (res, b')"
  shows "find_order (order_id ord) b' =
    Inr (if may_rest ord \<and> unmatched ord b \<noteq> 0
         then Some (ord\<lparr>remaining_quantity := unmatched ord b\<rparr>) else None)"
proof (rule add_order_result[OF b ord])
  fix fs b1 b2
  let ?ord = "ord\<lparr>remaining_quantity := unmatched ord b\<rparr>"
  assume *: "add_order ord b = Inr
       (\<lparr>status = result_status ord b,
         res_execution_quantity = remaining_quantity ord - unmatched ord b,
         res_remaining_quantity = unmatched ord b\<rparr>, b2)"
    "if fok_unfillable ord b then fs = [] \<and> b1 = b
     else sweep_book (order_accepts ord) ord b = (fs, unmatched ord b, b1)"
    "if may_rest ord \<and> unmatched ord b \<noteq> 0 then rested ?ord b1 b2 else b2 = b1"
    "book_ok b1" "book_ok b2"
  have new: "order_look_up b (order_id ord) = None" using ord by (simp add: insertable_def)
  then have none: "order_look_up b1 (order_id ord) = None"
    using *(2) sweep_book_frame(3) by (fastforce simp: restrict_map_def split: if_splits)
  have b': "b' = b2" using *(1) add by simp
  show ?thesis
  proof (cases "may_rest ord \<and> unmatched ord b \<noteq> 0")
    case True
    then have "(next_node b1, ?ord) \<in> set (book_nodes b2)"
      using *(3) rested_selectors(4)[of ?ord b1 b2] by simp
    from find_order_eq[OF *(5) this] True show ?thesis by (simp add: b')
  next
    case False
    then have "b2 = b1" using *(3) by (simp split: if_splits)
    with find_order_None[OF *(4) none] False show ?thesis by (simp add: b')
  qed
qed

lemma find_order_private [simp]: "find_order oid (add_private_event c ev b) = find_order oid b"
  by (simp add: find_order_def deref_order_def cong: option.case_cong)

lemma process_add_found:
  assumes b: "book_ok b" "ids_below b" and valid: "add_valid m b" and room: "id_room b"
    and proc: "process (Add_msg m) b = Inr b'"
  defines "ord \<equiv> order_of_add m (next_order_id b)"
  shows "find_order (next_order_id b) b' =
    Inr (if may_rest ord \<and> unmatched ord b \<noteq> 0
         then Some (ord\<lparr>remaining_quantity := unmatched ord b\<rparr>) else None)"
proof (rule process_add_result[OF b valid room])
  fix res b1 b2
  assume p: "process (Add_msg m) b = Inr b2"
    "b2 = add_private_event (ao_connection_id m) (add_report m (next_order_id b) res) b1"
    "add_order (order_of_add m (next_order_id b)) (with_next_id b) = Inr (res, b1)"
    "insertable (order_of_add m (next_order_id b)) (with_next_id b)"
  have "book_ok (with_next_id b)" by (simp add: b)
  note found = add_order_found[OF this p(4,3), unfolded with_next_id_results order_of_add_simps]
  have "b' = add_private_event (ao_connection_id m) (add_report m (next_order_id b) res) b1"
    using p(1,2) proc by simp
  then show ?thesis unfolding ord_def found[symmetric] by simp
qed

end
