(* ===== verification/Examples.thy ===== *)
theory Examples
  imports Book_Results
begin

text \<open>
  Concrete messages and books, used to instantiate the properties. \<open>demo_book\<close> is what the engine
  computes from three insertions: two asks and a bid.
\<close>

definition gtc_add :: "Side \<Rightarrow> Price \<Rightarrow> Quantity \<Rightarrow> AddOrder" where
  "gtc_add s p q =
     \<lparr>ao_order_type = Limit, ao_time_in_force = GoodTillCancel, ao_client_order_id = 7, ao_price = p,
      ao_quantity = q, ao_side = s, ao_connection_id = 5, ao_seq = 1\<rparr>"

definition demo_msgs :: "Message list" where
  "demo_msgs = [Add_msg (gtc_add Sell 100 5), Add_msg (gtc_add Sell 101 7), Add_msg (gtc_add Buy 99 3)]"

definition demo_order :: "OrderId \<Rightarrow> Side \<Rightarrow> Price \<Rightarrow> Quantity \<Rightarrow> Order" where
  "demo_order i s p q =
     \<lparr>order_type = Limit, time_in_force = GoodTillCancel, order_id = i, price = p,
      initial_quantity = q, remaining_quantity = q, side = s, sequence_number = 1,
      connection_id = 5, client_order_id = 7\<rparr>"

definition demo_location :: "Side \<Rightarrow> Price \<Rightarrow> nat \<Rightarrow> OrderLocation" where
  "demo_location s p n = \<lparr>loc_side = s, loc_price = p, loc_order_it = n\<rparr>"

definition demo_book :: OrderBook where
  "demo_book =
     \<lparr>bids = [(99, \<lparr>level_price = 99, total_quantity = 3, orders = [(2, demo_order 3 Buy 99 3)]\<rparr>)],
      asks =
        [(100, \<lparr>level_price = 100, total_quantity = 5, orders = [(0, demo_order 1 Sell 100 5)]\<rparr>),
         (101, \<lparr>level_price = 101, total_quantity = 7, orders = [(1, demo_order 2 Sell 101 7)]\<rparr>)],
      trades = [],
      order_look_up = [1 \<mapsto> demo_location Sell 100 0, 2 \<mapsto> demo_location Sell 101 1,
        3 \<mapsto> demo_location Buy 99 2],
      next_order_id = 4,
      event_sink =
        [Public (BookUpdate Sell 100 5), Routed 5 (OrderRested 1 7 5),
         Public (BookUpdate Sell 101 7), Routed 5 (OrderRested 2 7 7),
         Public (BookUpdate Buy 99 3), Routed 5 (OrderRested 3 7 3)],
      next_node = 3\<rparr>"

text \<open>The definitions that an evaluation of the book on concrete data unfolds.\<close>

lemmas book_code =
  process_add_def process_modify_def process_cancel_def new_Order_def from_replacement_def
  add_order_def add_limit_order_def add_market_order_def match_order_def match_buy_def match_sell_def
  match_limit_order_against_side_def match_market_order_against_side_def rest_order_def
  add_order_to_side_def levels_try_emplace_def level_add_order_def new_PriceLevel_def
  execute_trade_def Trade_from_match_def TradeInfo_of_def fill_order_def fill_front_order_def
  front_order_def pop_front_order_def erase_order_def level_empty_def is_filled_def is_buy_def
  is_limit_order_def can_fully_fill_def can_fully_fill_against_side_def
  from_match_def from_match_filled_def report_add_def add_private_event_def add_public_event_def
  remove_look_up_def cancel_order_def cancel_order_side_def find_order_def deref_order_def
  modify_order_def book_nodes_def levels_nodes_def levels_put_def levels_erase_def
  cmp_buy_def cmp_sell_def i64_add_def i64_sub_def i64_check_def in_i64_def i64_min_def i64_max_def
  Let_def

lemmas demo_defs =
  demo_msgs_def demo_book_def demo_order_def demo_location_def gtc_add_def new_OrderBook_def

text \<open>Running valid messages, checking each.\<close>

fun run_valid :: "Message list \<Rightarrow> OrderBook \<Rightarrow> OrderBook option" where
  "run_valid [] b = Some b"
| "run_valid (m # ms) b =
     (if message_valid m b \<and> id_room b
      then (case process m b of Inr b' \<Rightarrow> run_valid ms b' | Inl _ \<Rightarrow> None) else None)"

lemma run_valid_reachable:
  "\<lbrakk> run_valid ms b = Some b'; reachable ms0 b \<rbrakk> \<Longrightarrow> reachable (ms0 @ ms) b'"
proof (induction ms arbitrary: b ms0)
  case (Cons m ms)
  then obtain b1 where "message_valid m b" "id_room b" "process m b = Inr b1"
    "run_valid ms b1 = Some b'"
    by (auto split: if_splits sum.splits)
  with Cons.IH[of b1 "ms0 @ [m]"] reachable.step[OF Cons.prems(2) engine_step, of m b1]
  show ?case by simp
qed simp

lemmas validity_code =
  message_valid_def add_error_def modify_error_def rest_error_def unmatched_limit_def liquidity_def
  accepted_orders_def orders_quantity_def limit_accepts_def counter_levels_def own_levels_def
  depth_def order_of_add_def replacement_def id_room_def level_quantity_def side_levels_def

lemma demo_reachable: "reachable demo_msgs demo_book"
proof -
  have "run_valid demo_msgs new_OrderBook = Some demo_book"
    by (simp add: demo_defs book_code validity_code match_levels_loop.simps trade_level_loop.simps
        numeral_2_eq_2[symmetric])
  from run_valid_reachable[OF this reachable.start] show ?thesis by simp
qed

lemma demo_book_ok: "book_ok demo_book" "ids_below demo_book"
  using reachable_inv[OF demo_reachable] by simp_all

end
