(* ===== verification/Book_Properties.thy ===== *)
theory Book_Properties
  imports Examples
begin

text \<open>
  The properties of the order book: well-formedness of every reachable book, price-time priority,
  time in force, conservation, cancelling and modifying, the reports, the depth feed, and what
  happens on the inputs the engine does not check.
\<close>

section \<open>Concrete orders for the witnesses\<close>

text \<open>An incoming buy order; \<open>demo_book\<close> has asks of 5 at 100 and of 7 at 101, and a bid of 3 at 99.\<close>

definition demo_taker :: "OrderType \<Rightarrow> TimeInForce \<Rightarrow> Price \<Rightarrow> Quantity \<Rightarrow> Order" where
  "demo_taker ot tif p q =
     \<lparr>order_type = ot, time_in_force = tif, order_id = 4, price = p,
      initial_quantity = q, remaining_quantity = q, side = Buy, sequence_number = 9,
      connection_id = 6, client_order_id = 8\<rparr>"

lemmas taker_code =
  demo_taker_def demo_defs insertable_def rest_error_def unmatched_limit_def liquidity_def
  accepted_orders_def order_ok_def fits_level_def own_levels_def depth_def
  counter_levels_def matching_queue_def order_accepts_def limit_accepts_def may_rest_def
  unmatched_def fok_unfillable_def orders_quantity_def

lemma demo_insertable:
  "insertable (demo_taker Limit tif 101 8) demo_book"
  "insertable (demo_taker Limit tif 101 20) demo_book"
  "insertable (demo_taker Market tif 0 20) demo_book"
  by (simp_all add: taker_code book_code)

lemma add_order_obtain:
  assumes "book_ok b" and "insertable ord b"
  obtains res b' where "add_order ord b = Inr (res, b')"
  by (rule add_order_total[OF assms])

text \<open>A book after two trades: a buy of 8 at 101 takes the 5 at 100 and 3 of the 7 at 101.\<close>

definition demo_traded :: OrderBook where
  "demo_traded =
     (case process (Add_msg (gtc_add Buy 101 8)) demo_book of Inr b \<Rightarrow> b | Inl _ \<Rightarrow> demo_book)"

lemma demo_traded_run: "run_valid [Add_msg (gtc_add Buy 101 8)] demo_book = Some demo_traded"
  by (simp add: demo_traded_def demo_defs book_code validity_code match_levels_loop.simps
      trade_level_loop.simps)

lemma demo_traded_reachable: "reachable (demo_msgs @ [Add_msg (gtc_add Buy 101 8)]) demo_traded"
  by (rule run_valid_reachable[OF demo_traded_run demo_reachable])

lemma demo_traded_trades: "map execution_price (trades demo_traded) = [100, 101]"
  by (simp add: demo_traded_def demo_defs book_code match_levels_loop.simps trade_level_loop.simps)

section \<open>Reachable books\<close>

text \<open>C1: Every book the engine can reach from the empty book by processing valid messages is
  well-formed: both sides are sorted by price priority without duplicate or empty levels, each level's
  total is the sum of its queue, the id index and the queues agree, only good-till-cancel limit orders
  rest, on their own side, and the sides do not cross; ids are below the id counter and each queue is
  in arrival order.\<close>

theorem reachable_book_ok:
  assumes "reachable msgs b"
  shows "book_ok b \<and> ids_below b \<and> book_fifo b"
  using reachable_inv[OF assms] reachable_fifo[OF assms] by simp

theorem reachable_book_ok_witness:
  "reachable demo_msgs demo_book \<and> book_ok demo_book \<and> ids_below demo_book \<and> book_fifo demo_book"
  using reachable_book_ok[OF demo_reachable] demo_reachable by simp

text \<open>A valid message is processed without an exception and without undefined behaviour, and
  leaves a well-formed book; only an insertion takes an order id.\<close>

theorem valid_message_processed:
  assumes "book_ok b" and "ids_below b" and "message_valid msg b" and "id_room b"
  shows "\<exists>b'. process msg b = Inr b' \<and> book_ok b' \<and> ids_below b' \<and>
    next_order_id b' = (case msg of Add_msg _ \<Rightarrow> next_order_id b + 1 | _ \<Rightarrow> next_order_id b)"
  by (rule process_ok[OF assms]) blast

theorem valid_message_processed_witness:
  "\<exists>b'. process (Add_msg (gtc_add Sell 99 2)) demo_book = Inr b' \<and> book_ok b' \<and> ids_below b' \<and>
     next_order_id b' = next_order_id demo_book + 1"
  using valid_message_processed[OF demo_book_ok, of "Add_msg (gtc_add Sell 99 2)"]
  by (simp add: demo_defs validity_code in_i64_def i64_min_def i64_max_def)

text \<open>In a reachable book the best bid is below the best ask.\<close>

theorem best_bid_below_best_ask:
  assumes "reachable msgs b" and "best_bid b = Inr p" and "best_ask b = Inr q"
  shows "p < q"
proof -
  have b: "book_ok b" using reachable_inv[OF assms(1)] by simp
  obtain e es f fs where "bids b = e # es" "asks b = f # fs"
    "p = level_price (snd e)" "q = level_price (snd f)"
    using assms(2,3) by (auto simp: best_bid_def best_ask_def split: list.splits)
  with b show ?thesis
    by (cases e; cases f) (auto simp: book_ok_def side_ok_def uncrossed_def)
qed

theorem best_bid_below_best_ask_witness:
  "best_bid demo_book = Inr 99 \<and> best_ask demo_book = Inr 100 \<and> (99::int) < 100"
  using best_bid_below_best_ask[OF demo_reachable, of 99 100]
  by (simp add: demo_defs best_bid_def best_ask_def)

text \<open>C3: Replaying the book updates a run pushed, from an empty view, gives the depth of both sides of
  the book: the total quantity of every level, and zero where there is no level.\<close>

theorem depth_feed:
  assumes "reachable msgs b"
  shows "feed (event_sink b) (\<lambda>_ _. 0) = book_view b"
proof -
  have "book_view new_OrderBook = (\<lambda>_ _. 0)"
    by (auto simp: fun_eq_iff book_view_def new_OrderBook_def depth_def)
  with tracked.reachable_rel[OF assms] show ?thesis
    by (auto simp: tracked_def new_OrderBook_def)
qed

theorem depth_feed_witness:
  "feed (event_sink demo_book) (\<lambda>_ _. 0) = book_view demo_book \<and> book_view demo_book False 101 = 7"
proof -
  have "book_view demo_book False 101 = 7"
    by (simp add: book_view_def depth_def demo_book_def)
  with depth_feed[OF demo_reachable] show ?thesis by simp
qed

text \<open>The trade reports a run pushed are, in order, the trades the book recorded.\<close>

theorem trade_tape:
  assumes "reachable msgs b"
  shows "tape (event_sink b) = map trade_event (trades b)"
  using tracked.reachable_rel[OF assms] by (auto simp: tracked_def new_OrderBook_def)

theorem trade_tape_witness:
  "tape (event_sink demo_traded) = map trade_event (trades demo_traded) \<and>
   map execution_price (trades demo_traded) = [100, 101]"
  using trade_tape[OF demo_traded_reachable] demo_traded_trades by simp


section \<open>Inserting an order\<close>

text \<open>C2: Price-time priority. The trades of an insertion are the fills of the matching queue from its
  front: each fill takes the next order of the queue, all but the last are complete, and each starts
  from what the fills before it left. The queue is sorted by price priority.\<close>

theorem price_time_priority:
  assumes b: "book_ok b" and ord: "insertable ord b" and add: "add_order ord b = Inr (res, b')"
  shows "(\<exists>fs. trades b' = trades b @ map (fill_trade ord) fs \<and>
      priority_fills (remaining_quantity ord) (matching_queue ord b) fs (res_remaining_quantity res)) \<and>
    sorted_wrt (\<lambda>x y. price x = price y \<or> counter_before ord (price x) (price y)) (matching_queue ord b)"
  by (rule add_order_result[OF b ord])
     (use add matching_queue_sorted[OF b, of ord] in auto)

theorem price_time_priority_witness:
  "\<exists>res b' fs. add_order (demo_taker Limit GoodTillCancel 101 8) demo_book = Inr (res, b') \<and>
     trades b' = map (fill_trade (demo_taker Limit GoodTillCancel 101 8)) fs \<and>
     priority_fills 8 [demo_order 1 Sell 100 5, demo_order 2 Sell 101 7] fs
       (res_remaining_quantity res)"
proof -
  let ?ord = "demo_taker Limit GoodTillCancel 101 8"
  obtain res b' where add: "add_order ?ord demo_book = Inr (res, b')"
    by (rule add_order_obtain[OF demo_book_ok(1) demo_insertable(1)])
  have "matching_queue ?ord demo_book = [demo_order 1 Sell 100 5, demo_order 2 Sell 101 7]"
    "trades demo_book = []" "remaining_quantity ?ord = 8"
    by (simp_all add: taker_code book_code)
  with price_time_priority[OF demo_book_ok(1) demo_insertable(1) add] add show ?thesis by auto
qed

text \<open>C16: How much an insertion executes: a limit fill-or-kill order that the matching queue cannot
  fill executes nothing; every other order executes as much of its quantity as the queue holds. The
  status says which of the cases it was.\<close>

theorem executed_quantity:
  assumes b: "book_ok b" and ord: "insertable ord b" and add: "add_order ord b = Inr (res, b')"
  shows "res_remaining_quantity res =
      (if fok_unfillable ord b then remaining_quantity ord
       else max 0 (remaining_quantity ord - orders_quantity (matching_queue ord b))) \<and>
    res_execution_quantity res = remaining_quantity ord - res_remaining_quantity res \<and>
    status res =
      (if fok_unfillable ord b then Rejected
       else if res_remaining_quantity res = 0 then FullyFilled
       else if res_execution_quantity res = 0
         then (if order_type ord = Market then Rejected else Resting)
       else PartiallyFilled)"
  by (rule add_order_result[OF b ord])
     (use add in \<open>auto simp: unmatched_def result_status_def\<close>)

theorem executed_quantity_witness:
  "\<exists>res b'. add_order (demo_taker Market ImmediateOrCancel 0 20) demo_book = Inr (res, b') \<and>
     res_execution_quantity res = 12 \<and> res_remaining_quantity res = 8 \<and> status res = PartiallyFilled"
proof -
  let ?ord = "demo_taker Market ImmediateOrCancel 0 20"
  obtain res b' where add: "add_order ?ord demo_book = Inr (res, b')"
    by (rule add_order_obtain[OF demo_book_ok(1) demo_insertable(3)])
  have "\<not> fok_unfillable ?ord demo_book" "orders_quantity (matching_queue ?ord demo_book) = 12"
    "remaining_quantity ?ord = 20"
    by (simp_all add: taker_code book_code)
  with executed_quantity[OF demo_book_ok(1) demo_insertable(3) add] add show ?thesis by auto
qed

text \<open>C22: Every trade of an insertion is between the incoming order and a resting order of the other
  side, at the resting order's price, which the incoming order's limit accepts; the quantity is
  positive, and the buyer is the order on the buy side.\<close>

theorem trade_terms:
  assumes b: "book_ok b" and ord: "insertable ord b" and add: "add_order ord b = Inr (res, b')"
  shows "\<exists>tds. trades b' = trades b @ tds \<and>
    (\<forall>t \<in> set tds. \<exists>maker \<in> set (matching_queue ord b).
       execution_price t = price maker \<and> order_accepts ord (price maker) \<and>
       0 < execution_quantity t \<and> execution_quantity t \<le> remaining_quantity maker \<and>
       execution_quantity t \<le> remaining_quantity ord \<and> aggressor_side t = side ord \<and>
       info_order_id (buyer t) = (if is_buy ord then order_id ord else order_id maker) \<and>
       info_order_id (seller t) = (if is_buy ord then order_id maker else order_id ord))"
proof (rule add_order_result[OF b ord])
  fix fs b1 b2
  assume *: "add_order ord b = Inr
       (\<lparr>status = result_status ord b,
         res_execution_quantity = remaining_quantity ord - unmatched ord b,
         res_remaining_quantity = unmatched ord b\<rparr>, b2)"
    "priority_fills (remaining_quantity ord) (matching_queue ord b) fs (unmatched ord b)"
    "trades b2 = trades b @ map (fill_trade ord) fs"
  have ok: "order_ok ord" using ord by (simp add: insertable_def)
  have "fill_quantity f \<le> remaining_quantity (fill_maker f)" for f by (simp add: fill_quantity_def)
  with fill_trade_facts[OF b ok *(2)] matching_queue_facts(1)[OF b]
  have "\<forall>t \<in> set (map (fill_trade ord) fs). \<exists>maker \<in> set (matching_queue ord b).
       execution_price t = price maker \<and> order_accepts ord (price maker) \<and>
       0 < execution_quantity t \<and> execution_quantity t \<le> remaining_quantity maker \<and>
       execution_quantity t \<le> remaining_quantity ord \<and> aggressor_side t = side ord \<and>
       info_order_id (buyer t) = (if is_buy ord then order_id ord else order_id maker) \<and>
       info_order_id (seller t) = (if is_buy ord then order_id maker else order_id ord)"
    by auto
  with * add show ?thesis by (metis Inr_inject Pair_inject)
qed

theorem trade_terms_witness:
  "\<exists>res b' tds. add_order (demo_taker Limit ImmediateOrCancel 101 8) demo_book = Inr (res, b') \<and>
     trades b' = tds \<and> (\<forall>t \<in> set tds. execution_price t \<in> {100, 101} \<and> info_order_id (buyer t) = 4)"
proof -
  let ?ord = "demo_taker Limit ImmediateOrCancel 101 8"
  obtain res b' where add: "add_order ?ord demo_book = Inr (res, b')"
    by (rule add_order_obtain[OF demo_book_ok(1) demo_insertable(1)])
  have "matching_queue ?ord demo_book = [demo_order 1 Sell 100 5, demo_order 2 Sell 101 7]"
    "trades demo_book = []" "is_buy ?ord" "order_id ?ord = 4"
    by (simp_all add: taker_code book_code)
  moreover have "price (demo_order i s p q) = p" for i s p q by (simp add: demo_order_def)
  ultimately show ?thesis
    using trade_terms[OF demo_book_ok(1) demo_insertable(1) add] add by fastforce
qed


text \<open>C17: A limit fill-or-kill order is filled completely when the orders at accepted prices hold its
  quantity; otherwise it is rejected and the book, its events and its trades are unchanged.\<close>

theorem fill_or_kill:
  assumes b: "book_ok b" and ord: "insertable ord b"
    and fok: "is_limit_order ord" "time_in_force ord = FillOrKill"
    and add: "add_order ord b = Inr (res, b')"
  shows "if remaining_quantity ord \<le> orders_quantity (matching_queue ord b)
    then status res = FullyFilled \<and> res_execution_quantity res = remaining_quantity ord
    else status res = Rejected \<and> res_execution_quantity res = 0 \<and> b' = b"
proof -
  have pos: "0 < remaining_quantity ord" using ord by (simp add: insertable_def)
  show ?thesis
    by (rule add_order_result[OF b ord])
       (use add fok pos in \<open>auto simp: unmatched_def result_status_def fok_unfillable_def may_rest_def
          split: if_splits\<close>)
qed

theorem fill_or_kill_witness:
  "(\<exists>res b'. add_order (demo_taker Limit FillOrKill 101 20) demo_book = Inr (res, b') \<and>
     status res = Rejected \<and> b' = demo_book) \<and>
   (\<exists>res b'. add_order (demo_taker Limit FillOrKill 101 8) demo_book = Inr (res, b') \<and>
     status res = FullyFilled)"
proof -
  let ?x = "demo_taker Limit FillOrKill 101 20" and ?y = "demo_taker Limit FillOrKill 101 8"
  have kind: "is_limit_order (demo_taker Limit FillOrKill 101 q)"
    "time_in_force (demo_taker Limit FillOrKill 101 q) = FillOrKill" for q
    by (simp_all add: demo_taker_def is_limit_order_def)
  have q: "orders_quantity (matching_queue ?x demo_book) = 12" "remaining_quantity ?x = 20"
    "orders_quantity (matching_queue ?y demo_book) = 12" "remaining_quantity ?y = 8"
    by (simp_all add: taker_code book_code)
  obtain rx bx where x: "add_order ?x demo_book = Inr (rx, bx)"
    by (rule add_order_obtain[OF demo_book_ok(1) demo_insertable(2)])
  obtain ry by' where y: "add_order ?y demo_book = Inr (ry, by')"
    by (rule add_order_obtain[OF demo_book_ok(1) demo_insertable(1)])
  from fill_or_kill[OF demo_book_ok(1) demo_insertable(2) kind x]
    fill_or_kill[OF demo_book_ok(1) demo_insertable(1) kind y] x y q
  show ?thesis by simp
qed

text \<open>An order that is not a good-till-cancel limit order never rests: it does not enter either
  side or the index, its own side is unchanged, and no list node is allocated.\<close>

theorem only_limit_gtc_rests:
  assumes b: "book_ok b" and ord: "insertable ord b" and add: "add_order ord b = Inr (res, b')"
    and kind: "order_type ord \<noteq> Limit \<or> time_in_force ord \<noteq> GoodTillCancel"
  shows "order_look_up b' (order_id ord) = None \<and> own_levels ord b' = own_levels ord b \<and>
    next_node b' = next_node b \<and> fst ` set (book_nodes b') \<subseteq> fst ` set (book_nodes b)"
proof (rule add_order_result[OF b ord])
  fix fs b1 b2
  assume *: "add_order ord b = Inr
       (\<lparr>status = result_status ord b,
         res_execution_quantity = remaining_quantity ord - unmatched ord b,
         res_remaining_quantity = unmatched ord b\<rparr>, b2)"
    "if fok_unfillable ord b then fs = [] \<and> b1 = b
     else sweep_book (order_accepts ord) ord b = (fs, unmatched ord b, b1)"
    "if may_rest ord \<and> unmatched ord b \<noteq> 0
     then rested (ord\<lparr>remaining_quantity := unmatched ord b\<rparr>) b1 b2 else b2 = b1"
  have new: "order_look_up b (order_id ord) = None" and ok: "order_ok ord"
    using ord by (simp_all add: insertable_def)
  have "b' = b1" using kind * add by (auto simp: may_rest_def is_limit_order_def)
  moreover have "order_look_up b1 (order_id ord) = None \<and> own_levels ord b1 = own_levels ord b \<and>
      next_node b1 = next_node b \<and> fst ` set (book_nodes b1) \<subseteq> fst ` set (book_nodes b)"
  proof (cases "fok_unfillable ord b")
    case True
    with *(2) new show ?thesis by simp
  next
    case False
    with *(2) have sweep: "sweep_book (order_accepts ord) ord b = (fs, unmatched ord b, b1)" by simp
    from new sweep_book_frame[OF sweep] sweep_book_own[OF sweep] sweep_book_nodes[OF sweep b ok]
    show ?thesis by (simp add: restrict_map_def)
  qed
  ultimately show ?thesis by simp
qed

theorem only_limit_gtc_rests_witness:
  "\<exists>res b'. add_order (demo_taker Market GoodTillCancel 0 20) demo_book = Inr (res, b') \<and>
     order_look_up b' 4 = None \<and> next_node b' = 3"
proof -
  let ?ord = "demo_taker Market GoodTillCancel 0 20"
  obtain res b' where add: "add_order ?ord demo_book = Inr (res, b')"
    by (rule add_order_obtain[OF demo_book_ok(1) demo_insertable(3)])
  have "order_type ?ord \<noteq> Limit" "order_id ?ord = 4" "next_node demo_book = 3"
    by (simp_all add: demo_taker_def demo_book_def)
  with only_limit_gtc_rests[OF demo_book_ok(1) demo_insertable(3) add] add show ?thesis by auto
qed

text \<open>C18: What matching leaves of a good-till-cancel limit order rests on its own side as the last
  order of the queue at its price, under a new node; the other queues of its side are unchanged and
  the index finds it.\<close>

theorem remainder_rests_last:
  assumes b: "book_ok b" and ord: "insertable ord b" and add: "add_order ord b = Inr (res, b')"
    and kind: "order_type ord = Limit" "time_in_force ord = GoodTillCancel"
    and left: "res_remaining_quantity res \<noteq> 0"
  shows "level_queue (own_levels ord b') = (level_queue (own_levels ord b))
      (price ord := level_queue (own_levels ord b) (price ord) @
        [(next_node b, ord\<lparr>remaining_quantity := res_remaining_quantity res\<rparr>)]) \<and>
    next_node b' = next_node b + 1 \<and>
    find_order (order_id ord) b' = Inr (Some (ord\<lparr>remaining_quantity := res_remaining_quantity res\<rparr>))"
proof (rule add_order_result[OF b ord])
  fix fs b1 b2
  assume *: "add_order ord b = Inr
       (\<lparr>status = result_status ord b,
         res_execution_quantity = remaining_quantity ord - unmatched ord b,
         res_remaining_quantity = unmatched ord b\<rparr>, b2)"
    "if fok_unfillable ord b then fs = [] \<and> b1 = b
     else sweep_book (order_accepts ord) ord b = (fs, unmatched ord b, b1)"
    "if may_rest ord \<and> unmatched ord b \<noteq> 0
     then rested (ord\<lparr>remaining_quantity := unmatched ord b\<rparr>) b1 b2 else b2 = b1"
    "book_ok b2"
  let ?ord = "ord\<lparr>remaining_quantity := unmatched ord b\<rparr>"
  have b': "b' = b2" and r: "res_remaining_quantity res = unmatched ord b" using *(1) add by auto
  have sweep: "sweep_book (order_accepts ord) ord b = (fs, unmatched ord b, b1)"
    using *(2) kind by (simp add: fok_unfillable_def)
  have rest: "rested ?ord b1 b2"
    using *(3) kind left r by (simp add: may_rest_def is_limit_order_def)
  have "(next_node b1, ?ord) \<in> set (book_nodes b2)" using rested_selectors(4)[OF rest] by simp
  from find_order_eq[OF *(4) this]
  have find: "find_order (order_id ord) b2 = Inr (Some ?ord)" by simp
  have "next_node b2 = next_node b1 + 1" using rest by (auto simp: rested_def)
  moreover have "level_queue (own_levels ord b2) = (level_queue (own_levels ord b1))
      (price ord := level_queue (own_levels ord b1) (price ord) @ [(next_node b1, ?ord)])"
    using rest by (simp add: rested_def)
  ultimately show ?thesis
    using find sweep_book_own[OF sweep] sweep_book_frame(2)[OF sweep] by (simp add: b' r)
qed

theorem remainder_rests_last_witness:
  "\<exists>res b'. add_order (demo_taker Limit GoodTillCancel 101 20) demo_book = Inr (res, b') \<and>
     level_queue (bids b') 101 =
       [(3, (demo_taker Limit GoodTillCancel 101 20)\<lparr>remaining_quantity := 8\<rparr>)]"
proof -
  let ?ord = "demo_taker Limit GoodTillCancel 101 20"
  obtain fs b1 b' where add: "add_order ?ord demo_book = Inr (\<lparr>status = result_status ?ord demo_book,
         res_execution_quantity = remaining_quantity ?ord - unmatched ?ord demo_book,
         res_remaining_quantity = unmatched ?ord demo_book\<rparr>, b')"
    by (rule add_order_result[OF demo_book_ok(1) demo_insertable(2)])
  have "unmatched ?ord demo_book = 8" "order_type ?ord = Limit" "time_in_force ?ord = GoodTillCancel"
    "next_node demo_book = 3" "price ?ord = 101" "own_levels ?ord = bids"
    "level_queue (bids demo_book) 101 = []"
    by (simp_all add: taker_code book_code level_queue_def fun_eq_iff)
  with remainder_rests_last[OF demo_book_ok(1) demo_insertable(2) add] add show ?thesis by auto
qed

text \<open>C19: Conservation of quantity. The new trades execute exactly what the result says, the executed
  and the remaining quantity make up the order, and the quantity in the book changes by what rests
  less what was executed.\<close>

theorem quantity_conserved:
  assumes b: "book_ok b" and ord: "insertable ord b" and add: "add_order ord b = Inr (res, b')"
  shows "\<exists>tds. trades b' = trades b @ tds \<and>
    sum_list (map execution_quantity tds) = res_execution_quantity res \<and>
    res_execution_quantity res + res_remaining_quantity res = remaining_quantity ord \<and>
    book_quantity b' = book_quantity b - res_execution_quantity res +
      (if may_rest ord then res_remaining_quantity res else 0)"
proof (rule add_order_result[OF b ord])
  fix fs b1 b2
  assume *: "add_order ord b = Inr
       (\<lparr>status = result_status ord b,
         res_execution_quantity = remaining_quantity ord - unmatched ord b,
         res_remaining_quantity = unmatched ord b\<rparr>, b2)"
    "priority_fills (remaining_quantity ord) (matching_queue ord b) fs (unmatched ord b)"
    "if fok_unfillable ord b then fs = [] \<and> b1 = b
     else sweep_book (order_accepts ord) ord b = (fs, unmatched ord b, b1)"
    "if may_rest ord \<and> unmatched ord b \<noteq> 0
     then rested (ord\<lparr>remaining_quantity := unmatched ord b\<rparr>) b1 b2 else b2 = b1"
    "trades b2 = trades b @ map (fill_trade ord) fs"
  have ok: "order_ok ord" using ord by (simp add: insertable_def)
  have "book_quantity b1 = book_quantity b - (remaining_quantity ord - unmatched ord b)"
  proof (cases "fok_unfillable ord b")
    case True
    with *(3) show ?thesis by (simp add: unmatched_def)
  next
    case False
    with *(3) show ?thesis by (simp add: sweep_book_quantity[OF _ b ok])
  qed
  moreover have "book_quantity b2 = book_quantity b1 + (if may_rest ord then unmatched ord b else 0)"
    using *(4) rested_quantity by (fastforce split: if_splits)
  moreover note fills_executed[OF *(2), of ord]
  ultimately show ?thesis
    using *(1,5) add by (intro exI[of _ "map (fill_trade ord) fs"]) (auto simp del: map_map)
qed

theorem quantity_conserved_witness:
  "\<exists>res b'. add_order (demo_taker Limit GoodTillCancel 101 20) demo_book = Inr (res, b') \<and>
     sum_list (map execution_quantity (trades b')) = res_execution_quantity res \<and>
     book_quantity b' = 15 - res_execution_quantity res + res_remaining_quantity res"
proof -
  let ?ord = "demo_taker Limit GoodTillCancel 101 20"
  obtain res b' where add: "add_order ?ord demo_book = Inr (res, b')"
    by (rule add_order_obtain[OF demo_book_ok(1) demo_insertable(2)])
  have "may_rest ?ord" "book_quantity demo_book = 15" "trades demo_book = []"
    by (simp_all add: taker_code book_code book_quantity_def nodes_quantity_def)
  with quantity_conserved[OF demo_book_ok(1) demo_insertable(2) add] add show ?thesis by auto
qed

end
