(* ===== verification/Book_Client.thy ===== *)
theory Book_Client
  imports Book_Properties
begin

text \<open>
  The properties of the order book a client relies on when it cancels, modifies and reads its reports,
  and the inputs the engine accepts from a client but does not survive.
\<close>

section \<open>Cancelling\<close>

text \<open>C20: Cancelling a resting order succeeds and removes exactly that order: its node leaves the
  book and every other node stays, the index no longer finds it, the depth at its price falls by what
  it had left, no trade is made, and the one event pushed reports the new depth.\<close>

theorem cancel_exact:
  assumes b: "book_ok b" and nd: "(n, ord) \<in> set (book_nodes b)"
  shows "\<exists>b'. cancel_order (order_id ord) b = Inr (True, b') \<and> book_ok b' \<and>
    add_mset (n, ord) (mset (book_nodes b')) = mset (book_nodes b) \<and>
    find_order (order_id ord) b' = Inr None \<and> trades b' = trades b \<and>
    event_sink b' = event_sink b @ [Public (BookUpdate (side ord) (price ord)
      (level_quantity b (side ord) (price ord) - remaining_quantity ord))] \<and>
    level_quantity b' (side ord) (price ord) =
      level_quantity b (side ord) (price ord) - remaining_quantity ord"
proof -
  obtain b' where *: "cancel_order (order_id ord) b = Inr (True, b')" "book_ok b'"
    "cancelled (n, ord) b b'"
    by (rule cancel_order_ok[OF b nd])
  note sel = cancelled_selectors[OF *(3), simplified]
  have "order_look_up b' (order_id ord) = None" by (simp add: sel(6))
  with * cancelled_nodes[OF *(3)] sel find_order_None[OF *(2)] show ?thesis
    by (auto simp: level_quantity_depth side_levels_own)
qed

theorem cancel_exact_witness:
  "\<exists>b'. cancel_order 1 demo_book = Inr (True, b') \<and> find_order 1 b' = Inr None \<and>
     level_quantity b' Sell 100 = 0"
proof -
  have "(0, demo_order 1 Sell 100 5) \<in> set (book_nodes demo_book)"
    "level_quantity demo_book Sell 100 = 5"
    by (simp_all add: demo_defs book_nodes_def levels_nodes_def level_quantity_def side_levels_def)
  from cancel_exact[OF demo_book_ok(1) this(1)] this(2) show ?thesis by (auto simp: demo_order_def)
qed

text \<open>Cancelling or modifying an id that no resting order has changes nothing but the event stream:
  the client's connection gets one rejection with the reason \<open>InvalidOrderId\<close>.\<close>

theorem unknown_id_rejected:
  assumes b: "book_ok b" and c: "\<forall>nd \<in> set (book_nodes b). order_id (snd nd) \<noteq> co_id c"
    and m: "\<forall>nd \<in> set (book_nodes b). order_id (snd nd) \<noteq> mo_id m"
  shows "process (Cancel_msg c) b =
      Inr (b\<lparr>event_sink := event_sink b @
        [Routed (co_connection_id c) (CancelRejected (co_id c) InvalidOrderId)]\<rparr>) \<and>
    process (Modify_msg m) b =
      Inr (b\<lparr>event_sink := event_sink b @
        [Routed (mo_connection_id m) (ModifyRejected (mo_id m) InvalidOrderId)]\<rparr>)"
proof -
  have "order_look_up b (co_id c) = None" "order_look_up b (mo_id m) = None"
    using c m by (simp_all add: book_ok_look_up_None[OF b])
  then show ?thesis
    by (simp add: process_cancel_def process_modify_def cancel_order_def modify_order_def
        find_order_None[OF b] add_private_event_def)
qed

theorem unknown_id_rejected_witness:
  "process (Cancel_msg \<lparr>co_id = 9, co_connection_id = 5, co_seq = 0\<rparr>) demo_book =
     Inr (demo_book\<lparr>event_sink := event_sink demo_book @
       [Routed 5 (CancelRejected 9 InvalidOrderId)]\<rparr>)"
  using unknown_id_rejected[OF demo_book_ok(1), of "\<lparr>co_id = 9, co_connection_id = 5, co_seq = 0\<rparr>"
      "\<lparr>mo_id = 9, mo_new_price = 1, mo_new_quantity = 1, mo_connection_id = 5, mo_seq = 0\<rparr>"]
  by (simp add: demo_defs book_nodes_def levels_nodes_def)

section \<open>Modifying\<close>

text \<open>C25: Modifying a resting order is cancelling it and inserting its replacement under the same id,
  at every price and for every positive quantity: the modification reports success and leaves the book
  that the two operations leave, whatever the replacement trades, and it ends in an exception exactly
  when the insertion does, the old order being cancelled by then.\<close>

theorem modify_is_cancel_and_add:
  assumes b: "book_ok b" and nd: "(n, ord) \<in> set (book_nodes b)" and q: "0 < q" "q \<le> i64_max"
  shows "\<exists>b1. cancel_order (order_id ord) b = Inr (True, b1) \<and> book_ok b1 \<and>
    modify_order (order_id ord) p q b =
      rbind (add_order (ord\<lparr>price := p, initial_quantity := q, remaining_quantity := q\<rparr>) b1)
        (\<lambda>(_, b2). Inr (True, b2))"
proof (rule modify_order_steps[OF b nd q(1), of p])
  fix b1
  assume c: "cancel_order (order_id ord) b = Inr (True, b1)" "cancelled (n, ord) b b1" "book_ok b1"
    and m: "modify_order (order_id ord) p q b =
      rbind (add_order (replacement ord p q) b1) (\<lambda>(res, b2). Inr (status res \<noteq> Failed, b2))"
  have "rbind (add_order (replacement ord p q) b1) (\<lambda>(res, b2). Inr (status res \<noteq> Failed, b2)) =
      rbind (add_order (replacement ord p q) b1) (\<lambda>(_, b2). Inr (True, b2))"
  proof (cases "rest_error (replacement ord p q) b1")
    case None
    obtain res b2 where "add_order (replacement ord p q) b1 = Inr (res, b2)" "status res \<noteq> Failed"
      by (rule add_order_total[OF c(3) insertable_replacement[OF c(2) q None]])
    then show ?thesis by simp
  next
    case (Some e)
    have "add_order (replacement ord p q) b1 = Inl e"
      by (rule add_order_fails[OF c(3) replacement_ok[OF q] _ _ Some])
         (use q cancelled_selectors(6)[OF c(2)] in simp_all)
    then show ?thesis by simp
  qed
  with c m show ?thesis by (auto simp: replacement_def)
qed

theorem modify_is_cancel_and_add_witness:
  "\<exists>b1. cancel_order 3 demo_book = Inr (True, b1) \<and> book_ok b1 \<and>
     modify_order 3 100 4 demo_book =
       rbind (add_order (demo_order 3 Buy 100 4) b1) (\<lambda>(_, b2). Inr (True, b2))"
proof -
  have *: "(2, demo_order 3 Buy 99 3) \<in> set (book_nodes demo_book)"
    by (simp add: demo_defs book_nodes_def levels_nodes_def)
  have "(demo_order 3 Buy 99 3)\<lparr>price := 100, initial_quantity := 4, remaining_quantity := 4\<rparr> =
      demo_order 3 Buy 100 4" "order_id (demo_order 3 Buy 99 3) = 3"
    by (simp_all add: demo_order_def)
  with modify_is_cancel_and_add[OF demo_book_ok(1) *, of 4 100] show ?thesis
    by (simp add: i64_max_def)
qed

text \<open>An order that finds nothing to trade with only rests.\<close>

lemma add_order_only_rests:
  assumes b: "book_ok b" and ins: "insertable ord b" and none: "matching_queue ord b = []"
    and may: "may_rest ord" "time_in_force ord = GoodTillCancel" and add: "add_order ord b = Inr (res, b2)"
  shows "rested ord b b2"
proof -
  have ok: "order_ok ord" "0 < remaining_quantity ord" using ins by (simp_all add: insertable_def)
  have whole: "\<not> fok_unfillable ord b" "unmatched ord b = remaining_quantity ord"
    using ok(2) by (simp_all add: fok_unfillable_def may(2) unmatched_def none)
  obtain fs b0 where sweep: "sweep_book (order_accepts ord) ord b = (fs, remaining_quantity ord, b0)"
    and rest: "rested (ord\<lparr>remaining_quantity := remaining_quantity ord\<rparr>) b0 b2"
  proof (rule add_order_result[OF b ins])
    fix fs b0 b3
    assume "add_order ord b = Inr (\<lparr>status = result_status ord b,
         res_execution_quantity = remaining_quantity ord - unmatched ord b,
         res_remaining_quantity = unmatched ord b\<rparr>, b3)"
      "if fok_unfillable ord b then fs = [] \<and> b0 = b
       else sweep_book (order_accepts ord) ord b = (fs, unmatched ord b, b0)"
      "if may_rest ord \<and> unmatched ord b \<noteq> 0
       then rested (ord\<lparr>remaining_quantity := unmatched ord b\<rparr>) b0 b3 else b3 = b0"
    with that[of fs b0] add may(1) ok(2) whole show thesis by simp
  qed
  with sweep_book_none(3)[OF sweep b ok(1) none] show ?thesis by simp
qed

text \<open>C21: A modification that does not trade loses time priority: the order leaves its place and the
  replacement is the last of the queue at the new price, even if the price is the old one and the
  quantity is smaller. Every other order of the side keeps its place.\<close>

theorem modify_loses_priority:
  assumes b: "book_ok b" and nd: "(n, ord) \<in> set (book_nodes b)"
    and q: "0 < q" "q \<le> i64_max" and p: "0 < p" "in_i64 (level_quantity b (side ord) p + q)"
    and none: "matching_queue (ord\<lparr>price := p, initial_quantity := q, remaining_quantity := q\<rparr>) b = []"
  shows "\<exists>b'. modify_order (order_id ord) p q b = Inr (True, b') \<and> trades b' = trades b \<and>
    (\<forall>p'. level_queue (own_levels ord b') p' =
       filter (\<lambda>x. fst x \<noteq> n) (level_queue (own_levels ord b) p') @
       (if p' = p
        then [(next_node b, ord\<lparr>price := p, initial_quantity := q, remaining_quantity := q\<rparr>)] else []))"
proof -
  define ord' where "ord' = replacement ord p q"
  obtain b1 res b2 where c: "cancelled (n, ord) b b1" "book_ok b1" and ins: "insertable ord' b1"
    and add: "add_order ord' b1 = Inr (res, b2)"
    and modify: "modify_order (order_id ord) p q b = Inr (True, b2)"
    by (rule modify_order_known[OF b nd q rest_error_replacement[OF b nd _ _ q(1) p]])
       (simp_all add: ord'_def)
  have sides: "own_levels ord' = own_levels ord" "counter_levels ord' = counter_levels ord"
    "price ord' = p"
    by (simp_all add: ord'_def)
  have none1: "matching_queue ord' b1 = []"
    using none cancelled_selectors(4)[OF c(1)]
    by (simp add: matching_queue_frame[of ord' b1 b] sides) (simp add: ord'_def replacement_def)
  have may: "may_rest ord'" "time_in_force ord' = GoodTillCancel"
    using resting_order_kind[OF b nd] by (simp_all add: may_rest_def ord'_def is_limit_order_def)
  have "rested ord' b1 b2" by (rule add_order_only_rests[OF c(2) ins none1 may add])
  then have "level_queue (own_levels ord b2) = (level_queue (own_levels ord b1))
      (p := level_queue (own_levels ord b1) p @ [(next_node b1, ord')])" and "trades b2 = trades b1"
    using rested_selectors(2)[of ord' b1 b2] by (simp_all add: rested_def sides)
  with modify cancelled_queue[OF b c] cancelled_selectors(2,3)[OF c(1)] show ?thesis
    by (auto simp: ord'_def replacement_def)
qed

theorem modify_loses_priority_witness:
  "\<exists>b'. modify_order 3 98 2 demo_book = Inr (True, b') \<and> level_queue (bids b') 99 = [] \<and>
     level_queue (bids b') 98 = [(3, (demo_order 3 Buy 98 2))]"
proof -
  let ?ord = "demo_order 3 Buy 99 3"
  have *: "(2, ?ord) \<in> set (book_nodes demo_book)"
    "in_i64 (level_quantity demo_book (side ?ord) 98 + 2)" "next_node demo_book = 3"
    "level_queue (bids demo_book) 99 = [(2, ?ord)]" "level_queue (bids demo_book) 98 = []"
    by (simp_all add: demo_defs book_nodes_def levels_nodes_def level_quantity_def side_levels_def
        level_queue_def in_i64_def i64_min_def i64_max_def)
  have r: "?ord\<lparr>price := 98, initial_quantity := 2, remaining_quantity := 2\<rparr> = demo_order 3 Buy 98 2"
    "order_id ?ord = 3" "own_levels ?ord = bids"
    by (simp_all add: demo_order_def own_levels_def is_buy_def fun_eq_iff)
  have "matching_queue (demo_order 3 Buy 98 2) demo_book = []"
    by (simp add: taker_code book_code)
  with modify_loses_priority[OF demo_book_ok(1) *(1) _ _ _ *(2)] * r show ?thesis
    by (auto simp: i64_max_def)
qed


section \<open>Reports\<close>



text \<open>
  The test sequence of the \<^verbatim>\<open>README\<close>, from one connection: the second order trades with the first and
  nothing is pushed after its answer, no update of the side of the asks, and the first order's
  connection is told what it has left; and a modification pushes two updates before its answer.
\<close>

definition readme_add :: "OrderId \<Rightarrow> Price \<Rightarrow> Quantity \<Rightarrow> Side \<Rightarrow> Message" where
  "readme_add cid p q s = Add_msg \<lparr>ao_order_type = Limit, ao_time_in_force = GoodTillCancel,
     ao_client_order_id = cid, ao_price = p, ao_quantity = q, ao_side = s, ao_connection_id = 5, ao_seq = 1\<rparr>"

definition readme_messages :: "Message list" where
  "readme_messages = [readme_add 1 100 10 Buy, readme_add 2 100 5 Sell, readme_add 3 99 20 Buy,
     Modify_msg \<lparr>mo_id = 1, mo_new_price = 101, mo_new_quantity = 5, mo_connection_id = 5, mo_seq = 1\<rparr>,
     Cancel_msg \<lparr>co_id = 3, co_connection_id = 5, co_seq = 1\<rparr>]"

theorem readme_events:
  "map_sum id event_sink (process_all readme_messages new_OrderBook) = Inr
     [Public (BookUpdate Buy 100 10), Routed 5 (OrderRested 1 1 10),
      Public (TradeExecuted 1 2 100 5 Sell), Public (BookUpdate Buy 100 5), Routed 5 (OrderRested 1 1 5),
      Routed 5 (OrderFilled 2 2),
      Public (BookUpdate Buy 99 20), Routed 5 (OrderRested 3 3 20),
      Public (BookUpdate Buy 100 0), Public (BookUpdate Buy 101 5), Routed 5 (OrderModified 1 101 5),
      Public (BookUpdate Buy 99 0), Routed 5 (OrderCanceled 3)]"
  by code_simp

text \<open>C24: The last event that the insertion of a limit order pushes, the answer, tells the truth about the
  book and its trades, when the time in force is one of the three: \<open>OrderRested\<close> that the order is in the
  book with the quantity named and the trades have executed the rest of it; \<open>OrderFilled\<close> that they
  have executed all of it; \<open>OrderExpired\<close> that an immediate-or-cancel order was not executed whole and
  is not in the book; \<open>OrderRejected\<close> that a fill-or-kill order was not executed at all.\<close>

theorem limit_answer_truthful:
  assumes b: "book_ok b" "ids_below b" and valid: "add_valid m b" and room: "id_room b"
    and enums: "TimeInForce_valid (ao_time_in_force m)" and limit: "ao_order_type m = Limit"
    and proc: "process (Add_msg m) b = Inr b'"
    and made: "made = sum_list (map execution_quantity (drop (length (trades b)) (trades b')))"
    and found: "found = find_order (next_order_id b) b'"
  shows "\<exists>ev. last (event_sink b') = Routed (ao_connection_id m) ev \<and>
    (case ev of
       OrderRested oid cid r \<Rightarrow> oid = next_order_id b \<and> cid = ao_client_order_id m \<and>
         ao_time_in_force m = GoodTillCancel \<and> 0 < r \<and> made = ao_quantity m - r \<and>
         found = Inr (Some ((order_of_add m oid)\<lparr>remaining_quantity := r\<rparr>))
     | OrderFilled oid cid \<Rightarrow> oid = next_order_id b \<and> cid = ao_client_order_id m \<and>
         made = ao_quantity m \<and> found = Inr None
     | OrderExpired oid cid \<Rightarrow> oid = next_order_id b \<and> cid = ao_client_order_id m \<and>
         ao_time_in_force m = ImmediateOrCancel \<and> made < ao_quantity m \<and> found = Inr None
     | OrderRejected oid reason \<Rightarrow> oid = next_order_id b \<and> reason = NoLiquidity \<and>
         ao_time_in_force m = FillOrKill \<and> made = 0 \<and> found = Inr None
     | _ \<Rightarrow> False)"
proof -
  let ?ord = "order_of_add m (next_order_id b)"
  obtain fs where p: "trades b' = trades b @ map (fill_trade ?ord) fs"
    "priority_fills (ao_quantity m) (matching_queue ?ord b) fs (unmatched ?ord b)"
    "last (event_sink b') = Routed (ao_connection_id m) (answer m b)"
    by (rule process_add_events[OF b valid room]) (use proc in \<open>auto simp: insertion_events_def Let_def\<close>)
  have made': "made = ao_quantity m - unmatched ?ord b"
    using fills_executed[OF p(2)] by (simp add: made p(1))
  have found': "found = Inr (if may_rest ?ord \<and> unmatched ?ord b \<noteq> 0
      then Some (?ord\<lparr>remaining_quantity := unmatched ?ord b\<rparr>) else None)"
    unfolding found by (rule process_add_found[OF b valid room proc])
  have q: "0 \<le> unmatched ?ord b" "0 < ao_quantity m"
    using add_validD(1)[OF valid] by (simp_all add: unmatched_def)
  have "unmatched ?ord b = (if fok_unfillable ?ord b then ao_quantity m else 0)"
    if "ao_time_in_force m = FillOrKill"
    using fok_fillable_unmatched[of ?ord b] that limit by (simp add: is_limit_order_def unmatched_def)
  moreover have "ao_time_in_force m \<noteq> FillOrKill \<Longrightarrow> \<not> fok_unfillable ?ord b"
    by (simp add: fok_unfillable_def)
  ultimately show ?thesis
    using limit enums q unfolding p(3) made' found'
    by (auto simp: answer_def Let_def may_rest_def is_limit_order_def TimeInForce_valid_def split: if_splits)
qed

theorem limit_answer_truthful_witness:
  "\<exists>b'. process (Add_msg (gtc_add Buy 101 20)) demo_book = Inr b' \<and>
     last (event_sink b') = Routed 5 (OrderRested 4 7 8) \<and>
     sum_list (map execution_quantity (trades b')) = 12 \<and>
     find_order 4 b' = Inr (Some ((order_of_add (gtc_add Buy 101 20) 4)\<lparr>remaining_quantity := 8\<rparr>))"
proof -
  let ?m = "gtc_add Buy 101 20"
  have valid: "add_valid ?m demo_book" "id_room demo_book" "TimeInForce_valid (ao_time_in_force ?m)"
    "ao_order_type ?m = Limit"
    by (simp_all add: demo_defs validity_code TimeInForce_valid_def in_i64_def i64_min_def i64_max_def)
  have at: "answer ?m demo_book = OrderRested 4 7 8" "next_order_id demo_book = 4"
    "ao_client_order_id ?m = 7" "ao_quantity ?m = 20" "ao_connection_id ?m = 5" "trades demo_book = []"
    by (simp_all add: answer_def order_of_add_def taker_code book_code)
  obtain b' fs where p: "process (Add_msg ?m) demo_book = Inr b'"
    "event_sink b' = event_sink demo_book @ insertion_events ?m demo_book fs b'"
    by (rule process_add_events[OF demo_book_ok valid(1,2)])
  from limit_answer_truthful[OF demo_book_ok valid p(1) refl refl] at p
  show ?thesis by (auto simp: insertion_events_def Let_def)
qed

text \<open>C6: The answers that do not tell the truth, exactly: a valid insertion is answered with \<open>OrderRested\<close>
  although the order is not in the book when something of it is left, it is not a limit
  good-till-cancel order and not a rejected fill-or-kill order, and either it was executed in part and is
  good-till-cancel (a market order, which never rests), or nothing of it was executed and its time in
  force is any but immediate-or-cancel (an unknown one: the byte of the message is not checked).\<close>

theorem rested_without_resting:
  assumes b: "book_ok b" "ids_below b" and valid: "add_valid m b" and room: "id_room b"
  defines "ord \<equiv> order_of_add m (next_order_id b)"
  shows "\<exists>b'. process (Add_msg m) b = Inr b' \<and>
    ((\<exists>oid cid r. last (event_sink b') = Routed (ao_connection_id m) (OrderRested oid cid r)) \<and>
       find_order (next_order_id b) b' = Inr None \<longleftrightarrow>
     unmatched ord b \<noteq> 0 \<and> \<not> may_rest ord \<and> \<not> fok_unfillable ord b \<and>
     (if unmatched ord b = ao_quantity m
      then ao_order_type m \<noteq> Market \<and> ao_time_in_force m \<noteq> ImmediateOrCancel
      else ao_time_in_force m = GoodTillCancel))"
proof (rule process_add_events[OF b valid room])
  fix b' fs
  assume p: "process (Add_msg m) b = Inr b'" "event_sink b' = event_sink b @ insertion_events m b fs b'"
  have "last (event_sink b') = Routed (ao_connection_id m) (answer m b)"
    by (simp add: p(2) insertion_events_def Let_def)
  with process_add_found[OF b valid room p(1)] p(1) show ?thesis
    by (auto simp: ord_def answer_def Let_def)
qed

text \<open>Both cases: a market order for more than the book holds, and a price no one asks, with the time in force 9.\<close>

definition demo_market_gtc :: AddOrder where
  "demo_market_gtc = (gtc_add Buy 0 20)\<lparr>ao_order_type := Market\<rparr>"

definition demo_unknown_tif :: AddOrder where
  "demo_unknown_tif = (gtc_add Buy 1 20)\<lparr>ao_time_in_force := Tif_raw 9\<rparr>"

theorem rested_without_resting_witness:
  "(\<exists>b'. process (Add_msg demo_market_gtc) demo_book = Inr b' \<and>
     (\<exists>oid cid r. last (event_sink b') = Routed 5 (OrderRested oid cid r)) \<and> find_order 4 b' = Inr None) \<and>
   (\<exists>b'. process (Add_msg demo_unknown_tif) demo_book = Inr b' \<and>
     (\<exists>oid cid r. last (event_sink b') = Routed 5 (OrderRested oid cid r)) \<and> find_order 4 b' = Inr None)"
proof
  have 1: "unmatched (order_of_add demo_market_gtc 4) demo_book = 8" "next_order_id demo_book = 4"
    "add_valid demo_market_gtc demo_book" "id_room demo_book"
    by (simp_all add: order_of_add_def demo_market_gtc_def taker_code book_code validity_code)
  with rested_without_resting[OF demo_book_ok, of demo_market_gtc]
  show "\<exists>b'. process (Add_msg demo_market_gtc) demo_book = Inr b' \<and>
     (\<exists>oid cid r. last (event_sink b') = Routed 5 (OrderRested oid cid r)) \<and> find_order 4 b' = Inr None"
    by (auto simp: demo_market_gtc_def gtc_add_def may_rest_def fok_unfillable_def is_limit_order_def)
  have 2: "unmatched (order_of_add demo_unknown_tif 4) demo_book = 20"
    "add_valid demo_unknown_tif demo_book"
    by (simp_all add: order_of_add_def demo_unknown_tif_def taker_code book_code validity_code)
  with rested_without_resting[OF demo_book_ok, of demo_unknown_tif] 1(2,4)
  show "\<exists>b'. process (Add_msg demo_unknown_tif) demo_book = Inr b' \<and>
     (\<exists>oid cid r. last (event_sink b') = Routed 5 (OrderRested oid cid r)) \<and> find_order 4 b' = Inr None"
    by (auto simp: demo_unknown_tif_def gtc_add_def may_rest_def fok_unfillable_def is_limit_order_def)
qed

section \<open>Inputs that are not checked\<close>

text \<open>C4: Nothing checks a client's numbers before the engine uses them, and nothing catches what it
  throws. For every message with quantities in their type, the engine fails exactly when
  \<open>message_error\<close> says so, which looks at the numbers of the message and the book before it: a quantity
  that is not positive, a resting remainder at a price that is not positive, or one that takes the
  total of its level above the 64-bit range. No other exception and no other undefined behaviour is
  reachable from a well-formed book.\<close>

theorem process_fails_exactly:
  assumes "book_ok b" and "ids_below b" and "id_room b" and "quantity_in_type msg"
  shows "(process msg b = Inl e) = (message_error msg b = Some e) \<and>
    (process msg b = Inl e \<longrightarrow> e \<in> {Quantity_not_positive, Level_price_not_positive, UB_overflow})"
  using process_decided[OF assms, of e] message_error_cases[OF assms(1), of msg e] by blast

theorem process_fails_exactly_witness:
  "process (Add_msg (gtc_add Buy 100 0)) demo_book = Inl Quantity_not_positive \<and>
   process (Add_msg (gtc_add Buy 99 (i64_max - 2))) demo_book = Inl UB_overflow \<and>
   process (Modify_msg \<lparr>mo_id = 3, mo_new_price = -1, mo_new_quantity = 2, mo_connection_id = 5,
     mo_seq = 0\<rparr>) demo_book = Inl Level_price_not_positive"
proof (intro conjI)
  note exact = process_fails_exactly[OF demo_book_ok, THEN conjunct1]
  have room: "id_room demo_book" by (simp add: id_room_def demo_book_def)
  show "process (Add_msg (gtc_add Buy 100 0)) demo_book = Inl Quantity_not_positive"
    using exact[OF room, of "Add_msg (gtc_add Buy 100 0)"] by (simp add: add_error_def gtc_add_def)
  show "process (Add_msg (gtc_add Buy 99 (i64_max - 2))) demo_book = Inl UB_overflow"
    using exact[OF room, of "Add_msg (gtc_add Buy 99 (i64_max - 2))" UB_overflow]
    by (simp add: taker_code book_code validity_code)
  let ?m = "\<lparr>mo_id = 3, mo_new_price = -1, mo_new_quantity = 2, mo_connection_id = 5, mo_seq = 0\<rparr>"
  show "process (Modify_msg ?m) demo_book = Inl Level_price_not_positive"
    using exact[OF room, of "Modify_msg ?m" Level_price_not_positive]
    by (simp add: taker_code book_code validity_code)
qed

end
