(* ===== verification/Book_Owners.thy ===== *)
theory Book_Owners
  imports Book_Client
begin

text \<open>
  Whom the book tells: every private event goes to a connection, and this theory shows to which. The
  id of an order is the number of its insertion, so a run of the engine determines who has inserted
  what.
\<close>

section \<open>Who has inserted an order\<close>

fun inserts :: "Message list \<Rightarrow> AddOrder list" where
  "inserts [] = []"
| "inserts (Add_msg m # msgs) = m # inserts msgs"
| "inserts (_ # msgs) = inserts msgs"

lemma inserts_append [simp]: "inserts (msgs @ msgs') = inserts msgs @ inserts msgs'"
  by (induction msgs rule: inserts.induct) simp_all

definition inserted_by :: "Message list \<Rightarrow> OrderId \<Rightarrow> int \<Rightarrow> OrderId \<Rightarrow> bool" where
  "inserted_by msgs oid conn cid \<longleftrightarrow>
     0 < unat oid \<and> unat oid \<le> length (inserts msgs) \<and>
     ao_connection_id (inserts msgs ! (unat oid - 1)) = conn \<and>
     ao_client_order_id (inserts msgs ! (unat oid - 1)) = cid"

text \<open>What may be told to a connection, after the messages so far.\<close>

fun told :: "Message list \<Rightarrow> Event \<Rightarrow> bool" where
  "told msgs (Routed conn (OrderRested oid cid q)) \<longleftrightarrow> inserted_by msgs oid conn cid"
| "told msgs (Routed conn (OrderFilled oid cid)) \<longleftrightarrow> inserted_by msgs oid conn cid"
| "told msgs (Routed conn (OrderExpired oid cid)) \<longleftrightarrow> inserted_by msgs oid conn cid"
| "told msgs (Routed conn (OrderRejected oid r)) \<longleftrightarrow> (\<exists>cid. inserted_by msgs oid conn cid)"
| "told msgs (Routed conn (OrderCanceled oid)) \<longleftrightarrow>
     (\<exists>m. Cancel_msg m \<in> set msgs \<and> co_id m = oid \<and> co_connection_id m = conn)"
| "told msgs (Routed conn (CancelRejected oid r)) \<longleftrightarrow>
     (\<exists>m. Cancel_msg m \<in> set msgs \<and> co_id m = oid \<and> co_connection_id m = conn)"
| "told msgs (Routed conn (OrderModified oid p q)) \<longleftrightarrow>
     (\<exists>m. Modify_msg m \<in> set msgs \<and> mo_id m = oid \<and> mo_connection_id m = conn)"
| "told msgs (Routed conn (ModifyRejected oid r)) \<longleftrightarrow>
     (\<exists>m. Modify_msg m \<in> set msgs \<and> mo_id m = oid \<and> mo_connection_id m = conn)"
| "told msgs (Public ev) \<longleftrightarrow> True"

lemma inserted_by_mono: "inserted_by msgs oid conn cid \<Longrightarrow> inserted_by (msgs @ msgs') oid conn cid"
  by (auto simp: inserted_by_def nth_append)

lemma told_mono: "told msgs ev \<Longrightarrow> told (msgs @ msgs') ev"
  by (induction msgs ev rule: told.induct) (auto dest: inserted_by_mono)

section \<open>The invariant\<close>

definition owned :: "Message list \<Rightarrow> Order \<Rightarrow> bool" where
  "owned msgs ord \<longleftrightarrow> inserted_by msgs (order_id ord) (connection_id ord) (client_order_id ord)"

definition owners_ok :: "Message list \<Rightarrow> OrderBook \<Rightarrow> bool" where
  "owners_ok msgs b \<longleftrightarrow>
     (\<forall>nd \<in> set (book_nodes b). owned msgs (snd nd)) \<and> (\<forall>ev \<in> set (event_sink b). told msgs ev)"

lemma owners_ok_mono: "owners_ok msgs b \<Longrightarrow> owners_ok (msgs @ msgs') b"
  by (auto simp: owners_ok_def owned_def intro: inserted_by_mono told_mono)

lemma owners_ok_private [simp]:
  "owners_ok msgs (add_private_event c ev b) \<longleftrightarrow> owners_ok msgs b \<and> told msgs (Routed c ev)"
  by (auto simp: owners_ok_def)

lemma owners_ok_next_id [simp]: "owners_ok msgs (with_next_id b) \<longleftrightarrow> owners_ok msgs b"
  by (simp add: owners_ok_def)

lemma cancelled_owners: "\<lbrakk> cancelled nd b b'; owners_ok msgs b \<rbrakk> \<Longrightarrow> owners_ok msgs b'"
  using cancelled_selectors(5,8)[of nd b b'] by (auto simp: owners_ok_def)

lemma refilled_owned: "refilled nd0 nd \<Longrightarrow> owned msgs (snd nd0) \<Longrightarrow> owned msgs (snd nd)"
  unfolding refilled_def owned_def
  by (metis Order.select_convs(3,9,10) Order.surjective Order.update_convs(6))

lemma sweep_owners:
  assumes sweep: "sweep_book (order_accepts ord) ord b = (fs, q', b')" and b: "book_ok b" "order_ok ord"
    and own: "owners_ok msgs b"
  shows "owners_ok msgs b'"
proof -
  obtain ls' where
    sw: "sweep (order_accepts ord) (remaining_quantity ord) (counter_levels ord b) = (fs, q', ls')"
    and b': "b' = set_counter ord ls' (apply_fills ord fs b)"
    by (rule sweep_bookE[OF sweep])
  have "owned msgs (snd nd)" if nd: "nd \<in> set (levels_nodes ls')" for nd
  proof -
    obtain nd0 where "nd0 \<in> set (levels_nodes (counter_levels ord b))" "refilled nd0 nd"
      using sweep_nodes_from[OF sw nd] by blast
    with own refilled_owned show ?thesis by (auto simp: owners_ok_def book_nodes_set[of b ord])
  qed
  then have "\<forall>nd \<in> set (book_nodes b'). owned msgs (snd nd)"
    using own by (auto simp: owners_ok_def book_nodes_set[of _ ord] b')
  moreover have "told msgs ev" if f: "f \<in> set fs" "ev \<in> set (fill_events ord f)" for f ev
  proof -
    have "fill_maker f \<in> set (matching_queue ord b)"
      by (rule fill_trade_facts(1)[OF b sweep_book_fills(1)[OF sweep b] f(1)])
    then have "fill_maker f \<in> snd ` set (book_nodes b)"
      by (auto simp: matching_queue_def levels_nodes_def book_nodes_set[of b ord])
    then have "owned msgs (fill_maker f)" using own by (auto simp: owners_ok_def)
    with f(2) show ?thesis by (auto simp: fill_events_def owned_def Let_def)
  qed
  then have "\<forall>ev \<in> set (event_sink b'). told msgs ev"
    using own by (auto simp: owners_ok_def b')
  ultimately show ?thesis by (simp add: owners_ok_def)
qed

lemma rested_owners:
  assumes "rested ord b b'" and "owners_ok msgs b" and "owned msgs ord"
  shows "owners_ok msgs b'"
  using rested_selectors(4,5)[OF assms(1)] assms(2,3) by (auto simp: owners_ok_def)

lemma add_order_owners:
  assumes b: "book_ok b" and ord: "insertable ord b" and own: "owners_ok msgs b" "owned msgs ord"
    and add: "add_order ord b = Inr (res, b')"
  shows "owners_ok msgs b'"
  using b ord
proof (cases rule: add_order_cases)
  case rejected
  with add own show ?thesis by simp
next
  case (swept fs q' b1)
  have "order_ok ord" using ord by (simp add: insertable_def)
  from sweep_owners[OF swept(1) b this own(1)] swept(4) add show ?thesis by simp
next
  case (rested fs q' b1 b2)
  have "order_ok ord" using ord by (simp add: insertable_def)
  from sweep_owners[OF rested(1) b this own(1)] have "owners_ok msgs b1" .
  from rested_owners[OF rested(6) this] rested(7) add own(2) show ?thesis by (simp add: owned_def)
qed

section \<open>Processing\<close>

lemma add_owners:
  assumes b: "book_ok b" "ids_below b" and valid: "add_valid m b" "id_room b"
    and proc: "process_add m b = Inr b'" and own: "owners_ok msgs b"
    and count: "unat (next_order_id b) = length (inserts msgs) + 1"
  shows "owners_ok (msgs @ [Add_msg m]) b' \<and>
    unat (next_order_id b') = length (inserts (msgs @ [Add_msg m])) + 1"
proof -
  let ?msgs = "msgs @ [Add_msg m]" and ?oid = "next_order_id b"
  have room: "?oid \<noteq> - 1" using valid(2) by (simp add: id_room_def)
  obtain res b1 where p: "process_add m b =
      Inr (add_private_event (ao_connection_id m) (add_report m ?oid res) b1)"
    and add: "add_order (order_of_add m ?oid) (with_next_id b) = Inr (res, b1)"
    and next_id: "next_order_id b1 = ?oid + 1"
    by (rule process_add_ok[OF b valid(1) room])
  have own_id: "inserted_by ?msgs ?oid (ao_connection_id m) (ao_client_order_id m)"
    using count by (simp add: inserted_by_def)
  have "owners_ok ?msgs b1"
    by (rule add_order_owners[OF _ insertable_add[OF b valid(1)] _ _ add])
       (use b(1) own_id owners_ok_mono[OF own] in \<open>simp_all add: owned_def\<close>)
  moreover have "told ?msgs (Routed (ao_connection_id m) (add_report m ?oid res))"
    using own_id by (auto simp: add_report_def split: AddOrderStatus.split)
  moreover have "unat (?oid + 1) = unat ?oid + 1"
    using word_less_succ[OF room] by (metis unat_1 unat_add_lem unat_plus_simple word_less_nat_alt le_less inc_i)
  ultimately show ?thesis using p proc next_id count by simp
qed

lemma modify_owners:
  assumes b: "book_ok b" and valid: "modify_valid m b"
    and proc: "process_modify m b = Inr b'" and own: "owners_ok msgs b"
  shows "owners_ok (msgs @ [Modify_msg m]) b'"
proof -
  let ?msgs = "msgs @ [Modify_msg m]"
  have own': "owners_ok ?msgs b" by (rule owners_ok_mono[OF own])
  have report: "told ?msgs (Routed (mo_connection_id m) (modify_report m modified))" for modified
    by (auto simp: modify_report_def)
  show ?thesis
  proof (cases rule: cancel_order_total[OF b, of "mo_id m"])
    case 1
    then have "modify_order (mo_id m) (mo_new_price m) (mo_new_quantity m) b = Inr (False, b)"
      by (simp add: modify_order_def)
    from process_modify_report[OF this] proc own' report show ?thesis by auto
  next
    case (2 n ord b0)
    let ?p = "mo_new_price m" and ?q = "mo_new_quantity m"
    note ok = modify_validD[OF valid 2(2,3)]
    obtain b1 res b2 where c: "cancelled (n, ord) b b1" "book_ok b1"
      and ins: "insertable (replacement ord ?p ?q) b1"
      and add: "add_order (replacement ord ?p ?q) b1 = Inr (res, b2)"
      and res: "modify_order (order_id ord) ?p ?q b = Inr (True, b2)"
      by (rule modify_order_known[OF b 2(1) ok])
    have "owned ?msgs (replacement ord ?p ?q)"
      using own' 2(1) by (auto simp: owners_ok_def owned_def)
    then have "owners_ok ?msgs b2"
      by (rule add_order_owners[OF c(2) ins cancelled_owners[OF c(1) own'] _ add])
    with process_modify_report[OF res[unfolded 2(2)]] proc report show ?thesis by auto
  qed
qed

lemma cancel_owners:
  assumes b: "book_ok b" and proc: "process_cancel m b = Inr b'" and own: "owners_ok msgs b"
  shows "owners_ok (msgs @ [Cancel_msg m]) b'"
proof -
  let ?msgs = "msgs @ [Cancel_msg m]"
  have own': "owners_ok ?msgs b" by (rule owners_ok_mono[OF own])
  have report: "told ?msgs (Routed (co_connection_id m) (cancel_report m ok))" for ok
    by (auto simp: cancel_report_def)
  show ?thesis
  proof (cases rule: cancel_order_total[OF b, of "co_id m"])
    case 1
    from process_cancel_report[OF 1(2)] proc own' report show ?thesis by auto
  next
    case (2 n ord b1)
    from process_cancel_report[OF 2(4)] proc cancelled_owners[OF 2(6) own'] report show ?thesis by auto
  qed
qed

lemma reachable_owners:
  "reachable msgs b \<Longrightarrow> owners_ok msgs b \<and> unat (next_order_id b) = length (inserts msgs) + 1"
proof (induction rule: reachable.induct)
  case start
  show ?case by (simp add: owners_ok_def new_OrderBook_def book_nodes_def levels_nodes_def)
next
  case (step msgs b msg b')
  have b: "book_ok b" "ids_below b" using reachable_inv[OF step.hyps(1)] by simp_all
  obtain valid: "message_valid msg b" "id_room b" and proc: "process msg b = Inr b'"
    using step.hyps(2) by (auto elim: engine_stepE)
  obtain b1 where "process msg b = Inr b1"
    "next_order_id b1 = (case msg of Add_msg _ \<Rightarrow> next_order_id b + 1 | _ \<Rightarrow> next_order_id b)"
    by (rule process_ok[OF b valid])
  then have next_id: "next_order_id b' = (case msg of Add_msg _ \<Rightarrow> next_order_id b + 1 | _ \<Rightarrow> next_order_id b)"
    using proc by simp
  show ?case
  proof (cases msg)
    case (Add_msg m)
    with add_owners[OF b, of m] valid proc step.IH show ?thesis by simp
  next
    case (Modify_msg m)
    with modify_owners[OF b(1), of m] valid proc step.IH next_id show ?thesis by simp
  next
    case (Cancel_msg m)
    with cancel_owners[OF b(1), of m] proc step.IH next_id show ?thesis by simp
  qed
qed

section \<open>The properties\<close>

text \<open>C5: What the book reports of an order reaches the one who inserted it: after any valid messages, every
  report that an order rests, is filled, has expired or is rejected is routed to the connection of the
  insertion with that number, and names the id that the client gave the order; and every answer to a
  cancellation or a modification is routed to a connection that has asked for one of this order. No
  other connection is told.\<close>

theorem reports_reach_owner:
  assumes "reachable msgs b" and "Routed conn ev \<in> set (event_sink b)"
  shows "case ev of
      OrderRested oid cid q \<Rightarrow> inserted_by msgs oid conn cid
    | OrderFilled oid cid \<Rightarrow> inserted_by msgs oid conn cid
    | OrderExpired oid cid \<Rightarrow> inserted_by msgs oid conn cid
    | OrderRejected oid r \<Rightarrow> (\<exists>cid. inserted_by msgs oid conn cid)
    | OrderCanceled oid \<Rightarrow> (\<exists>m. Cancel_msg m \<in> set msgs \<and> co_id m = oid \<and> co_connection_id m = conn)
    | CancelRejected oid r \<Rightarrow> (\<exists>m. Cancel_msg m \<in> set msgs \<and> co_id m = oid \<and> co_connection_id m = conn)
    | OrderModified oid p q \<Rightarrow> (\<exists>m. Modify_msg m \<in> set msgs \<and> mo_id m = oid \<and> mo_connection_id m = conn)
    | ModifyRejected oid r \<Rightarrow> (\<exists>m. Modify_msg m \<in> set msgs \<and> mo_id m = oid \<and> mo_connection_id m = conn)"
proof -
  have "told msgs (Routed conn ev)" using reachable_owners[OF assms(1)] assms(2) by (simp add: owners_ok_def)
  then show ?thesis by (cases ev) simp_all
qed

theorem reports_reach_owner_witness:
  "Routed 5 (OrderRested 2 7 7) \<in> set (event_sink demo_book) \<and> inserted_by demo_msgs 2 5 7"
proof -
  have "Routed 5 (OrderRested 2 7 7) \<in> set (event_sink demo_book)" by (simp add: demo_book_def)
  with reports_reach_owner[OF demo_reachable this] show ?thesis by simp
qed

text \<open>Cancelling needs no ownership: whoever names the id of a resting order removes it, and is the only
  connection that is told.\<close>

theorem anyone_cancels:
  assumes b: "book_ok b" and nd: "(n, ord) \<in> set (book_nodes b)" and "co_id m = order_id ord"
  shows "\<exists>b' public. process (Cancel_msg m) b = Inr b' \<and> find_order (order_id ord) b' = Inr None \<and>
    event_sink b' = event_sink b @ [Public public, Routed (co_connection_id m) (OrderCanceled (order_id ord))]"
proof -
  obtain b1 where b1: "cancel_order (order_id ord) b = Inr (True, b1)" "book_ok b1" "cancelled (n, ord) b b1"
    by (rule cancel_order_ok[OF b nd])
  have "find_order (order_id ord) b1 = Inr None"
    by (rule find_order_None[OF b1(2)]) (simp add: cancelled_selectors(6)[OF b1(3)])
  with process_cancel_report[of m b True b1] b1(1) cancelled_selectors(8)[OF b1(3)] assms(3)
  show ?thesis by (simp add: cancel_report_def)
qed

text \<open>The order is one of connection 5; connection 6 cancels it.\<close>

theorem anyone_cancels_witness:
  "\<exists>b' public. process (Cancel_msg \<lparr>co_id = 1, co_connection_id = 6, co_seq = 0\<rparr>) demo_book = Inr b' \<and>
     event_sink b' = event_sink demo_book @ [Public public, Routed 6 (OrderCanceled 1)]"
proof -
  have "(0, demo_order 1 Sell 100 5) \<in> set (book_nodes demo_book)"
    by (simp add: demo_defs book_nodes_def levels_nodes_def)
  from anyone_cancels[OF demo_book_ok(1) this, of "\<lparr>co_id = 1, co_connection_id = 6, co_seq = 0\<rparr>"]
  show ?thesis by (auto simp: demo_order_def simp del: process.simps)
qed

end
