(* ===== verification/Ring_Buffer.thy ===== *)
theory Ring_Buffer
  imports Prelude
begin

text \<open>
  The single-producer single-consumer queue of \<^verbatim>\<open>include/common/ring_buffer.h\<close> and \<^verbatim>\<open>ring_buffer.tpp\<close>
  as its operations run one after the other; the theory of the two threads interleaves their steps.

  The template parameter \<open>Capacity\<close> is the argument \<open>C\<close>, a 64-bit \<open>size_t\<close>; the static assertion makes
  it a power of two. Head and tail are indices below it, advanced with a mask. One slot stays free, so
  the queue holds at most \<open>C - 1\<close> items. The semaphore is a natural number: it counts the pushes the
  consumer has not acquired, without the implementation's maximum of \<open>std::counting_semaphore\<close>.
\<close>

section \<open>State and operations\<close>

type_synonym BufSize = "64 word"

record 'a RingBuffer =
  rb_buffer :: "'a list"
  rb_head :: BufSize
  rb_tail :: BufSize
  rb_available :: nat

definition new_RingBuffer :: "BufSize \<Rightarrow> 'a \<Rightarrow> 'a RingBuffer" where
  "new_RingBuffer C dflt =
     \<lparr>rb_buffer = replicate (unat C) dflt, rb_head = 0, rb_tail = 0, rb_available = 0\<rparr>"

definition rb_next :: "BufSize \<Rightarrow> BufSize \<Rightarrow> BufSize" where
  "rb_next C i = and (i + 1) (C - 1)"

text \<open>Both overloads of \<open>push\<close> do the same to the buffer.\<close>

definition rb_push :: "BufSize \<Rightarrow> 'a \<Rightarrow> 'a RingBuffer \<Rightarrow> bool \<times> 'a RingBuffer" where
  "rb_push C item rb =
     (let head = rb_head rb; next_head = rb_next C head; tail = rb_tail rb in
      if next_head = tail then (False, rb)
      else (True, rb\<lparr>rb_buffer := (rb_buffer rb)[unat head := item], rb_head := next_head,
                     rb_available := rb_available rb + 1\<rparr>))"

definition rb_pop :: "BufSize \<Rightarrow> 'a RingBuffer \<Rightarrow> 'a option \<times> 'a RingBuffer" where
  "rb_pop C rb =
     (let tail = rb_tail rb; head = rb_head rb; next_tail = rb_next C tail in
      if head = tail then (None, rb)
      else (Some (rb_buffer rb ! unat tail), rb\<lparr>rb_tail := next_tail\<rparr>))"

text \<open>With no other thread running, a semaphore at zero is a timeout.\<close>

definition rb_wait_pop :: "BufSize \<Rightarrow> 'a RingBuffer \<Rightarrow> 'a option \<times> 'a RingBuffer" where
  "rb_wait_pop C rb =
     (if rb_available rb = 0 then (None, rb)
      else rb_pop C (rb\<lparr>rb_available := rb_available rb - 1\<rparr>))"

definition rb_empty :: "'a RingBuffer \<Rightarrow> bool" where
  "rb_empty rb \<longleftrightarrow> rb_head rb = rb_tail rb"

definition rb_full :: "BufSize \<Rightarrow> 'a RingBuffer \<Rightarrow> bool" where
  "rb_full C rb \<longleftrightarrow> rb_next C (rb_head rb) = rb_tail rb"

definition rb_size :: "BufSize \<Rightarrow> 'a RingBuffer \<Rightarrow> BufSize" where
  "rb_size C rb = and (rb_head rb - rb_tail rb) (C - 1)"

definition rb_capacity :: "BufSize \<Rightarrow> BufSize" where
  "rb_capacity C = C"

section \<open>Masks and indices\<close>

text \<open>The static assertion on the capacity, and what it says: it is a power of two.\<close>

definition cap_ok :: "BufSize \<Rightarrow> bool" where
  "cap_ok C \<longleftrightarrow> C > 0 \<and> and C (C - 1) = 0"

lemma power_of_two_nat:
  "\<lbrakk> 0 < n; and n (n - 1) = (0::nat) \<rbrakk> \<Longrightarrow> \<exists>k. n = 2 ^ k"
proof (induction n rule: less_induct)
  case (less n)
  show ?case
  proof (cases "even n")
    case True
    then obtain m where m: "n = 2 * m" "0 < m" using less.prems(1) by (auto elim: evenE)
    then have "n - 1 = Suc (2 * (m - 1))" by simp
    then have "and n (n - 1) = 2 * and m (m - 1)"
      using m by (simp add: and_rec[of "2 * m"])
    then obtain k where "m = 2 ^ k" using less.IH[of m] less.prems(2) m by auto
    then show ?thesis using m by (intro exI[of _ "Suc k"]) simp
  next
    case False
    then obtain m where m: "n = Suc (2 * m)" by (auto elim: oddE)
    then have "and n (n - 1) = 2 * and m m" by (simp add: and_rec[of "Suc (2 * m)"])
    then show ?thesis using less.prems(2) m by (intro exI[of _ 0]) simp
  qed
qed

lemma cap_power: "cap_ok C \<Longrightarrow> \<exists>k < 64. unat C = 2 ^ k"
proof -
  assume C: "cap_ok C"
  then have pos: "0 < unat C" by (simp add: cap_ok_def word_gt_0 unat_gt_0)
  have "unat (C - 1) = unat C - 1"
    using C by (simp add: cap_ok_def unat_minus_one word_gt_0)
  then have "and (unat C) (unat C - 1) = 0"
    using C by (metis cap_ok_def unsigned_0 unsigned_and_eq)
  then obtain k where k: "unat C = 2 ^ k" using power_of_two_nat[OF pos] by blast
  have "unat C < 2 ^ 64" using unsigned_less[of C] by simp
  then have "k < 64" unfolding k by (rule power_less_imp_less_exp[rotated]) simp
  with k show ?thesis by blast
qed

lemma cap_128: "cap_ok 128"
  by (simp add: cap_ok_def)

lemma cap_pos: "cap_ok C \<Longrightarrow> 0 < unat C"
  by (simp add: cap_ok_def word_gt_0 unat_gt_0)

lemma cap_dvd: "cap_ok C \<Longrightarrow> unat C dvd 2 ^ 64"
  using cap_power[of C] by (metis le_imp_power_dvd less_imp_le)

lemma and_mask:
  assumes "cap_ok C" shows "unat (and x (C - 1)) = unat x mod unat C"
proof -
  obtain k where k: "k < 64" "unat C = 2 ^ k" using cap_power[OF assms] by blast
  have "unat (C - 1) = 2 ^ k - 1"
    using assms k by (simp add: cap_ok_def unat_minus_one word_gt_0)
  then have "unat (and x (C - 1)) = and (unat x) (mask k)"
    by (simp add: unsigned_and_eq mask_eq_exp_minus_1)
  then show ?thesis by (simp add: k(2) flip: take_bit_eq_mask take_bit_eq_mod)
qed

lemma unat_next:
  assumes "cap_ok C" shows "unat (rb_next C i) = (unat i + 1) mod unat C"
proof -
  have "unat (i + 1) mod unat C = (unat i + 1) mod 2 ^ 64 mod unat C"
    by (simp add: unat_word_ariths)
  also have "\<dots> = (unat i + 1) mod unat C" by (rule mod_mod_cancel[OF cap_dvd[OF assms]])
  finally show ?thesis by (simp add: rb_next_def and_mask[OF assms])
qed

lemma unat_distance:
  assumes "cap_ok C" and "unat h < unat C" and "unat t < unat C"
  shows "unat (and (h - t) (C - 1)) = (unat h + unat C - unat t) mod unat C"
proof -
  have eq: "unat (h - t) = (if unat t \<le> unat h then unat h - unat t else unat h + 2 ^ 64 - unat t)"
    by (simp add: unat_sub_if')
  show ?thesis
  proof (cases "unat t \<le> unat h")
    case True
    then have "(unat h + unat C - unat t) mod unat C = (unat h - unat t) mod unat C"
      by (metis add.commute add_diff_assoc mod_add_self1)
    then show ?thesis using True eq by (simp add: and_mask[OF assms(1)])
  next
    case False
    obtain j where j: "(2::nat) ^ 64 = unat C * j" using cap_dvd[OF assms(1)] unfolding dvd_def by blast
    have "0 < j" using j by (cases j) auto
    then have "unat h + 2 ^ 64 - unat t = (unat h + unat C - unat t) + unat C * (j - 1)"
      using assms(3) unfolding j by (cases j) (auto simp: algebra_simps)
    then show ?thesis
      using False eq by (simp add: and_mask[OF assms(1)] del: mod_mult_self4)
  qed
qed


section \<open>The queue as the list of its contents\<close>

definition rb_ok :: "BufSize \<Rightarrow> 'a RingBuffer \<Rightarrow> bool" where
  "rb_ok C rb \<longleftrightarrow> cap_ok C \<and> length (rb_buffer rb) = unat C \<and>
     unat (rb_head rb) < unat C \<and> unat (rb_tail rb) < unat C"

definition rb_count :: "BufSize \<Rightarrow> 'a RingBuffer \<Rightarrow> nat" where
  "rb_count C rb = (unat (rb_head rb) + unat C - unat (rb_tail rb)) mod unat C"

definition rb_items :: "BufSize \<Rightarrow> 'a RingBuffer \<Rightarrow> 'a list" where
  "rb_items C rb =
     map (\<lambda>i. rb_buffer rb ! ((unat (rb_tail rb) + i) mod unat C)) [0..<rb_count C rb]"

lemma length_rb_items [simp]: "length (rb_items C rb) = rb_count C rb"
  by (simp add: rb_items_def)

lemma rb_items_Nil: "rb_items C rb = [] \<longleftrightarrow> rb_count C rb = 0"
  by (simp add: rb_items_def)

lemma rb_count_less: "rb_ok C rb \<Longrightarrow> rb_count C rb < unat C"
  by (simp add: rb_ok_def rb_count_def cap_pos)

lemma rb_head_index:
  assumes "rb_ok C rb"
  shows "unat (rb_head rb) = (unat (rb_tail rb) + rb_count C rb) mod unat C"
  using assms by (simp add: rb_ok_def rb_count_def mod_add_right_eq)

lemma mod_offset_le:
  assumes "(t + i) mod c = (t + j) mod c" and "i \<le> j" and "j < c"
  shows "i = (j :: nat)"
proof -
  have "c dvd (t + j) - (t + i)"
    using assms(1,2) by (metis add_le_cancel_left mod_eq_dvd_iff_nat)
  with assms(2,3) show ?thesis by (auto dest: dvd_imp_le)
qed

lemma mod_offset_inj:
  "\<lbrakk> (t + i) mod c = (t + j) mod c; i < c; j < c \<rbrakk> \<Longrightarrow> i = (j :: nat)"
  using mod_offset_le[of t i c j] mod_offset_le[of t j c i] by (cases "i \<le> j") auto

lemma rb_items_cong:
  assumes "rb_count C rb' = n" and "\<And>i. i < n \<Longrightarrow>
    rb_buffer rb' ! ((unat (rb_tail rb') + i) mod unat C) = xs ! i" and "length xs = n"
  shows "rb_items C rb' = xs"
  by (rule nth_equalityI) (use assms in \<open>auto simp: rb_items_def\<close>)

lemma rb_items_nth:
  "i < rb_count C rb \<Longrightarrow> rb_items C rb ! i = rb_buffer rb ! ((unat (rb_tail rb) + i) mod unat C)"
  by (simp add: rb_items_def)

lemma rb_full_iff:
  assumes "rb_ok C rb" shows "rb_full C rb \<longleftrightarrow> rb_count C rb = unat C - 1"
proof -
  let ?c = "unat C" and ?n = "rb_count C rb" and ?t = "unat (rb_tail rb)"
  have c: "0 < ?c" "?n < ?c" "?t < ?c"
    using rb_count_less[OF assms] assms cap_pos by (auto simp: rb_ok_def)
  have "rb_full C rb \<longleftrightarrow> (?t + (?n + 1)) mod ?c = ?t"
    using assms rb_head_index[OF assms]
    by (simp add: rb_full_def word_unat_eq_iff unat_next rb_ok_def mod_Suc_eq)
  also have "\<dots> \<longleftrightarrow> ?n = ?c - 1"
  proof
    assume *: "(?t + (?n + 1)) mod ?c = ?t"
    show "?n = ?c - 1"
    proof (rule ccontr)
      assume "?n \<noteq> ?c - 1"
      then have "?n + 1 < ?c" using c by simp
      with * c mod_offset_inj[of ?t "?n + 1" ?c 0] show False by simp
    qed
  qed (use c in simp)
  finally show ?thesis .
qed

lemma rb_empty_iff:
  assumes "rb_ok C rb" shows "rb_empty rb \<longleftrightarrow> rb_count C rb = 0"
proof -
  let ?t = "unat (rb_tail rb)"
  have "rb_empty rb \<longleftrightarrow> (?t + rb_count C rb) mod unat C = ?t"
    using rb_head_index[OF assms] by (auto simp: rb_empty_def word_unat_eq_iff)
  also have "\<dots> \<longleftrightarrow> rb_count C rb = 0"
    using mod_offset_inj[of ?t "rb_count C rb" "unat C" 0] rb_count_less[OF assms] assms
    by (auto simp: rb_ok_def)
  finally show ?thesis .
qed

lemma rb_size_eq: "rb_ok C rb \<Longrightarrow> unat (rb_size C rb) = rb_count C rb"
  by (simp add: rb_size_def rb_count_def unat_distance rb_ok_def)

lemma new_RingBuffer_ok:
  "cap_ok C \<Longrightarrow> rb_ok C (new_RingBuffer C d)" "cap_ok C \<Longrightarrow> rb_items C (new_RingBuffer C d) = []"
  by (simp_all add: rb_ok_def new_RingBuffer_def rb_items_def rb_count_def cap_pos)

lemma rb_count_step:
  assumes "t < c" and "n < c" and "h = (t + n) mod c"
  shows "(h + c - t) mod c = (n :: nat)"
proof (cases "t + n < c")
  case True
  with assms show ?thesis by simp
next
  case False
  then have "h = t + n - c" using assms by (simp add: mod_if)
  with False assms show ?thesis by simp
qed

lemma rb_countI:
  "\<lbrakk> unat (rb_tail rb) < unat C; n < unat C;
     unat (rb_head rb) = (unat (rb_tail rb) + n) mod unat C \<rbrakk> \<Longrightarrow> rb_count C rb = n"
  unfolding rb_count_def by (rule rb_count_step)

lemma rb_push_ok:
  assumes ok: "rb_ok C rb" and room: "\<not> rb_full C rb"
  shows "rb_push C x rb = (True, rb\<lparr>rb_buffer := (rb_buffer rb)[unat (rb_head rb) := x],
      rb_head := rb_next C (rb_head rb), rb_available := rb_available rb + 1\<rparr>)" (is "_ = (True, ?rb)")
    and "rb_ok C (snd (rb_push C x rb))" and "rb_items C (snd (rb_push C x rb)) = rb_items C rb @ [x]"
proof -
  let ?c = "unat C" and ?n = "rb_count C rb" and ?t = "unat (rb_tail rb)"
  show push: "rb_push C x rb = (True, ?rb)"
    using room by (simp add: rb_push_def rb_full_def Let_def)
  have cap: "cap_ok C" and c: "0 < ?c" "?t < ?c" and len: "length (rb_buffer rb) = ?c"
    using ok cap_pos by (auto simp: rb_ok_def)
  have n: "?n + 1 < ?c" using rb_count_less[OF ok] rb_full_iff[OF ok] room by linarith
  have h: "unat (rb_head rb) = (?t + ?n) mod ?c" by (rule rb_head_index[OF ok])
  have ok': "rb_ok C ?rb" using ok c by (simp add: rb_ok_def unat_next[OF cap])
  have h': "unat (rb_head ?rb) = (?t + (?n + 1)) mod ?c"
    by (simp add: unat_next[OF cap] h mod_Suc_eq)
  have count: "rb_count C ?rb = ?n + 1"
    by (rule rb_countI) (use c n h' in simp_all)
  show "rb_ok C (snd (rb_push C x rb))" unfolding push snd_conv by (rule ok')
  have "rb_items C ?rb = rb_items C rb @ [x]"
  proof (rule rb_items_cong[OF count])
    fix i assume i: "i < ?n + 1"
    show "rb_buffer ?rb ! ((unat (rb_tail ?rb) + i) mod ?c) = (rb_items C rb @ [x]) ! i"
    proof (cases "i = ?n")
      case True
      then show ?thesis using c len by (simp add: h nth_append)
    next
      case False
      then have "i < ?n" using i by simp
      moreover have "(?t + ?n) mod ?c \<noteq> (?t + i) mod ?c"
        using mod_offset_inj[of ?t ?n ?c i] n \<open>i < ?n\<close> by auto
      ultimately show ?thesis by (simp add: h nth_append rb_items_nth)
    qed
  qed simp
  then show "rb_items C (snd (rb_push C x rb)) = rb_items C rb @ [x]"
    unfolding push snd_conv .
qed

lemma rb_push_full: "rb_full C rb \<Longrightarrow> rb_push C x rb = (False, rb)"
  by (simp add: rb_push_def rb_full_def)

lemma rb_pop_ok:
  assumes ok: "rb_ok C rb" and some: "\<not> rb_empty rb"
  shows "rb_pop C rb = (Some (hd (rb_items C rb)), rb\<lparr>rb_tail := rb_next C (rb_tail rb)\<rparr>)"
      (is "_ = (_, ?rb)")
    and "rb_ok C (snd (rb_pop C rb))" and "rb_items C (snd (rb_pop C rb)) = tl (rb_items C rb)"
proof -
  let ?c = "unat C" and ?n = "rb_count C rb" and ?t = "unat (rb_tail rb)"
  have cap: "cap_ok C" and c: "0 < ?c" "?t < ?c" using ok cap_pos by (auto simp: rb_ok_def)
  have n: "0 < ?n" "?n < ?c" using rb_count_less[OF ok] rb_empty_iff[OF ok] some by auto
  have "hd (rb_items C rb) = rb_buffer rb ! ?t"
    using n(1) c(2) rb_items_nth[OF n(1)] by (simp add: hd_conv_nth flip: length_greater_0_conv)
  then show pop: "rb_pop C rb = (Some (hd (rb_items C rb)), ?rb)"
    using some by (simp add: rb_pop_def rb_empty_def Let_def)
  have ok': "rb_ok C ?rb" using ok c by (simp add: rb_ok_def unat_next[OF cap])
  have t': "unat (rb_tail ?rb) = (?t + 1) mod ?c" by (simp add: unat_next[OF cap])
  have "((?t + 1) mod ?c + (?n - 1)) mod ?c = (?t + 1 + (?n - 1)) mod ?c" by (rule mod_add_left_eq)
  then have h: "unat (rb_head rb) = ((?t + 1) mod ?c + (?n - 1)) mod ?c"
    using n(1) rb_head_index[OF ok] by simp
  have count: "rb_count C ?rb = ?n - 1"
    by (rule rb_countI) (use h t' n c in simp_all)
  show "rb_ok C (snd (rb_pop C rb))" by (simp add: pop ok')
  have "rb_items C ?rb = tl (rb_items C rb)"
  proof (rule rb_items_cong[OF count])
    fix i assume "i < ?n - 1"
    then have "Suc i < ?n" by simp
    then show "rb_buffer ?rb ! ((unat (rb_tail ?rb) + i) mod ?c) = tl (rb_items C rb) ! i"
      by (simp add: unat_next[OF cap] nth_tl rb_items_nth mod_add_left_eq)
  qed simp
  then show "rb_items C (snd (rb_pop C rb)) = tl (rb_items C rb)" by (simp add: pop)
qed

lemma rb_pop_empty: "rb_empty rb \<Longrightarrow> rb_pop C rb = (None, rb)"
  by (simp add: rb_pop_def rb_empty_def)


section \<open>The contract of a bounded queue\<close>

text \<open>
  What the rest of the program needs of a queue: the contents are a list of at most \<open>bound\<close> items, a
  push appends unless the queue is full, a pop takes the first. The lemmas about pushing many items
  and draining are proved from these laws.
\<close>

locale bounded_queue =
  fixes inv :: "'q \<Rightarrow> bool" and items :: "'q \<Rightarrow> 'a list" and bound :: nat
    and push :: "'a \<Rightarrow> 'q \<Rightarrow> bool \<times> 'q" and pop :: "'q \<Rightarrow> 'a option \<times> 'q"
  assumes bounded: "inv q \<Longrightarrow> length (items q) \<le> bound"
    and push_room: "\<lbrakk> inv q; length (items q) < bound \<rbrakk> \<Longrightarrow>
      \<exists>q'. push x q = (True, q') \<and> inv q' \<and> items q' = items q @ [x]"
    and push_full: "\<lbrakk> inv q; length (items q) = bound \<rbrakk> \<Longrightarrow> push x q = (False, q)"
    and pop_some: "\<lbrakk> inv q; items q = x # xs \<rbrakk> \<Longrightarrow> \<exists>q'. pop q = (Some x, q') \<and> inv q' \<and> items q' = xs"
    and pop_none: "\<lbrakk> inv q; items q = [] \<rbrakk> \<Longrightarrow> pop q = (None, q)"
begin

text \<open>Pushing a list, the results ignored, as every producer of the program does.\<close>

definition push_all :: "'a list \<Rightarrow> 'q \<Rightarrow> 'q" where
  "push_all xs q = fold (\<lambda>x q. snd (push x q)) xs q"

lemma push_inv: "inv q \<Longrightarrow> inv (snd (push x q))"
  using push_room[of q x] push_full[of q x] bounded[of q]
  by (cases "length (items q) < bound") auto

lemma push_items:
  "inv q \<Longrightarrow> items (snd (push x q)) = take bound (items q @ [x])"
  using push_room[of q x] push_full[of q x] bounded[of q]
  by (cases "length (items q) < bound") auto

lemma push_all_inv: "inv q \<Longrightarrow> inv (push_all xs q)"
  unfolding push_all_def by (induction xs arbitrary: q) (simp_all add: push_inv)

text \<open>What does not fit is dropped: the queue keeps the first \<open>bound\<close> items.\<close>

lemma push_all_items: "inv q \<Longrightarrow> items (push_all xs q) = take bound (items q @ xs)"
  unfolding push_all_def
proof (induction xs arbitrary: q)
  case Nil
  then show ?case using bounded[of q] by simp
next
  case (Cons x xs)
  have "take bound (take bound (items q @ [x]) @ xs) = take bound (items q @ x # xs)"
    by (cases "length (items q) < bound") auto
  with Cons push_inv[OF Cons.prems] push_items[OF Cons.prems] show ?case by simp
qed

lemma push_all_fits:
  "\<lbrakk> inv q; length (items q) + length xs \<le> bound \<rbrakk> \<Longrightarrow> items (push_all xs q) = items q @ xs"
  by (simp add: push_all_items)

text \<open>Popping until the queue is empty returns the contents in order.\<close>

fun drain :: "nat \<Rightarrow> 'q \<Rightarrow> 'a list \<times> 'q" where
  "drain 0 q = ([], q)"
| "drain (Suc n) q =
     (case pop q of
        (None, q') \<Rightarrow> ([], q')
      | (Some x, q') \<Rightarrow> (case drain n q' of (xs, q'') \<Rightarrow> (x # xs, q'')))"

lemma drain_items:
  "\<lbrakk> inv q; length (items q) \<le> n \<rbrakk> \<Longrightarrow> \<exists>q'. drain n q = (items q, q') \<and> inv q' \<and> items q' = []"
proof (induction n arbitrary: q)
  case 0
  then show ?case by simp
next
  case (Suc n)
  show ?case
  proof (cases "items q")
    case Nil
    with Suc.prems pop_none[of q] show ?thesis by simp
  next
    case (Cons x xs)
    obtain q' where q': "pop q = (Some x, q')" "inv q'" "items q' = xs"
      using pop_some[OF Suc.prems(1) Cons] by blast
    with Suc.IH[of q'] Suc.prems(2) Cons show ?thesis by auto
  qed
qed

end

interpretation ring: bounded_queue "rb_ok C" "rb_items C" "unat C - 1" "rb_push C" "rb_pop C"
  for C :: BufSize
proof
  fix q :: "'a RingBuffer" and x :: 'a and xs
  assume ok: "rb_ok C q"
  show "length (rb_items C q) \<le> unat C - 1" using rb_count_less[OF ok] by simp
  show "\<exists>q'. rb_push C x q = (True, q') \<and> rb_ok C q' \<and> rb_items C q' = rb_items C q @ [x]"
    if "length (rb_items C q) < unat C - 1"
  proof -
    have room: "\<not> rb_full C q" using that rb_full_iff[OF ok] by simp
    show ?thesis using rb_push_ok[OF ok room, of x] by (intro exI[of _ "snd (rb_push C x q)"]) simp
  qed
  show "rb_push C x q = (False, q)" if "length (rb_items C q) = unat C - 1"
    using that rb_full_iff[OF ok] by (simp add: rb_push_full)
  show "\<exists>q'. rb_pop C q = (Some x, q') \<and> rb_ok C q' \<and> rb_items C q' = xs"
    if "rb_items C q = x # xs"
  proof -
    have some: "\<not> rb_empty q" using that rb_empty_iff[OF ok] rb_items_Nil[of C q] by simp
    show ?thesis using rb_pop_ok[OF ok some] that by (intro exI[of _ "snd (rb_pop C q)"]) simp
  qed
  show "rb_pop C q = (None, q)" if "rb_items C q = []"
    using that rb_empty_iff[OF ok] rb_items_Nil[of C q] by (simp add: rb_pop_empty)
qed

text \<open>
  In blocking mode the consumer only calls \<open>wait_pop\<close>; then the semaphore counts the items, and an
  acquired semaphore never finds the buffer empty.
\<close>

definition rb_blocking_ok :: "BufSize \<Rightarrow> 'a RingBuffer \<Rightarrow> bool" where
  "rb_blocking_ok C rb \<longleftrightarrow> rb_ok C rb \<and> rb_available rb = rb_count C rb"

lemma rb_ok_available [simp]:
  "rb_ok C (rb\<lparr>rb_available := n\<rparr>) = rb_ok C rb"
  "rb_items C (rb\<lparr>rb_available := n\<rparr>) = rb_items C rb"
  "rb_count C (rb\<lparr>rb_available := n\<rparr>) = rb_count C rb"
  "rb_empty (rb\<lparr>rb_available := n\<rparr>) = rb_empty rb"
  by (simp_all add: rb_ok_def rb_items_def rb_count_def rb_empty_def)

lemma rb_push_blocking:
  assumes "rb_blocking_ok C rb" shows "rb_blocking_ok C (snd (rb_push C x rb))"
proof (cases "rb_full C rb")
  case True
  with assms show ?thesis by (simp add: rb_push_full)
next
  case False
  have ok: "rb_ok C rb" using assms by (simp add: rb_blocking_ok_def)
  have "rb_count C (snd (rb_push C x rb)) = rb_count C rb + 1"
    using rb_push_ok(3)[OF ok False, of x] by (metis length_append_singleton length_rb_items Suc_eq_plus1)
  moreover have "rb_available (snd (rb_push C x rb)) = rb_available rb + 1"
    by (simp add: rb_push_ok(1)[OF ok False])
  ultimately show ?thesis
    using assms rb_push_ok(2)[OF ok False] by (simp add: rb_blocking_ok_def)
qed

lemma rb_wait_pop_blocking:
  assumes "rb_blocking_ok C rb"
  shows "rb_blocking_ok C (snd (rb_wait_pop C rb))"
    and "fst (rb_wait_pop C rb) = (if rb_items C rb = [] then None else Some (hd (rb_items C rb)))"
    and "rb_items C (snd (rb_wait_pop C rb)) = tl (rb_items C rb)"
proof -
  have ok: "rb_ok C rb" and count: "rb_available rb = rb_count C rb"
    using assms by (simp_all add: rb_blocking_ok_def)
  note nil = rb_items_Nil[of C rb]
  let ?rb = "rb\<lparr>rb_available := rb_available rb - 1\<rparr>"
  have "rb_blocking_ok C (snd (rb_wait_pop C rb)) \<and>
      fst (rb_wait_pop C rb) = (if rb_items C rb = [] then None else Some (hd (rb_items C rb))) \<and>
      rb_items C (snd (rb_wait_pop C rb)) = tl (rb_items C rb)"
  proof (cases "rb_count C rb = 0")
    case True
    with assms nil count show ?thesis by (simp add: rb_wait_pop_def)
  next
    case False
    then have some: "\<not> rb_empty ?rb" using rb_empty_iff[OF ok] by simp
    have ok': "rb_ok C ?rb" using ok by simp
    note pop = rb_pop_ok[OF ok' some]
    have "rb_count C (snd (rb_pop C ?rb)) = rb_count C rb - 1"
      using pop(3) by (metis length_rb_items length_tl rb_ok_available(2))
    moreover have "rb_available (snd (rb_pop C ?rb)) = rb_count C rb - 1"
      using arg_cong[OF pop(1), of "\<lambda>z. rb_available (snd z)"] count by simp
    ultimately show ?thesis
      using False nil count pop by (simp add: rb_wait_pop_def rb_blocking_ok_def)
  qed
  then show "rb_blocking_ok C (snd (rb_wait_pop C rb))"
    "fst (rb_wait_pop C rb) = (if rb_items C rb = [] then None else Some (hd (rb_items C rb)))"
    "rb_items C (snd (rb_wait_pop C rb)) = tl (rb_items C rb)"
    by blast+
qed

end
