(* ===== verification/Ring_Threads.thy ===== *)
theory Ring_Threads
  imports Ring_Buffer
begin

text \<open>
  The ring buffer under its two threads, in the memory orders of the code. The producer's \<open>push\<close> and
  the consumer's \<open>pop\<close> or \<open>wait_pop\<close> are cut at their accesses to shared memory: the loads of head and
  tail, the access to the slot, the store of the own index, and the semaphore. A step of the system is
  one such access of either thread.

  The memory is not sequentially consistent. Each index is stored by one thread only, so its stores
  are the list of the values it has had; a load may return any of them that is not older than what the
  thread already knows of. What a thread knows is its view: the store of each index it has read or
  made, and how many accesses to the slots happen before its next one. A release store carries the
  view of its thread, and the acquire load that reads it joins that view to its own; a relaxed load
  joins nothing. A release of the semaphore carries a view as well, and an acquire joins the view of
  some release that it counts. The slots are plain memory: an access that the view does not order
  after the other thread's accesses to the same slot is a data race.
\<close>

section \<open>Views\<close>

record View =
  known_head :: nat
  known_tail :: nat
  known_writes :: nat
  known_reads :: nat

definition no_view :: View where
  "no_view = \<lparr>known_head = 0, known_tail = 0, known_writes = 0, known_reads = 0\<rparr>"

definition join :: "View \<Rightarrow> View \<Rightarrow> View" where
  "join v w =
     \<lparr>known_head = max (known_head v) (known_head w), known_tail = max (known_tail v) (known_tail w),
      known_writes = max (known_writes v) (known_writes w),
      known_reads = max (known_reads v) (known_reads w)\<rparr>"

lemma join_simps [simp]:
  "known_head (join v w) = max (known_head v) (known_head w)"
  "known_tail (join v w) = max (known_tail v) (known_tail w)"
  "known_writes (join v w) = max (known_writes v) (known_writes w)"
  "known_reads (join v w) = max (known_reads v) (known_reads w)"
  by (simp_all add: join_def)

section \<open>The threads\<close>

datatype 'a Producer =
    P_idle
  | P_head 'a BufSize
  | P_tail 'a BufSize BufSize
  | P_stored 'a BufSize
  | P_published

datatype Consumer_loc = C_idle | C_begin | C_tail BufSize | C_both BufSize BufSize

datatype 'a Consumer = Before Consumer_loc | C_read 'a BufSize

text \<open>
  An index is the list of its stores, each with the view it releases; \<open>head_\<close> and \<open>tail_\<close> start with
  the value they are constructed with. \<open>writes\<close> and \<open>reads\<close> list the slots accessed so far. The
  semaphore is the list of the views released and the number of acquisitions. \<open>pushed\<close> and \<open>popped\<close>
  are ghosts: the items published by the producer and returned to the consumer.
\<close>

record 'a Spsc =
  slots :: "'a list"
  heads :: "(BufSize \<times> View) list"
  tails :: "(BufSize \<times> View) list"
  writes :: "nat list"
  reads :: "nat list"
  releases :: "View list"
  acquired :: nat
  producer :: "'a Producer"
  producer_view :: View
  consumer :: "'a Consumer"
  consumer_view :: View
  pushed :: "'a list"
  popped :: "'a list"

definition new_Spsc :: "BufSize \<Rightarrow> 'a \<Rightarrow> 'a Spsc" where
  "new_Spsc C dflt =
     \<lparr>slots = replicate (unat C) dflt, heads = [(0, no_view)], tails = [(0, no_view)], writes = [],
      reads = [], releases = [], acquired = 0, producer = P_idle, producer_view = no_view,
      consumer = Before C_idle, consumer_view = no_view, pushed = [], popped = []\<rparr>"

text \<open>An action names the store that a load reads, or the release that an acquire observes.\<close>

datatype 'a Action =
    Push_begin 'a nat | Push_load_tail nat | Push_check | Push_publish | Push_release
  | Pop_begin nat | Pop_load_tail nat | Pop_load_head nat | Pop_check | Pop_advance

text \<open>Which stores a load may read: none that is older than the one the thread knows.\<close>

definition may_read :: "nat \<Rightarrow> (BufSize \<times> View) list \<Rightarrow> nat \<Rightarrow> bool" where
  "may_read known stores i \<longleftrightarrow> known \<le> i \<and> i < length stores"

text \<open>
  One step of the producer; \<open>None\<close> when the action is not the producer's next one. A full buffer ends
  the push with \<open>false\<close>: nothing is stored.
\<close>

fun push_step :: "BufSize \<Rightarrow> 'a Action \<Rightarrow> 'a Spsc \<Rightarrow> 'a Spsc option" where
  "push_step C act s =
     (let v = producer_view s in
      case (producer s, act) of
        (P_idle, Push_begin x i) \<Rightarrow>
          if may_read (known_head v) (heads s) i
          then Some (s\<lparr>producer := P_head x (fst (heads s ! i)),
                       producer_view := v\<lparr>known_head := i\<rparr>\<rparr>)
          else None
      | (P_head x h, Push_load_tail i) \<Rightarrow>
          if may_read (known_tail v) (tails s) i
          then Some (s\<lparr>producer := P_tail x h (fst (tails s ! i)),
                       producer_view := join (v\<lparr>known_tail := i\<rparr>) (snd (tails s ! i))\<rparr>)
          else None
      | (P_tail x h t, Push_check) \<Rightarrow>
          if rb_next C h = t then Some (s\<lparr>producer := P_idle\<rparr>)
          else Some (s\<lparr>slots := (slots s)[unat h := x], writes := writes s @ [unat h],
                       producer := P_stored x h,
                       producer_view := v\<lparr>known_writes := length (writes s) + 1\<rparr>\<rparr>)
      | (P_stored x h, Push_publish) \<Rightarrow>
          let v' = v\<lparr>known_head := length (heads s)\<rparr> in
          Some (s\<lparr>heads := heads s @ [(rb_next C h, v')], producer := P_published,
                  producer_view := v', pushed := pushed s @ [x]\<rparr>)
      | (P_published, Push_release) \<Rightarrow>
          Some (s\<lparr>releases := releases s @ [v], producer := P_idle\<rparr>)
      | _ \<Rightarrow> None)"

text \<open>
  One step of the consumer. In blocking mode a pop begins by acquiring the semaphore: its counter is
  positive when more releases than acquisitions have happened, and the acquisition then observes one
  that the earlier acquisitions have not used up, or a later one. While the counter is zero the
  consumer sleeps or times out, and nothing changes.
\<close>

fun pop_step :: "bool \<Rightarrow> BufSize \<Rightarrow> 'a Action \<Rightarrow> 'a Spsc \<Rightarrow> 'a Spsc option" where
  "pop_step block C act s =
     (let v = consumer_view s in
      case (consumer s, act) of
        (Before C_idle, Pop_begin i) \<Rightarrow>
          if block then
            (if acquired s \<le> i \<and> i < length (releases s)
             then Some (s\<lparr>acquired := acquired s + 1, consumer := Before C_begin,
                          consumer_view := join v (releases s ! i)\<rparr>)
             else None)
          else Some (s\<lparr>consumer := Before C_begin\<rparr>)
      | (Before C_begin, Pop_load_tail i) \<Rightarrow>
          if may_read (known_tail v) (tails s) i
          then Some (s\<lparr>consumer := Before (C_tail (fst (tails s ! i))),
                       consumer_view := v\<lparr>known_tail := i\<rparr>\<rparr>)
          else None
      | (Before (C_tail t), Pop_load_head i) \<Rightarrow>
          if may_read (known_head v) (heads s) i
          then Some (s\<lparr>consumer := Before (C_both t (fst (heads s ! i))),
                       consumer_view := join (v\<lparr>known_head := i\<rparr>) (snd (heads s ! i))\<rparr>)
          else None
      | (Before (C_both t h), Pop_check) \<Rightarrow>
          if h = t then Some (s\<lparr>consumer := Before C_idle\<rparr>)
          else Some (s\<lparr>reads := reads s @ [unat t], consumer := C_read (slots s ! unat t) t,
                       consumer_view := v\<lparr>known_reads := length (reads s) + 1\<rparr>\<rparr>)
      | (C_read x t, Pop_advance) \<Rightarrow>
          let v' = v\<lparr>known_tail := length (tails s)\<rparr> in
          Some (s\<lparr>tails := tails s @ [(rb_next C t, v')], consumer := Before C_idle,
                  consumer_view := v', popped := popped s @ [x]\<rparr>)
      | _ \<Rightarrow> None)"

inductive spsc_reachable :: "bool \<Rightarrow> BufSize \<Rightarrow> 'a \<Rightarrow> 'a Spsc \<Rightarrow> bool"
  for block :: bool and C :: BufSize and dflt :: 'a
where
  init: "spsc_reachable block C dflt (new_Spsc C dflt)"
| push: "\<lbrakk> spsc_reachable block C dflt s; push_step C act s = Some s' \<rbrakk> \<Longrightarrow>
    spsc_reachable block C dflt s'"
| pop: "\<lbrakk> spsc_reachable block C dflt s; pop_step block C act s = Some s' \<rbrakk> \<Longrightarrow>
    spsc_reachable block C dflt s'"

text \<open>
  A thread is about to race when the slot access it makes next is not ordered after an access of the
  other thread to the same slot, one of which is a write.
\<close>

definition write_races :: "BufSize \<Rightarrow> 'a Spsc \<Rightarrow> bool" where
  "write_races C s \<longleftrightarrow>
     (case producer s of
        P_tail x h t \<Rightarrow> rb_next C h \<noteq> t \<and> unat h \<in> set (drop (known_reads (producer_view s)) (reads s))
      | _ \<Rightarrow> False)"

definition read_races :: "'a Spsc \<Rightarrow> bool" where
  "read_races s \<longleftrightarrow>
     (case consumer s of
        Before (C_both t h) \<Rightarrow>
          h \<noteq> t \<and> unat t \<in> set (drop (known_writes (consumer_view s)) (writes s))
      | _ \<Rightarrow> False)"

section \<open>The invariant\<close>

text \<open>What any view says is true: the indices it knows have been stored, after the accesses they cover.\<close>

definition view_ok :: "'a Spsc \<Rightarrow> View \<Rightarrow> bool" where
  "view_ok s v \<longleftrightarrow> known_head v < length (heads s) \<and> known_tail v < length (tails s) \<and>
     known_head v \<le> known_writes v \<and> known_writes v \<le> length (writes s) \<and>
     known_tail v \<le> known_reads v \<and> known_reads v \<le> length (reads s)"

text \<open>The stores of the indices count the items, and each knows itself.\<close>

definition indices_ok :: "BufSize \<Rightarrow> 'a Spsc \<Rightarrow> bool" where
  "indices_ok C s \<longleftrightarrow>
     length (heads s) = length (pushed s) + 1 \<and> length (tails s) = length (popped s) + 1 \<and>
     (\<forall>i < length (heads s). unat (fst (heads s ! i)) = i mod unat C \<and>
        view_ok s (snd (heads s ! i)) \<and> known_head (snd (heads s ! i)) = i) \<and>
     (\<forall>i < length (tails s). unat (fst (tails s ! i)) = i mod unat C \<and>
        view_ok s (snd (tails s ! i)) \<and> known_tail (snd (tails s ! i)) = i)"

text \<open>The slots hold what is published and not consumed; access number \<open>i\<close> was to slot \<open>i mod C\<close>.\<close>

definition slots_ok :: "BufSize \<Rightarrow> 'a Spsc \<Rightarrow> bool" where
  "slots_ok C s \<longleftrightarrow>
     length (slots s) = unat C \<and>
     length (popped s) \<le> length (pushed s) \<and> length (pushed s) < length (popped s) + unat C \<and>
     take (length (popped s)) (pushed s) = popped s \<and>
     (\<forall>i. length (popped s) \<le> i \<and> i < length (pushed s) \<longrightarrow> slots s ! (i mod unat C) = pushed s ! i) \<and>
     (\<forall>i < length (writes s). writes s ! i = i mod unat C) \<and>
     (\<forall>i < length (reads s). reads s ! i = i mod unat C)"

text \<open>
  What the producer knows: its head is current, its tail, store number \<open>T\<close>, may be an earlier one.
\<close>

fun producer_at :: "BufSize \<Rightarrow> nat \<Rightarrow> nat \<Rightarrow> 'a list \<Rightarrow> 'a Producer \<Rightarrow> bool" where
  "producer_at C n T xs (P_head x h) \<longleftrightarrow> unat h = n mod unat C"
| "producer_at C n T xs (P_tail x h t) \<longleftrightarrow> unat h = n mod unat C \<and> unat t = T mod unat C"
| "producer_at C n T xs (P_stored x h) \<longleftrightarrow> unat h = n mod unat C \<and> xs ! unat h = x \<and>
     n + 1 < T + unat C"
| "producer_at C n T xs _ \<longleftrightarrow> True"

fun writing :: "'a Producer \<Rightarrow> nat" where
  "writing (P_stored _ _) = 1"
| "writing _ = 0"

definition producer_ok :: "BufSize \<Rightarrow> 'a Spsc \<Rightarrow> bool" where
  "producer_ok C s \<longleftrightarrow>
     view_ok s (producer_view s) \<and> known_head (producer_view s) = length (pushed s) \<and>
     known_writes (producer_view s) = length (writes s) \<and>
     length (pushed s) < known_tail (producer_view s) + unat C \<and>
     length (writes s) = length (pushed s) + writing (producer s) \<and>
     producer_at C (length (pushed s)) (known_tail (producer_view s)) (slots s) (producer s)"

text \<open>What the consumer knows: its tail is current, its head, store number \<open>H\<close>, may be an earlier one.\<close>

fun consumer_at :: "BufSize \<Rightarrow> nat \<Rightarrow> nat \<Rightarrow> 'a list \<Rightarrow> 'a Consumer \<Rightarrow> bool" where
  "consumer_at C n H us (Before (C_tail t)) \<longleftrightarrow> unat t = n mod unat C"
| "consumer_at C n H us (Before (C_both t h)) \<longleftrightarrow> unat t = n mod unat C \<and> unat h = H mod unat C"
| "consumer_at C n H us (C_read x t) \<longleftrightarrow> unat t = n mod unat C \<and> x = us ! n \<and> n < H"
| "consumer_at C n H us _ \<longleftrightarrow> True"

fun reading :: "'a Consumer \<Rightarrow> nat" where
  "reading (C_read _ _) = 1"
| "reading _ = 0"

definition consumer_ok :: "bool \<Rightarrow> BufSize \<Rightarrow> 'a Spsc \<Rightarrow> bool" where
  "consumer_ok block C s \<longleftrightarrow>
     view_ok s (consumer_view s) \<and> known_tail (consumer_view s) = length (popped s) \<and>
     known_reads (consumer_view s) = length (reads s) \<and>
     length (popped s) \<le> known_head (consumer_view s) \<and>
     length (reads s) = length (popped s) + reading (consumer s) \<and>
     (block \<and> consumer s \<noteq> Before C_idle \<longrightarrow> length (popped s) < known_head (consumer_view s)) \<and>
     consumer_at C (length (popped s)) (known_head (consumer_view s)) (pushed s) (consumer s)"

text \<open>In blocking mode every acquisition is used for one item.\<close>

definition semaphore_ok :: "'a Spsc \<Rightarrow> bool" where
  "semaphore_ok s \<longleftrightarrow> acquired s = length (popped s) + (if consumer s = Before C_idle then 0 else 1)"

text \<open>Every published item is announced or announced next, by a release that knows of it.\<close>

fun announcing :: "'a Producer \<Rightarrow> nat" where
  "announcing P_published = 1"
| "announcing _ = 0"

definition releases_ok :: "'a Spsc \<Rightarrow> bool" where
  "releases_ok s \<longleftrightarrow>
     length (releases s) + announcing (producer s) = length (pushed s) \<and>
     (\<forall>i < length (releases s). view_ok s (releases s ! i) \<and>
     i < known_head (releases s ! i))"

definition spsc_inv :: "bool \<Rightarrow> BufSize \<Rightarrow> 'a Spsc \<Rightarrow> bool" where
  "spsc_inv block C s \<longleftrightarrow> cap_ok C \<and> indices_ok C s \<and> slots_ok C s \<and> producer_ok C s \<and>
     consumer_ok block C s \<and> releases_ok s \<and> (block \<longrightarrow> semaphore_ok s)"

lemma mod_distinct:
  assumes "a < b" and "b < a + c" shows "a mod c \<noteq> b mod (c :: nat)"
proof
  assume "a mod c = b mod c"
  then have "(a + 0) mod c = (a + (b - a)) mod c" using assms by simp
  then have "0 = b - a" by (rule mod_offset_inj) (use assms in simp_all)
  with assms show False by simp
qed

lemmas parts_defs = indices_ok_def slots_ok_def producer_ok_def consumer_ok_def releases_ok_def
  semaphore_ok_def

lemma new_Spsc_inv: "cap_ok C \<Longrightarrow> spsc_inv block C (new_Spsc C d)"
  by (simp add: spsc_inv_def parts_defs view_ok_def new_Spsc_def no_view_def cap_pos)

section \<open>The steps of the producer\<close>

lemma view_ok_mono:
  assumes "view_ok s v" and "length (heads s) \<le> length (heads s')" and "length (tails s) \<le> length (tails s')"
    and "length (writes s) \<le> length (writes s')" and "length (reads s) \<le> length (reads s')"
  shows "view_ok s' v"
  using assms by (simp add: view_ok_def)

lemma view_ok_frame [simp]:
  "view_ok (s\<lparr>slots := a\<rparr>) v = view_ok s v" "view_ok (s\<lparr>releases := b\<rparr>) v = view_ok s v"
  "view_ok (s\<lparr>acquired := c\<rparr>) v = view_ok s v" "view_ok (s\<lparr>producer := d\<rparr>) v = view_ok s v"
  "view_ok (s\<lparr>producer_view := e\<rparr>) v = view_ok s v" "view_ok (s\<lparr>consumer := f\<rparr>) v = view_ok s v"
  "view_ok (s\<lparr>consumer_view := g\<rparr>) v = view_ok s v" "view_ok (s\<lparr>pushed := h\<rparr>) v = view_ok s v"
  "view_ok (s\<lparr>popped := k\<rparr>) v = view_ok s v"
  by (simp_all add: view_ok_def)

lemma view_ok_join: "\<lbrakk> view_ok s v; view_ok s w \<rbrakk> \<Longrightarrow> view_ok s (join v w)"
  by (auto simp: view_ok_def)

text \<open>A thread that reads store \<open>i\<close> of an index knows exactly that store of it afterwards.\<close>

lemma load_tail_view:
  assumes "indices_ok C s" and "view_ok s v" and "may_read (known_tail v) (tails s) i"
  defines "w \<equiv> join (v\<lparr>known_tail := i\<rparr>) (snd (tails s ! i))"
  shows "view_ok s w" and "known_tail w = i" and "known_tail v \<le> i" and "i \<le> length (popped s)"
    and "unat (fst (tails s ! i)) = i mod unat C"
proof -
  have m: "view_ok s (snd (tails s ! i))" "known_tail (snd (tails s ! i)) = i"
    "unat (fst (tails s ! i)) = i mod unat C"
    using assms(1,3) by (auto simp: indices_ok_def may_read_def)
  then show "view_ok s w" "known_tail w = i" "unat (fst (tails s ! i)) = i mod unat C"
    using assms(2) by (auto simp: w_def view_ok_def)
  show "known_tail v \<le> i" "i \<le> length (popped s)"
    using assms(1,3) by (auto simp: may_read_def indices_ok_def)
qed

lemma load_head_view:
  assumes "indices_ok C s" and "view_ok s v" and "may_read (known_head v) (heads s) i"
  defines "w \<equiv> join (v\<lparr>known_head := i\<rparr>) (snd (heads s ! i))"
  shows "view_ok s w" and "known_head w = i" and "known_head v \<le> i" and "i \<le> length (pushed s)"
    and "unat (fst (heads s ! i)) = i mod unat C"
proof -
  have m: "view_ok s (snd (heads s ! i))" "known_head (snd (heads s ! i)) = i"
    "unat (fst (heads s ! i)) = i mod unat C"
    using assms(1,3) by (auto simp: indices_ok_def may_read_def)
  then show "view_ok s w" "known_head w = i" "unat (fst (heads s ! i)) = i mod unat C"
    using assms(2) by (auto simp: w_def view_ok_def)
  show "known_head v \<le> i" "i \<le> length (pushed s)"
    using assms(1,3) by (auto simp: may_read_def indices_ok_def)
qed

text \<open>A step that changes only what the producer knows or where it is.\<close>

lemma producer_local:
  assumes "spsc_inv block C s" and "producer s \<noteq> P_published" and "p \<noteq> P_published"
    and "s' = s\<lparr>producer := p, producer_view := v\<rparr>" and "producer_ok C s'"
  shows "spsc_inv block C s'"
proof -
  have "indices_ok C s' = indices_ok C s" "slots_ok C s' = slots_ok C s"
    "consumer_ok block C s' = consumer_ok block C s" "semaphore_ok s' = semaphore_ok s"
    by (simp_all add: assms(4) indices_ok_def slots_ok_def consumer_ok_def semaphore_ok_def)
  moreover have "releases_ok s' = releases_ok s"
    using assms(2,3) by (cases p; cases "producer s") (simp_all add: assms(4) releases_ok_def)
  ultimately show ?thesis using assms(1,5) by (simp add: spsc_inv_def)
qed

lemma producer_okD:
  assumes "spsc_inv block C s"
  shows "view_ok s (producer_view s)" and "known_head (producer_view s) = length (pushed s)"
    and "known_writes (producer_view s) = length (writes s)"
    and "length (pushed s) < known_tail (producer_view s) + unat C"
    and "length (writes s) = length (pushed s) + writing (producer s)"
    and "length (heads s) = length (pushed s) + 1" and "length (tails s) = length (popped s) + 1"
    and "known_tail (producer_view s) \<le> length (popped s)"
  using assms by (simp_all add: spsc_inv_def producer_ok_def indices_ok_def view_ok_def)

lemma push_begin_inv:
  assumes inv: "spsc_inv block C s" and step: "push_step C act s = Some s'" and at: "producer s = P_idle"
  shows "spsc_inv block C s'"
proof -
  obtain x i where i: "may_read (known_head (producer_view s)) (heads s) i"
    and s': "s' = s\<lparr>producer := P_head x (fst (heads s ! i)),
      producer_view := (producer_view s)\<lparr>known_head := i\<rparr>\<rparr>"
    using step at by (cases act) (auto simp: Let_def split: if_splits)
  note p = producer_okD[OF inv]
  have i': "i = length (pushed s)" using i p(2,6) by (simp add: may_read_def)
  have "unat (fst (heads s ! i)) = i mod unat C"
    using inv i by (simp add: spsc_inv_def indices_ok_def may_read_def)
  then have "producer_ok C s'"
    using p at by (simp add: s' i' producer_ok_def view_ok_def)
  then show ?thesis by (intro producer_local[OF inv _ _ s']) (simp_all add: at)
qed

lemma push_load_inv:
  assumes inv: "spsc_inv block C s" and step: "push_step C act s = Some s'" and at: "producer s = P_head x h"
  shows "spsc_inv block C s'"
proof -
  obtain i where i: "may_read (known_tail (producer_view s)) (tails s) i"
    and s': "s' = s\<lparr>producer := P_tail x h (fst (tails s ! i)),
      producer_view := join ((producer_view s)\<lparr>known_tail := i\<rparr>) (snd (tails s ! i))\<rparr>"
    using step at by (cases act) (auto simp: Let_def split: if_splits)
  note p = producer_okD[OF inv]
  have ix: "indices_ok C s" and h: "unat h = length (pushed s) mod unat C"
    using inv at by (simp_all add: spsc_inv_def producer_ok_def)
  note l = load_tail_view[OF ix p(1) i]
  have "view_ok s (snd (tails s ! i))"
    using ix i by (simp add: indices_ok_def may_read_def)
  then have "known_head (snd (tails s ! i)) \<le> length (pushed s)"
    "known_writes (snd (tails s ! i)) \<le> length (writes s)"
    using p(6) by (simp_all add: view_ok_def)
  then have "producer_ok C s'"
    using p at l h by (simp add: s' producer_ok_def)
  then show ?thesis by (intro producer_local[OF inv _ _ s']) (simp_all add: at)
qed

text \<open>A tail that does not make the buffer look full leaves room for one more item.\<close>

lemma room_left:
  assumes "spsc_inv block C s" and "producer s = P_tail x h t" and "rb_next C h \<noteq> t"
  shows "length (pushed s) + 1 < known_tail (producer_view s) + unat C"
proof -
  let ?T = "known_tail (producer_view s)"
  have t: "unat t = ?T mod unat C" and h: "unat h = length (pushed s) mod unat C" and cap: "cap_ok C"
    using assms(1,2) by (auto simp: spsc_inv_def producer_ok_def)
  have "length (pushed s) + 1 \<noteq> ?T + unat C"
  proof
    assume eq: "length (pushed s) + 1 = ?T + unat C"
    have "unat (rb_next C h) = (length (pushed s) + 1) mod unat C"
      by (simp add: unat_next[OF cap] h mod_Suc_eq)
    with eq t assms(3) show False by (simp add: word_unat_eq_iff)
  qed
  with producer_okD(4)[OF assms(1)] show ?thesis by simp
qed

lemma push_store_inv:
  assumes inv: "spsc_inv block C s" and step: "push_step C act s = Some s'" and at: "producer s = P_tail x h t"
  shows "spsc_inv block C s'"
proof (cases "rb_next C h = t")
  case True
  with step at have s': "s' = s\<lparr>producer := P_idle, producer_view := producer_view s\<rparr>"
    by (cases act) (auto simp: Let_def)
  have "producer_ok C s'" using inv at by (simp add: s' spsc_inv_def producer_ok_def)
  then show ?thesis by (intro producer_local[OF inv _ _ s']) (simp_all add: at)
next
  case False
  with step at have s': "s' = s\<lparr>slots := (slots s)[unat h := x], writes := writes s @ [unat h],
      producer := P_stored x h,
      producer_view := (producer_view s)\<lparr>known_writes := length (writes s) + 1\<rparr>\<rparr>"
    by (cases act) (auto simp: Let_def)
  note p = producer_okD[OF inv] and room = room_left[OF inv at False]
  have cap: "cap_ok C" and h: "unat h = length (pushed s) mod unat C"
    using inv at by (simp_all add: spsc_inv_def producer_ok_def)
  have mono: "view_ok s v \<Longrightarrow> view_ok s' v" for v
    by (erule view_ok_mono) (simp_all add: s')
  have "indices_ok C s'" using inv mono by (simp add: s' spsc_inv_def indices_ok_def)
  moreover have "length (pushed s) mod unat C \<noteq> i mod unat C"
    if "length (popped s) \<le> i" "i < length (pushed s)" for i
    using that p(8) room mod_distinct[of i "length (pushed s)" "unat C"] by simp
  then have "slots_ok C s'"
    using inv p(5) at h by (auto simp: s' spsc_inv_def slots_ok_def nth_append less_Suc_eq)
  moreover have "unat h < length (slots s)"
    using inv h cap_pos[OF cap] by (simp add: spsc_inv_def slots_ok_def)
  then have "producer_ok C s'"
    using p at h room by (simp add: s' producer_ok_def view_ok_def)
  moreover have "consumer_ok block C s'" using inv mono[of "consumer_view s"]
    by (simp add: s' spsc_inv_def consumer_ok_def)
  moreover have "releases_ok s'" using inv mono at by (simp add: s' spsc_inv_def releases_ok_def)
  ultimately show ?thesis using inv by (simp add: spsc_inv_def semaphore_ok_def s')
qed

lemma push_publish_inv:
  assumes inv: "spsc_inv block C s" and step: "push_step C act s = Some s'" and at: "producer s = P_stored x h"
  shows "spsc_inv block C s'"
proof -
  define v where "v = (producer_view s)\<lparr>known_head := length (heads s)\<rparr>"
  from step at have s': "s' = s\<lparr>heads := heads s @ [(rb_next C h, v)], producer := P_published,
      producer_view := v, pushed := pushed s @ [x]\<rparr>"
    by (cases act) (auto simp: Let_def v_def)
  note p = producer_okD[OF inv]
  have cap: "cap_ok C" and "producer_at C (length (pushed s)) (known_tail (producer_view s)) (slots s) (P_stored x h)"
    using inv at by (simp_all only: spsc_inv_def producer_ok_def)
  then have h: "unat h = length (pushed s) mod unat C" and x: "slots s ! unat h = x"
    and room: "length (pushed s) + 1 < known_tail (producer_view s) + unat C"
    unfolding producer_at.simps by blast+
  have mono: "view_ok s w \<Longrightarrow> view_ok s' w" for w
    by (erule view_ok_mono) (simp_all add: s')
  have v: "view_ok s' v" using p at by (simp add: v_def s' view_ok_def)
  have "indices_ok C s'"
    using inv mono v h by (auto simp: s' spsc_inv_def indices_ok_def nth_append less_Suc_eq v_def
        unat_next[OF cap] mod_Suc_eq)
  moreover have "slots_ok C s'"
    using inv p(8) room x h by (auto simp: s' spsc_inv_def slots_ok_def nth_append less_Suc_eq)
  moreover have "producer_ok C s'"
    using p v room at by (simp add: s' producer_ok_def) (simp add: v_def)
  moreover have "consumer_ok block C s'"
  proof -
    have "consumer_at C n H (pushed s @ [x]) cn" if "consumer_at C n H (pushed s) cn" "H \<le> length (pushed s)"
      for n H cn
      using that by (induction C n H "pushed s" cn rule: consumer_at.induct) (auto simp: nth_append)
    moreover have "known_head (consumer_view s) \<le> length (pushed s)"
      using inv by (simp add: spsc_inv_def consumer_ok_def indices_ok_def view_ok_def)
    ultimately show ?thesis
      using inv mono[of "consumer_view s"] by (simp add: s' spsc_inv_def consumer_ok_def)
  qed
  moreover have "releases_ok s'" using inv mono at by (simp add: s' spsc_inv_def releases_ok_def)
  ultimately show ?thesis using inv by (simp add: spsc_inv_def semaphore_ok_def s')
qed

lemma push_release_inv:
  assumes inv: "spsc_inv block C s" and step: "push_step C act s = Some s'" and at: "producer s = P_published"
  shows "spsc_inv block C s'"
proof -
  from step at have s': "s' = s\<lparr>releases := releases s @ [producer_view s], producer := P_idle\<rparr>"
    by (cases act) (auto simp: Let_def)
  note p = producer_okD[OF inv]
  have "indices_ok C s'" "slots_ok C s'" "producer_ok C s'" "consumer_ok block C s'"
    "semaphore_ok s \<Longrightarrow> semaphore_ok s'"
    using inv at by (simp_all add: s' spsc_inv_def indices_ok_def slots_ok_def producer_ok_def
        consumer_ok_def semaphore_ok_def)
  moreover have "releases_ok s'"
    using inv p(1,2) at by (auto simp: s' spsc_inv_def releases_ok_def nth_append less_Suc_eq)
  ultimately show ?thesis using inv by (simp add: spsc_inv_def)
qed

lemma push_step_inv:
  assumes "spsc_inv block C s" and "push_step C act s = Some s'"
  shows "spsc_inv block C s'"
  using push_begin_inv[OF assms] push_load_inv[OF assms] push_store_inv[OF assms]
    push_publish_inv[OF assms] push_release_inv[OF assms]
  by (cases "producer s") simp_all

section \<open>The steps of the consumer\<close>

text \<open>A step that changes only what the consumer knows or where it is, in the midst of a pop.\<close>

lemma consumer_local:
  assumes "spsc_inv block C s" and "consumer s = Before loc" and "loc \<noteq> C_idle" and "loc' \<noteq> C_idle"
    and "s' = s\<lparr>consumer := Before loc', consumer_view := v\<rparr>" and "consumer_ok block C s'"
  shows "spsc_inv block C s'"
proof -
  have "indices_ok C s' = indices_ok C s" "slots_ok C s' = slots_ok C s"
    "producer_ok C s' = producer_ok C s" "releases_ok s' = releases_ok s" "semaphore_ok s' = semaphore_ok s"
    using assms(2-4)
    by (simp_all add: assms(5) indices_ok_def slots_ok_def producer_ok_def semaphore_ok_def releases_ok_def)
  then show ?thesis using assms(1,6) by (simp add: spsc_inv_def)
qed

lemma consumer_okD:
  assumes "spsc_inv block C s"
  shows "view_ok s (consumer_view s)" and "known_tail (consumer_view s) = length (popped s)"
    and "known_reads (consumer_view s) = length (reads s)"
    and "length (popped s) \<le> known_head (consumer_view s)"
    and "length (reads s) = length (popped s) + reading (consumer s)"
    and "block \<and> consumer s \<noteq> Before C_idle \<longrightarrow> length (popped s) < known_head (consumer_view s)"
    and "known_head (consumer_view s) \<le> length (pushed s)"
    and "length (tails s) = length (popped s) + 1" and "indices_ok C s" and "slots_ok C s"
proof -
  have *: "consumer_ok block C s" "indices_ok C s" "slots_ok C s"
    using assms by (simp_all add: spsc_inv_def)
  then show "view_ok s (consumer_view s)" "known_tail (consumer_view s) = length (popped s)"
    "known_reads (consumer_view s) = length (reads s)"
    "length (popped s) \<le> known_head (consumer_view s)"
    "length (reads s) = length (popped s) + reading (consumer s)"
    "block \<and> consumer s \<noteq> Before C_idle \<longrightarrow> length (popped s) < known_head (consumer_view s)"
    "indices_ok C s" "slots_ok C s"
    by (simp_all add: consumer_ok_def)
  show "length (tails s) = length (popped s) + 1" using *(2) by (simp add: indices_ok_def)
  have "length (heads s) = length (pushed s) + 1" using *(2) by (simp add: indices_ok_def)
  with *(1) show "known_head (consumer_view s) \<le> length (pushed s)"
    by (simp add: consumer_ok_def view_ok_def)
qed

lemma pop_acquire_inv:
  assumes inv: "spsc_inv block C s" and step: "pop_step block C act s = Some s'"
    and at: "consumer s = Before C_idle"
  shows "spsc_inv block C s'"
proof -
  note c = consumer_okD[OF inv]
  show ?thesis
  proof (cases block)
    case False
    with step at have s': "s' = s\<lparr>consumer := Before C_begin\<rparr>"
      by (cases act) (auto simp: Let_def)
    show ?thesis
      using inv at False by (simp add: s' spsc_inv_def parts_defs)
  next
    case True
    with step at obtain i where i: "acquired s \<le> i" "i < length (releases s)"
      and s': "s' = s\<lparr>acquired := acquired s + 1, consumer := Before C_begin,
        consumer_view := join (consumer_view s) (releases s ! i)\<rparr>"
      by (cases act) (auto simp: Let_def split: if_splits)
    have r: "view_ok s (releases s ! i)" "i < known_head (releases s ! i)"
      using inv i by (simp_all add: spsc_inv_def releases_ok_def)
    have a: "acquired s = length (popped s)"
      using inv True at by (simp add: spsc_inv_def semaphore_ok_def)
    have t: "known_tail (releases s ! i) \<le> length (popped s)" "known_reads (releases s ! i) \<le> length (reads s)"
      using r(1) c(8) by (simp_all add: view_ok_def)
    have "consumer_ok block C s'"
      using c(1-5) at True r t i a view_ok_join[OF c(1) r(1)] by (auto simp: s' consumer_ok_def)
    moreover have "semaphore_ok s'" using a by (simp add: s' semaphore_ok_def)
    moreover have "indices_ok C s'" "slots_ok C s'" "producer_ok C s'" "releases_ok s'"
      using inv by (simp_all add: s' spsc_inv_def indices_ok_def slots_ok_def producer_ok_def releases_ok_def)
    ultimately show ?thesis using inv by (simp add: spsc_inv_def)
  qed
qed

lemma pop_load_tail_inv:
  assumes inv: "spsc_inv block C s" and step: "pop_step block C act s = Some s'"
    and at: "consumer s = Before C_begin"
  shows "spsc_inv block C s'"
proof -
  obtain i where i: "may_read (known_tail (consumer_view s)) (tails s) i"
    and s': "s' = s\<lparr>consumer := Before (C_tail (fst (tails s ! i))),
      consumer_view := (consumer_view s)\<lparr>known_tail := i\<rparr>\<rparr>"
    using step at by (cases act) (auto simp: Let_def split: if_splits)
  note c = consumer_okD[OF inv]
  have i': "i = length (popped s)" using i c(2,8) by (simp add: may_read_def)
  have "unat (fst (tails s ! i)) = i mod unat C" using c(9) i by (simp add: indices_ok_def may_read_def)
  then have "consumer_ok block C s'"
    using c at by (simp add: s' i' consumer_ok_def view_ok_def)
  then show ?thesis by (rule consumer_local[OF inv at _ _ s', rotated 2]) simp_all
qed

lemma pop_load_head_inv:
  assumes inv: "spsc_inv block C s" and step: "pop_step block C act s = Some s'"
    and at: "consumer s = Before (C_tail t)"
  shows "spsc_inv block C s'"
proof -
  obtain i where i: "may_read (known_head (consumer_view s)) (heads s) i"
    and s': "s' = s\<lparr>consumer := Before (C_both t (fst (heads s ! i))),
      consumer_view := join ((consumer_view s)\<lparr>known_head := i\<rparr>) (snd (heads s ! i))\<rparr>"
    using step at by (cases act) (auto simp: Let_def split: if_splits)
  note c = consumer_okD[OF inv]
  note l = load_head_view[OF c(9,1) i]
  have t: "unat t = length (popped s) mod unat C" using inv at by (simp add: spsc_inv_def consumer_ok_def)
  have "view_ok s (snd (heads s ! i))" using c(9) i by (simp add: indices_ok_def may_read_def)
  then have "known_tail (snd (heads s ! i)) \<le> length (popped s)"
    "known_reads (snd (heads s ! i)) \<le> length (reads s)"
    using c(8) by (simp_all add: view_ok_def)
  then have "consumer_ok block C s'" using c(1-6) at l t by (auto simp: s' consumer_ok_def)
  then show ?thesis by (rule consumer_local[OF inv at _ _ s', rotated 2]) simp_all
qed

text \<open>A head that differs from the tail is one after it, and its slot is the oldest item.\<close>

lemma read_item:
  assumes "spsc_inv block C s" and "consumer s = Before (C_both t h)" and "h \<noteq> t"
  shows "length (popped s) < known_head (consumer_view s)"
    and "slots s ! unat t = pushed s ! length (popped s)"
    and "unat t = length (popped s) mod unat C"
proof -
  note c = consumer_okD[OF assms(1)]
  have at: "unat t = length (popped s) mod unat C" "unat h = known_head (consumer_view s) mod unat C"
    using assms(1,2) by (simp_all add: spsc_inv_def consumer_ok_def)
  then have "known_head (consumer_view s) \<noteq> length (popped s)"
    using assms(3) by (auto simp: word_unat_eq_iff)
  with c(4) show "length (popped s) < known_head (consumer_view s)" by simp
  with c(7,10) at(1) show "slots s ! unat t = pushed s ! length (popped s)" by (simp add: slots_ok_def)
  show "unat t = length (popped s) mod unat C" by (rule at(1))
qed

lemma pop_read_inv:
  assumes inv: "spsc_inv block C s" and step: "pop_step block C act s = Some s'"
    and at: "consumer s = Before (C_both t h)" and ne: "h \<noteq> t"
  shows "spsc_inv block C s'"
proof -
  from step at ne have s': "s' = s\<lparr>reads := reads s @ [unat t], consumer := C_read (slots s ! unat t) t,
      consumer_view := (consumer_view s)\<lparr>known_reads := length (reads s) + 1\<rparr>\<rparr>"
    by (cases act) (auto simp: Let_def)
  note c = consumer_okD[OF inv] and it = read_item[OF inv at ne]
  have mono: "view_ok s v \<Longrightarrow> view_ok s' v" for v
    by (erule view_ok_mono) (simp_all add: s')
  have "indices_ok C s'" using inv mono by (simp add: s' spsc_inv_def indices_ok_def)
  moreover have "slots_ok C s'"
    using c(10,5) at it(3) by (auto simp: s' slots_ok_def nth_append less_Suc_eq)
  moreover have "producer_ok C s'" using inv mono[of "producer_view s"]
    by (simp add: s' spsc_inv_def producer_ok_def)
  moreover have "consumer_ok block C s'"
    using c at it by (simp add: s' consumer_ok_def view_ok_def)
  moreover have "releases_ok s'" using inv mono by (simp add: s' spsc_inv_def releases_ok_def)
  ultimately show ?thesis using inv at by (simp add: spsc_inv_def semaphore_ok_def s')
qed

lemma blocking_pop_nonempty:
  assumes inv: "spsc_inv True C s" and at: "consumer s = Before (C_both t h)"
  shows "h \<noteq> t"
proof
  assume "h = t"
  note c = consumer_okD[OF inv]
  have "unat t = length (popped s) mod unat C" "unat h = known_head (consumer_view s) mod unat C"
    using inv at by (simp_all add: spsc_inv_def consumer_ok_def)
  moreover have "length (popped s) < known_head (consumer_view s)" using c(6) at by simp
  moreover have "length (pushed s) < length (popped s) + unat C" using c(10) by (simp add: slots_ok_def)
  ultimately show False
    using c(7) \<open>h = t\<close> mod_distinct[of "length (popped s)" "known_head (consumer_view s)" "unat C"] by simp
qed

lemma pop_empty_inv:
  assumes inv: "spsc_inv block C s" and step: "pop_step block C act s = Some s'"
    and at: "consumer s = Before (C_both t t)"
  shows "spsc_inv block C s'"
proof -
  have nb: "\<not> block" using blocking_pop_nonempty[of C s t t] inv at by auto
  from step at have s': "s' = s\<lparr>consumer := Before C_idle\<rparr>"
    by (cases act) (auto simp: Let_def)
  show ?thesis using inv at nb by (simp add: s' spsc_inv_def parts_defs)
qed

lemma pop_advance_inv:
  assumes inv: "spsc_inv block C s" and step: "pop_step block C act s = Some s'"
    and at: "consumer s = C_read x t"
  shows "spsc_inv block C s'"
proof -
  define v where "v = (consumer_view s)\<lparr>known_tail := length (tails s)\<rparr>"
  from step at have s': "s' = s\<lparr>tails := tails s @ [(rb_next C t, v)], consumer := Before C_idle,
      consumer_view := v, popped := popped s @ [x]\<rparr>"
    by (cases act) (auto simp: Let_def v_def)
  note c = consumer_okD[OF inv]
  have cap: "cap_ok C" and t: "unat t = length (popped s) mod unat C" and x: "x = pushed s ! length (popped s)"
    and less: "length (popped s) < known_head (consumer_view s)"
    using inv at by (simp_all add: spsc_inv_def consumer_ok_def)
  have mono: "view_ok s w \<Longrightarrow> view_ok s' w" for w
    by (erule view_ok_mono) (simp_all add: s')
  have v: "view_ok s' v" using c at by (simp add: v_def s' view_ok_def)
  have "indices_ok C s'"
    using c(9) mono v t by (auto simp: s' indices_ok_def nth_append less_Suc_eq v_def
        unat_next[OF cap] mod_Suc_eq)
  moreover have "slots_ok C s'"
    using c(7,10) less x by (auto simp: s' slots_ok_def take_Suc_conv_app_nth)
  moreover have "producer_ok C s'" using inv mono[of "producer_view s"]
    by (simp add: s' spsc_inv_def producer_ok_def)
  moreover have "consumer_ok block C s'"
    using c v less at by (simp add: s' consumer_ok_def) (simp add: v_def)
  moreover have "releases_ok s'" using inv mono by (simp add: s' spsc_inv_def releases_ok_def)
  ultimately show ?thesis using inv at by (simp add: spsc_inv_def semaphore_ok_def s')
qed

lemma pop_step_inv:
  assumes inv: "spsc_inv block C s" and step: "pop_step block C act s = Some s'"
  shows "spsc_inv block C s'"
proof (cases "consumer s")
  case (C_read x t)
  from pop_advance_inv[OF inv step this] show ?thesis .
next
  case (Before loc)
  show ?thesis
  proof (cases loc)
    case (C_both t h)
    with Before pop_read_inv[OF inv step] pop_empty_inv[OF inv step] show ?thesis
      by (cases "h = t") simp_all
  qed (use Before in \<open>simp_all add: pop_acquire_inv[OF inv step] pop_load_tail_inv[OF inv step]
      pop_load_head_inv[OF inv step]\<close>)
qed

lemma spsc_reachable_inv:
  assumes "cap_ok C" and "spsc_reachable block C d s"
  shows "spsc_inv block C s"
  using assms(2)
  by (induction rule: spsc_reachable.induct)
     (auto intro: new_Spsc_inv[OF assms(1)] push_step_inv pop_step_inv)

section \<open>Data races\<close>

lemma no_write_race: "spsc_inv block C s \<Longrightarrow> \<not> write_races C s"
proof
  assume inv: "spsc_inv block C s" and "write_races C s"
  then obtain x h t where at: "producer s = P_tail x h t" "rb_next C h \<noteq> t"
    and race: "unat h \<in> set (drop (known_reads (producer_view s)) (reads s))"
    by (auto simp: write_races_def split: Producer.splits)
  note p = producer_okD[OF inv] and c = consumer_okD[OF inv] and room = room_left[OF inv at]
  obtain i where i: "known_reads (producer_view s) \<le> i" "i < length (reads s)" "unat h = reads s ! i"
    using race by (auto simp: in_set_conv_nth) (metis add.commute le_add2 less_diff_conv)
  have "reads s ! i = i mod unat C" using c(10) i(2) by (simp add: slots_ok_def)
  moreover have "unat h = length (pushed s) mod unat C" using inv at by (simp add: spsc_inv_def producer_ok_def)
  moreover have "i < length (pushed s)"
  proof -
    have "length (popped s) \<le> length (pushed s)" using c(10) by (simp add: slots_ok_def)
    moreover have "consumer s = C_read y u \<Longrightarrow> length (popped s) < length (pushed s)" for y u
      using inv c(7) by (auto simp: spsc_inv_def consumer_ok_def)
    ultimately show ?thesis using i(2) c(5) by (cases "consumer s") auto
  qed
  moreover have "known_tail (producer_view s) \<le> i" using p(1) i(1) by (simp add: view_ok_def)
  ultimately show False
    using i(3) room mod_distinct[of i "length (pushed s)" "unat C"] by simp
qed

lemma no_read_race: "spsc_inv block C s \<Longrightarrow> \<not> read_races s"
proof
  assume inv: "spsc_inv block C s" and "read_races s"
  then obtain t h where at: "consumer s = Before (C_both t h)" "h \<noteq> t"
    and race: "unat t \<in> set (drop (known_writes (consumer_view s)) (writes s))"
    by (auto simp: read_races_def split: Consumer.splits Consumer_loc.splits)
  note p = producer_okD[OF inv] and c = consumer_okD[OF inv] and it = read_item[OF inv at]
  obtain i where i: "known_writes (consumer_view s) \<le> i" "i < length (writes s)" "unat t = writes s ! i"
    using race by (auto simp: in_set_conv_nth) (metis add.commute le_add2 less_diff_conv)
  have "writes s ! i = i mod unat C" using c(10) i(2) by (simp add: slots_ok_def)
  moreover have "known_head (consumer_view s) \<le> i" using c(1) i(1) by (simp add: view_ok_def)
  then have "length (popped s) < i" using it(1) by simp
  moreover have "i < length (popped s) + unat C"
  proof (cases "writing (producer s) = 0")
    case True
    with i(2) p(5) c(10) show ?thesis by (simp add: slots_ok_def)
  next
    case False
    then have "writing (producer s) = 1" "length (pushed s) + 1 < known_tail (producer_view s) + unat C"
      using inv by (cases "producer s"; simp add: spsc_inv_def producer_ok_def)+
    with i(2) p(5,8) show ?thesis by simp
  qed
  ultimately show False
    using i(3) it(3) mod_distinct[of "length (popped s)" i "unat C"] by simp
qed

section \<open>The contents of the buffer\<close>

text \<open>The buffer that the newest stores make, as one of the sequential model.\<close>

definition spsc_buffer :: "'a Spsc \<Rightarrow> 'a RingBuffer" where
  "spsc_buffer s =
     \<lparr>rb_buffer = slots s, rb_head = fst (last (heads s)), rb_tail = fst (last (tails s)),
      rb_available = length (releases s) - acquired s\<rparr>"

lemma spsc_buffer_items:
  assumes inv: "spsc_inv block C s"
  shows "rb_ok C (spsc_buffer s)" and "rb_items C (spsc_buffer s) = drop (length (popped s)) (pushed s)"
proof -
  let ?c = "unat C" and ?P = "length (pushed s)" and ?Q = "length (popped s)" and ?b = "spsc_buffer s"
  have cap: "cap_ok C" and ix: "indices_ok C s" and sl: "slots_ok C s" using inv by (simp_all add: spsc_inv_def)
  have h: "unat (rb_head ?b) = ?P mod ?c" and t: "unat (rb_tail ?b) = ?Q mod ?c"
    using ix by (simp_all add: spsc_buffer_def indices_ok_def last_conv_nth flip: length_greater_0_conv)
  have le: "?Q \<le> ?P" "?P < ?Q + ?c" using sl by (simp_all add: slots_ok_def)
  show "rb_ok C ?b"
    using cap cap_pos[OF cap] h t sl by (simp add: rb_ok_def) (simp add: spsc_buffer_def slots_ok_def)
  have "(?Q mod ?c + (?P - ?Q)) mod ?c = (?Q + (?P - ?Q)) mod ?c" by (rule mod_add_left_eq)
  then have "?P mod ?c = (?Q mod ?c + (?P - ?Q)) mod ?c" using le(1) by simp
  then have count: "rb_count C ?b = ?P - ?Q"
    by (intro rb_countI) (use h t cap_pos[OF cap] le in simp_all)
  show "rb_items C ?b = drop ?Q (pushed s)"
  proof (rule rb_items_cong[OF count])
    fix i assume i: "i < ?P - ?Q"
    have "(unat (rb_tail ?b) + i) mod ?c = (?Q + i) mod ?c" by (simp add: t mod_add_left_eq)
    moreover have "slots s ! ((?Q + i) mod ?c) = pushed s ! (?Q + i)"
      using sl i unfolding slots_ok_def by (metis le_add1 less_diff_conv add.commute)
    ultimately show "rb_buffer ?b ! ((unat (rb_tail ?b) + i) mod ?c) = drop ?Q (pushed s) ! i"
      using le by (simp add: spsc_buffer_def)
  qed simp
qed

end
