(* ===== verification/Ring_Properties.thy ===== *)
theory Ring_Properties
  imports Ring_Threads
begin

text \<open>
  The properties of the ring buffer: it is a bounded first-in first-out queue, alone and under its two
  threads, and what a full buffer does to its producer.
\<close>

section \<open>Concrete buffers for the witnesses\<close>

text \<open>A buffer of capacity 4 after two pushes, and a run of both threads on it.\<close>

definition demo_ring :: "nat RingBuffer" where
  "demo_ring = snd (rb_push 4 8 (snd (rb_push 4 7 (new_RingBuffer 4 0))))"

lemma replicate_4: "replicate 4 x = [x, x, x, x]"
  by (simp add: eval_nat_numeral)

lemma cap_4: "cap_ok 4"
  by (simp add: cap_ok_def)

lemma demo_ring_eq:
  "demo_ring = \<lparr>rb_buffer = [7, 8, 0, 0], rb_head = 2, rb_tail = 0, rb_available = 2\<rparr>"
  by (simp add: demo_ring_def rb_push_def rb_next_def new_RingBuffer_def replicate_4 Let_def)

lemma demo_ring_ok: "rb_ok 4 demo_ring" "rb_items 4 demo_ring = [7, 8]"
  by (simp_all add: demo_ring_eq rb_ok_def cap_4 rb_items_def rb_count_def upt_rec)

definition spsc_step :: "bool \<Rightarrow> BufSize \<Rightarrow> 'a Action \<Rightarrow> 'a Spsc \<Rightarrow> 'a Spsc option" where
  "spsc_step block C act s =
     (case push_step C act s of Some s' \<Rightarrow> Some s' | None \<Rightarrow> pop_step block C act s)"

fun spsc_run :: "bool \<Rightarrow> BufSize \<Rightarrow> 'a Action list \<Rightarrow> 'a Spsc \<Rightarrow> 'a Spsc option" where
  "spsc_run block C [] s = Some s"
| "spsc_run block C (act # acts) s =
     (case spsc_step block C act s of Some s' \<Rightarrow> spsc_run block C acts s' | None \<Rightarrow> None)"

lemma spsc_run_reachable:
  "\<lbrakk> spsc_run block C acts s = Some s'; spsc_reachable block C d s \<rbrakk> \<Longrightarrow>
   spsc_reachable block C d s'"
  by (induction acts arbitrary: s)
     (auto simp: spsc_step_def split: option.splits dest: spsc_reachable.push spsc_reachable.pop)

text \<open>A whole push that reads store \<open>h\<close> of the head and store \<open>t\<close> of the tail.\<close>

definition push_actions :: "'a \<Rightarrow> nat \<Rightarrow> nat \<Rightarrow> 'a Action list" where
  "push_actions x h t = [Push_begin x h, Push_load_tail t, Push_check, Push_publish, Push_release]"

text \<open>
  Two items are in the buffer. The consumer has acquired the semaphore by the first release, and it has
  read a stale head, store number 1 of 0 to 2; the producer, starting a third push, has loaded both
  indices.
\<close>

definition demo_actions :: "nat Action list" where
  "demo_actions = push_actions 7 0 0 @ push_actions 9 1 0 @
     [Pop_begin 0, Pop_load_tail 0, Pop_load_head 1, Push_begin 8 2, Push_load_tail 0]"

definition demo_threads :: "nat Spsc" where
  "demo_threads = the (spsc_run True 4 demo_actions (new_Spsc 4 0))"

lemmas spsc_code = spsc_step_def rb_next_def may_read_def join_def no_view_def Let_def

lemma demo_threads_run:
  "spsc_run True 4 demo_actions (new_Spsc 4 0) = Some demo_threads"
  "slots demo_threads = [7, 9, 0, 0]" "pushed demo_threads = [7, 9]" "popped demo_threads = []"
  "map fst (heads demo_threads) = [0, 1, 2]" "map fst (tails demo_threads) = [0]"
  "producer demo_threads = P_tail 8 2 0" "consumer demo_threads = Before (C_both 0 1)"
  by (simp_all add: demo_threads_def demo_actions_def push_actions_def new_Spsc_def replicate_4 spsc_code)

lemma demo_threads_reachable: "spsc_reachable True 4 0 demo_threads"
  by (rule spsc_run_reachable[OF demo_threads_run(1) spsc_reachable.init])

section \<open>One thread at a time\<close>

text \<open>C26: The ring buffer is a first-in first-out queue of at most \<open>C - 1\<close> items, for every capacity
  that passes the static assertion, across the wrap of its indices: \<open>push\<close> appends unless the queue is
  full, when it returns false and changes nothing; \<open>pop\<close> returns and removes the first item, or
  nothing; \<open>size\<close>, \<open>empty\<close> and \<open>full\<close> are those of the contents.\<close>

theorem ring_is_queue:
  assumes "rb_ok C rb"
  shows "(case rb_push C x rb of (done', rb') \<Rightarrow> rb_ok C rb' \<and>
      done' = (length (rb_items C rb) < unat C - 1) \<and>
      rb_items C rb' = (if done' then rb_items C rb @ [x] else rb_items C rb)) \<and>
    (case rb_pop C rb of (item, rb') \<Rightarrow> rb_ok C rb' \<and>
      item = (case rb_items C rb of [] \<Rightarrow> None | y # _ \<Rightarrow> Some y) \<and>
      rb_items C rb' = tl (rb_items C rb)) \<and>
    unat (rb_size C rb) = length (rb_items C rb) \<and>
    (rb_empty rb \<longleftrightarrow> rb_items C rb = []) \<and>
    (rb_full C rb \<longleftrightarrow> length (rb_items C rb) = unat C - 1)"
proof -
  have bound: "length (rb_items C rb) \<le> unat C - 1" by (rule ring.bounded[OF assms])
  have push: "case rb_push C x rb of (done', rb') \<Rightarrow> rb_ok C rb' \<and>
      done' = (length (rb_items C rb) < unat C - 1) \<and>
      rb_items C rb' = (if done' then rb_items C rb @ [x] else rb_items C rb)"
    using ring.push_room[OF assms, of x] ring.push_full[OF assms, of x] bound assms
    by (cases "length (rb_items C rb) < unat C - 1") auto
  have pop: "case rb_pop C rb of (item, rb') \<Rightarrow> rb_ok C rb' \<and>
      item = (case rb_items C rb of [] \<Rightarrow> None | y # _ \<Rightarrow> Some y) \<and>
      rb_items C rb' = tl (rb_items C rb)"
    using ring.pop_some[OF assms] ring.pop_none[OF assms] assms
    by (cases "rb_items C rb") fastforce+
  from push pop rb_size_eq[OF assms] rb_empty_iff[OF assms] rb_full_iff[OF assms]
    rb_items_Nil[of C rb]
  show ?thesis by simp
qed

theorem ring_is_queue_witness:
  "rb_items 4 (snd (rb_push 4 9 demo_ring)) = [7, 8, 9] \<and> fst (rb_pop 4 demo_ring) = Some 7 \<and>
   rb_items 4 (snd (rb_pop 4 demo_ring)) = [8] \<and> unat (rb_size 4 demo_ring) = 2"
  using ring_is_queue[OF demo_ring_ok(1), of 9] by (auto simp: demo_ring_ok(2) split: prod.splits)

text \<open>C27: A producer that ignores the result of \<open>push\<close>, as the order book and the message parser do,
  loses what does not fit: of the items pushed into an empty buffer of the program's capacity before
  the consumer runs, the first 127 are kept and the rest are dropped.\<close>

theorem full_ring_drops:
  "rb_items 128 (fold (\<lambda>x rb. snd (rb_push 128 x rb)) xs (new_RingBuffer 128 d)) = take 127 xs"
  using ring.push_all_items[OF new_RingBuffer_ok(1)[OF cap_128], of xs d]
  by (simp add: ring.push_all_def new_RingBuffer_ok(2)[OF cap_128])

section \<open>The threads and the sequential buffer\<close>

text \<open>Only the publication and the advance change what is between the threads.\<close>

lemma push_step_pushed:
  assumes "push_step C act s = Some s'"
  shows "popped s' = popped s" and "act \<noteq> Pop_advance"
    and "act \<noteq> Push_publish \<Longrightarrow> pushed s' = pushed s"
    and "act = Push_publish \<Longrightarrow> \<exists>x h. producer s = P_stored x h \<and> pushed s' = pushed s @ [x]"
  using assms by (cases act; cases "producer s"; auto simp: Let_def split: if_splits)+

lemma pop_step_popped:
  assumes "pop_step block C act s = Some s'"
  shows "pushed s' = pushed s" and "act \<noteq> Push_publish"
    and "act \<noteq> Pop_advance \<Longrightarrow> popped s' = popped s"
    and "act = Pop_advance \<Longrightarrow> \<exists>x t. consumer s = C_read x t \<and> popped s' = popped s @ [x]"
  using assms by (cases act; auto simp: Let_def split: Consumer.splits Consumer_loc.splits if_splits)+

lemma spsc_step_inv: "\<lbrakk> spsc_inv block C s; spsc_step block C act s = Some s' \<rbrakk> \<Longrightarrow> spsc_inv block C s'"
  by (auto simp: spsc_step_def split: option.splits dest: push_step_inv pop_step_inv)

lemma publish_refines:
  assumes inv: "spsc_inv block C s" and step: "push_step C Push_publish s = Some s'"
  shows "\<exists>x h rb'. producer s = P_stored x h \<and> rb_push C x (spsc_buffer s) = (True, rb') \<and>
    rb_items C (spsc_buffer s') = rb_items C rb'"
proof -
  obtain x h where at: "producer s = P_stored x h" "pushed s' = pushed s @ [x]"
    using push_step_pushed(4)[OF step] by blast
  have popped: "popped s' = popped s" by (rule push_step_pushed(1)[OF step])
  note now = spsc_buffer_items[OF inv] and nxt = spsc_buffer_items[OF push_step_inv[OF inv step]]
  have "slots_ok C s'" using push_step_inv[OF inv step] by (simp add: spsc_inv_def)
  then have room: "length (pushed s) + 1 < length (popped s) + unat C"
    by (simp add: slots_ok_def at popped)
  have le: "length (popped s) \<le> length (pushed s)" using inv by (simp add: spsc_inv_def slots_ok_def)
  from room le have "length (rb_items C (spsc_buffer s)) < unat C - 1"
    by (simp add: now(2) del: length_rb_items)
  with le show ?thesis
    using ring.push_room[OF now(1), of x] by (auto simp: at popped now(2) nxt(2))
qed

lemma advance_refines:
  assumes inv: "spsc_inv block C s" and step: "pop_step block C Pop_advance s = Some s'"
  shows "\<exists>x t rb'. consumer s = C_read x t \<and> rb_pop C (spsc_buffer s) = (Some x, rb') \<and>
    rb_items C (spsc_buffer s') = rb_items C rb'"
proof -
  obtain x t where at: "consumer s = C_read x t" "popped s' = popped s @ [x]"
    using pop_step_popped(4)[OF step] by blast
  have pushed: "pushed s' = pushed s" by (rule pop_step_popped(1)[OF step])
  note now = spsc_buffer_items[OF inv] and nxt = spsc_buffer_items[OF pop_step_inv[OF inv step]]
  have "x = pushed s ! length (popped s)" and "length (popped s) < length (pushed s)"
    using inv consumer_okD(7)[OF inv] at(1) by (auto simp: spsc_inv_def consumer_ok_def)
  then have "rb_items C (spsc_buffer s) = x # rb_items C (spsc_buffer s')"
    by (simp add: now(2) nxt(2) at(2) pushed Cons_nth_drop_Suc)
  then show ?thesis using ring.pop_some[OF now(1)] at(1) by fastforce
qed

section \<open>Two threads\<close>

text \<open>C28: In the memory orders of the code, where a load may return any store that is not older than
  what its thread knows of, and under every interleaving of the two threads' accesses, in both wait
  modes: the consumer has received a prefix of what the producer has published, in order and without
  loss or duplication, and what is between them is at most \<open>C - 1\<close> items and is in the buffer that the
  newest stores make, a well-formed one of the sequential model.\<close>

theorem threads_fifo:
  assumes "cap_ok C" and "spsc_reachable block C d s"
  shows "popped s = take (length (popped s)) (pushed s) \<and>
    length (popped s) \<le> length (pushed s) \<and> length (pushed s) - length (popped s) \<le> unat C - 1 \<and>
    rb_ok C (spsc_buffer s) \<and> rb_items C (spsc_buffer s) = drop (length (popped s)) (pushed s)"
proof -
  have inv: "spsc_inv block C s" by (rule spsc_reachable_inv[OF assms])
  then have "slots_ok C s" by (simp add: spsc_inv_def)
  with spsc_buffer_items[OF inv] show ?thesis by (auto simp: slots_ok_def)
qed

theorem threads_fifo_witness:
  "rb_items 4 (spsc_buffer demo_threads) = [7, 9] \<and> popped demo_threads = []"
  using threads_fifo[OF cap_4 demo_threads_reachable] by (simp add: demo_threads_run)

text \<open>C29: The two threads refine the sequential buffer: among all their accesses to shared memory only two
  change its contents. The store of the head is the \<open>push\<close> of the producer's item on the buffer at
  that moment, which succeeds; the store of the tail is a \<open>pop\<close>, which returns the item that the
  consumer has read. Every other access leaves the contents as they are. So the steps of the two
  programs may take a push and a pop that succeed to be one step.\<close>

theorem threads_refine_ring:
  assumes "cap_ok C" and "spsc_reachable block C d s" and "spsc_step block C act s = Some s'"
  shows "if act = Push_publish then
      \<exists>x h rb'. producer s = P_stored x h \<and> rb_push C x (spsc_buffer s) = (True, rb') \<and>
        rb_items C (spsc_buffer s') = rb_items C rb'
    else if act = Pop_advance then
      \<exists>x t rb'. consumer s = C_read x t \<and> rb_pop C (spsc_buffer s) = (Some x, rb') \<and>
        rb_items C (spsc_buffer s') = rb_items C rb'
    else rb_items C (spsc_buffer s') = rb_items C (spsc_buffer s)"
proof -
  have inv: "spsc_inv block C s" by (rule spsc_reachable_inv[OF assms(1,2)])
  note same = spsc_buffer_items(2)[OF inv] spsc_buffer_items(2)[OF spsc_step_inv[OF inv assms(3)]]
  show ?thesis
  proof (cases "push_step C act s")
    case None
    with assms(3) have pop: "pop_step block C act s = Some s'" by (simp add: spsc_step_def)
    with advance_refines[OF inv] pop_step_popped[OF pop] show ?thesis by (auto simp: same)
  next
    case (Some s'')
    with assms(3) have push: "push_step C act s = Some s'" by (simp add: spsc_step_def)
    with publish_refines[OF inv] push_step_pushed[OF push] show ?thesis by (auto simp: same)
  qed
qed

theorem threads_refine_ring_witness:
  "\<exists>s s'. spsc_step True 4 Push_check demo_threads = Some s \<and>
     spsc_step True 4 Push_publish s = Some s' \<and> fst (rb_push 4 8 (spsc_buffer s)) \<and>
     rb_items 4 (spsc_buffer s') = rb_items 4 (snd (rb_push 4 8 (spsc_buffer s)))"
proof -
  obtain s where s: "spsc_step True 4 Push_check demo_threads = Some s" "producer s = P_stored 8 2"
    by (simp add: spsc_step_def demo_threads_run Let_def rb_next_def)
  obtain s' where s': "spsc_step True 4 Push_publish s = Some s'"
    by (simp add: spsc_step_def s(2) Let_def)
  have "spsc_run True 4 [Push_check] demo_threads = Some s" using s(1) by simp
  from threads_refine_ring[OF cap_4 spsc_run_reachable[OF this demo_threads_reachable] s'] s s'
  show ?thesis by auto
qed

text \<open>C30: There is no data race: whenever a thread is about to access a slot, every access of the other
  thread to that slot happens before it, by the release stores and semaphore releases its acquire
  operations have read.\<close>

theorem threads_no_data_race:
  assumes "cap_ok C" and "spsc_reachable block C d s"
  shows "\<not> write_races C s \<and> \<not> read_races s"
  using no_write_race no_read_race spsc_reachable_inv[OF assms] by blast

theorem threads_no_data_race_witness:
  "producer demo_threads = P_tail 8 2 0 \<and> consumer demo_threads = Before (C_both 0 1) \<and>
   \<not> write_races 4 demo_threads \<and> \<not> read_races demo_threads"
  using threads_no_data_race[OF cap_4 demo_threads_reachable] by (simp add: demo_threads_run)

text \<open>C31: In blocking mode an acquired semaphore is an item: when \<open>wait_pop\<close> has acquired it, the
  \<open>pop\<close> that follows finds the buffer not empty, however stale the head it reads, and reads the oldest
  item that was published and not yet consumed, so no wake-up is lost or wasted.\<close>

theorem blocking_pop_finds_item:
  assumes "cap_ok C" and "spsc_reachable True C d s" and "consumer s = Before (C_both t h)"
  shows "\<exists>s'. pop_step True C Pop_check s = Some s' \<and>
    consumer s' = C_read (pushed s ! length (popped s)) t \<and> length (popped s) < length (pushed s)"
proof -
  have inv: "spsc_inv True C s" by (rule spsc_reachable_inv[OF assms(1,2)])
  have ne: "h \<noteq> t" by (rule blocking_pop_nonempty[OF inv assms(3)])
  from read_item(1,2)[OF inv assms(3) ne] consumer_okD(7)[OF inv] assms(3) ne show ?thesis
    by (simp add: Let_def)
qed

theorem blocking_pop_finds_item_witness:
  "\<exists>s'. pop_step True 4 Pop_check demo_threads = Some s' \<and> consumer s' = C_read 7 0"
  using blocking_pop_finds_item[OF cap_4 demo_threads_reachable, of 0 1]
  by (auto simp: demo_threads_run)

end
