(* ===== verification/Protocol.thy ===== *)
theory Protocol
  imports Exchange_Types
begin

text \<open>
  The wire format of \<^verbatim>\<open>include/networking/protocol.h\<close>. A packed struct is copied with \<open>memcpy\<close>, so on
  the wire it is the bytes of its fields in order, each in the byte order of the host, which is
  little-endian on the platforms the program supports. A struct is modelled by its list of field
  types, and its value by the integers in the fields; \<open>pack\<close> and \<open>unpack\<close> are the two \<open>memcpy\<close>s.
\<close>

section \<open>Packed structs\<close>

datatype Field = U8 | U16 | U64 | I64

type_synonym Wire = "Field list"

fun field_size :: "Field \<Rightarrow> nat" where
  "field_size U8 = 1" | "field_size U16 = 2" | "field_size U64 = 8" | "field_size I64 = 8"

definition wire_size :: "Wire \<Rightarrow> nat" where
  "wire_size fs = sum_list (map field_size fs)"

fun le_bytes :: "nat \<Rightarrow> nat \<Rightarrow> Byte list" where
  "le_bytes 0 n = []"
| "le_bytes (Suc k) n = of_nat (n mod 256) # le_bytes k (n div 256)"

fun le_value :: "Byte list \<Rightarrow> nat" where
  "le_value [] = 0"
| "le_value (b # bs) = unat b + 256 * le_value bs"

text \<open>Storing an integer in a field keeps it modulo the width, as a conversion or \<open>static_cast\<close> does.\<close>

definition encode_field :: "Field \<Rightarrow> int \<Rightarrow> Byte list" where
  "encode_field f v = le_bytes (field_size f) (nat (v mod 256 ^ field_size f))"

definition decode_field :: "Field \<Rightarrow> Byte list \<Rightarrow> int" where
  "decode_field f bs =
     (let n = int (le_value bs) in if f = I64 \<and> 2 ^ 63 \<le> n then n - 2 ^ 64 else n)"

fun pack :: "Wire \<Rightarrow> int list \<Rightarrow> Byte list" where
  "pack (f # fs) (v # vs) = encode_field f v @ pack fs vs"
| "pack _ _ = []"

fun unpack :: "Wire \<Rightarrow> Byte list \<Rightarrow> int list" where
  "unpack [] src = []"
| "unpack (f # fs) src =
     decode_field f (take (field_size f) src) # unpack fs (drop (field_size f) src)"

section \<open>Reading back what was stored\<close>

fun field_range :: "Field \<Rightarrow> int \<Rightarrow> bool" where
  "field_range U8 v \<longleftrightarrow> 0 \<le> v \<and> v < 256"
| "field_range U16 v \<longleftrightarrow> 0 \<le> v \<and> v < 256 ^ 2"
| "field_range U64 v \<longleftrightarrow> 0 \<le> v \<and> v < 256 ^ 8"
| "field_range I64 v \<longleftrightarrow> in_i64 v"

lemma length_le_bytes [simp]: "length (le_bytes k n) = k"
  by (induction k arbitrary: n) simp_all

lemma le_value_bytes: "n < 256 ^ k \<Longrightarrow> le_value (le_bytes k n) = n"
proof (induction k arbitrary: n)
  case (Suc k)
  have "n div 256 < 256 ^ k" using Suc.prems by (simp add: less_mult_imp_div_less mult.commute)
  moreover have "unat (of_nat (n mod 256) :: Byte) = n mod 256"
    by (simp add: unat_of_nat)
  ultimately show ?case using Suc.IH[of "n div 256"] by simp
qed simp

lemma le_bytes_value: "le_bytes (length bs) (le_value bs) = bs"
proof (induction bs)
  case (Cons b bs)
  have b: "unat b < 256" using unsigned_less[of b] by simp
  then have "(unat b + 256 * le_value bs) div 256 = le_value bs" by simp
  with b Cons show ?case by simp
qed simp

lemma le_value_less: "le_value bs < 256 ^ length bs"
proof (induction bs)
  case (Cons b bs)
  have "unat b < 256" using unsigned_less[of b] by simp
  then have "unat b + 256 * le_value bs < 256 * (le_value bs + 1)" by simp
  also have "\<dots> \<le> 256 * 256 ^ length bs" using Cons by simp
  finally show ?case by simp
qed simp

lemma length_encode_field [simp]: "length (encode_field f v) = field_size f"
  by (simp add: encode_field_def)

lemma decode_encode_field:
  assumes "field_range f v" shows "decode_field f (encode_field f v) = v"
proof -
  let ?k = "field_size f" and ?n = "v mod 256 ^ field_size f"
  have "?n < 256 ^ ?k" "0 \<le> ?n" by simp_all
  then have "nat ?n < 256 ^ ?k" by (simp add: nat_less_iff)
  then have stored: "int (le_value (encode_field f v)) = ?n"
    using \<open>0 \<le> ?n\<close> by (simp add: encode_field_def le_value_bytes)
  show ?thesis
  proof (cases f)
    case I64
    then have v: "- (2 ^ 63) \<le> v" "v < 2 ^ 63"
      using assms by (simp_all add: in_i64_def i64_min_def i64_max_def)
    have "v mod 2 ^ 64 = (if 0 \<le> v then v else v + 2 ^ 64)"
    proof (cases "0 \<le> v")
      case False
      then have "(v + 2 ^ 64) mod 2 ^ 64 = v + 2 ^ 64" using v by (intro mod_pos_pos_trivial) simp_all
      with False show ?thesis by simp
    qed (use v in simp)
    with I64 stored v show ?thesis by (simp add: decode_field_def Let_def)
  qed (use stored assms in \<open>simp_all add: decode_field_def Let_def\<close>)
qed

lemma length_pack:
  "length vs = length fs \<Longrightarrow> length (pack fs vs) = wire_size fs"
  by (induction fs vs rule: list_induct2') (simp_all add: wire_size_def)

lemma unpack_pack:
  "list_all2 field_range fs vs \<Longrightarrow> unpack fs (pack fs vs @ rest) = vs"
  by (induction rule: list_all2_induct) (simp_all add: decode_encode_field)

lemma unpack_take: "wire_size fs \<le> n \<Longrightarrow> unpack fs (take n src) = unpack fs src"
proof (induction fs arbitrary: n src)
  case (Cons f fs)
  then have "field_size f \<le> n" "wire_size fs \<le> n - field_size f" by (simp_all add: wire_size_def)
  with Cons.IH[of "n - field_size f" "drop (field_size f) src"] show ?case
    by (simp add: min_absorb1 drop_take)
qed simp

section \<open>Events: server to client\<close>

datatype MsgType =
    Msg_OrderRested | Msg_OrderFilled | Msg_OrderExpired | Msg_OrderRejected | Msg_OrderCanceled
  | Msg_CancelRejected | Msg_OrderModified | Msg_ModifyRejected | Msg_TradeExecuted | Msg_BookUpdate

fun MsgType_code :: "MsgType \<Rightarrow> int" where
  "MsgType_code Msg_OrderRested = 1"
| "MsgType_code Msg_OrderFilled = 2"
| "MsgType_code Msg_OrderExpired = 3"
| "MsgType_code Msg_OrderRejected = 4"
| "MsgType_code Msg_OrderCanceled = 5"
| "MsgType_code Msg_CancelRejected = 6"
| "MsgType_code Msg_OrderModified = 7"
| "MsgType_code Msg_ModifyRejected = 8"
| "MsgType_code Msg_TradeExecuted = 9"
| "MsgType_code Msg_BookUpdate = 10"

text \<open>The receiver's switch on the type byte; \<open>None\<close> is its default branch.\<close>

definition MsgType_of :: "int \<Rightarrow> MsgType option" where
  "MsgType_of n =
     map_of [(1, Msg_OrderRested), (2, Msg_OrderFilled), (3, Msg_OrderExpired),
       (4, Msg_OrderRejected), (5, Msg_OrderCanceled), (6, Msg_CancelRejected),
       (7, Msg_OrderModified), (8, Msg_ModifyRejected), (9, Msg_TradeExecuted),
       (10, Msg_BookUpdate)] n"

lemma MsgType_of_code [simp]: "MsgType_of (MsgType_code t) = Some t"
  by (cases t) (simp_all add: MsgType_of_def)

definition MsgHeader :: Wire where "MsgHeader = [U8, U16]"

definition WireOrderRested :: Wire where "WireOrderRested = [U64, U64, I64]"
definition WireOrderFilled :: Wire where "WireOrderFilled = [U64, U64]"
definition WireOrderExpired :: Wire where "WireOrderExpired = [U64, U64]"
definition WireOrderRejected :: Wire where "WireOrderRejected = [U64, U8]"
definition WireOrderCanceled :: Wire where "WireOrderCanceled = [U64]"
definition WireCancelRejected :: Wire where "WireCancelRejected = [U64, U8]"
definition WireOrderModified :: Wire where "WireOrderModified = [U64, I64, I64]"
definition WireModifyRejected :: Wire where "WireModifyRejected = [U64, U8]"
definition WireTradeExecuted :: Wire where "WireTradeExecuted = [U64, U64, I64, I64, U8]"
definition WireBookUpdate :: Wire where "WireBookUpdate = [U8, I64, I64]"

text \<open>Every serialiser writes a header with the type and \<open>sizeof\<close> the struct, then the struct.\<close>

definition put_msg :: "int \<Rightarrow> Wire \<Rightarrow> int list \<Rightarrow> Byte list" where
  "put_msg t wire vs = pack MsgHeader [t, int (wire_size wire)] @ pack wire vs"

fun serialise_private :: "PrivateEvent \<Rightarrow> Byte list" where
  "serialise_private (OrderRested oid cid q) =
     put_msg (MsgType_code Msg_OrderRested) WireOrderRested [uint oid, uint cid, q]"
| "serialise_private (OrderFilled oid cid) =
     put_msg (MsgType_code Msg_OrderFilled) WireOrderFilled [uint oid, uint cid]"
| "serialise_private (OrderExpired oid cid) =
     put_msg (MsgType_code Msg_OrderExpired) WireOrderExpired [uint oid, uint cid]"
| "serialise_private (OrderRejected oid r) =
     put_msg (MsgType_code Msg_OrderRejected) WireOrderRejected
       [uint oid, uint (RejectReason_code r)]"
| "serialise_private (OrderCanceled oid) =
     put_msg (MsgType_code Msg_OrderCanceled) WireOrderCanceled [uint oid]"
| "serialise_private (CancelRejected oid r) =
     put_msg (MsgType_code Msg_CancelRejected) WireCancelRejected
       [uint oid, uint (RejectReason_code r)]"
| "serialise_private (OrderModified oid p q) =
     put_msg (MsgType_code Msg_OrderModified) WireOrderModified [uint oid, p, q]"
| "serialise_private (ModifyRejected oid r) =
     put_msg (MsgType_code Msg_ModifyRejected) WireModifyRejected
       [uint oid, uint (RejectReason_code r)]"

definition side_byte :: "Side \<Rightarrow> int" where
  "side_byte s = (if s = Buy then 0 else 1)"

fun serialise_public :: "PublicEvent \<Rightarrow> Byte list" where
  "serialise_public (TradeExecuted b s p q a) =
     put_msg (MsgType_code Msg_TradeExecuted) WireTradeExecuted
       [uint b, uint s, p, q, side_byte a]"
| "serialise_public (BookUpdate s p q) =
     put_msg (MsgType_code Msg_BookUpdate) WireBookUpdate [side_byte s, p, q]"

text \<open>
  The deserialisers read the struct at \<open>src\<close>, the start of the payload, and never fail. \<open>None\<close> marks
  a type that is not of the kind.
\<close>

definition byte_reason :: "int \<Rightarrow> RejectReason" where
  "byte_reason v = RejectReason_of (word_of_int v)"

fun deserialise_private :: "MsgType \<Rightarrow> Byte list \<Rightarrow> PrivateEvent option" where
  "deserialise_private Msg_OrderRested src =
     (let w = unpack WireOrderRested src in
      Some (OrderRested (word_of_int (w ! 0)) (word_of_int (w ! 1)) (w ! 2)))"
| "deserialise_private Msg_OrderFilled src =
     (let w = unpack WireOrderFilled src in
      Some (OrderFilled (word_of_int (w ! 0)) (word_of_int (w ! 1))))"
| "deserialise_private Msg_OrderExpired src =
     (let w = unpack WireOrderExpired src in
      Some (OrderExpired (word_of_int (w ! 0)) (word_of_int (w ! 1))))"
| "deserialise_private Msg_OrderRejected src =
     (let w = unpack WireOrderRejected src in
      Some (OrderRejected (word_of_int (w ! 0)) (byte_reason (w ! 1))))"
| "deserialise_private Msg_OrderCanceled src =
     (let w = unpack WireOrderCanceled src in Some (OrderCanceled (word_of_int (w ! 0))))"
| "deserialise_private Msg_CancelRejected src =
     (let w = unpack WireCancelRejected src in
      Some (CancelRejected (word_of_int (w ! 0)) (byte_reason (w ! 1))))"
| "deserialise_private Msg_OrderModified src =
     (let w = unpack WireOrderModified src in
      Some (OrderModified (word_of_int (w ! 0)) (w ! 1) (w ! 2)))"
| "deserialise_private Msg_ModifyRejected src =
     (let w = unpack WireModifyRejected src in
      Some (ModifyRejected (word_of_int (w ! 0)) (byte_reason (w ! 1))))"
| "deserialise_private _ src = None"

definition byte_side :: "int \<Rightarrow> Side" where
  "byte_side v = (if v = 0 then Buy else Sell)"

fun deserialise_public :: "MsgType \<Rightarrow> Byte list \<Rightarrow> PublicEvent option" where
  "deserialise_public Msg_TradeExecuted src =
     (let w = unpack WireTradeExecuted src in
      Some (TradeExecuted (word_of_int (w ! 0)) (word_of_int (w ! 1)) (w ! 2) (w ! 3)
        (byte_side (w ! 4))))"
| "deserialise_public Msg_BookUpdate src =
     (let w = unpack WireBookUpdate src in
      Some (BookUpdate (byte_side (w ! 0)) (w ! 1) (w ! 2)))"
| "deserialise_public _ src = None"

section \<open>Orders: client to server\<close>

datatype OrderMsgType = Msg_AddOrder | Msg_CancelOrder | Msg_ModifyOrder

fun OrderMsgType_code :: "OrderMsgType \<Rightarrow> int" where
  "OrderMsgType_code Msg_AddOrder = 1"
| "OrderMsgType_code Msg_CancelOrder = 2"
| "OrderMsgType_code Msg_ModifyOrder = 3"

definition OrderMsgType_of :: "int \<Rightarrow> OrderMsgType option" where
  "OrderMsgType_of n = map_of [(1, Msg_AddOrder), (2, Msg_CancelOrder), (3, Msg_ModifyOrder)] n"

lemma OrderMsgType_of_code [simp]: "OrderMsgType_of (OrderMsgType_code t) = Some t"
  by (cases t) (simp_all add: OrderMsgType_of_def)

definition OrderMsgHeader :: Wire where "OrderMsgHeader = [U8, U16]"

definition WireAddOrder :: Wire where "WireAddOrder = [U8, U8, U64, I64, I64, U8]"
definition WireCancelOrder :: Wire where "WireCancelOrder = [U64]"
definition WireModifyOrder :: Wire where "WireModifyOrder = [U64, I64, I64]"

fun wire_of_order :: "OrderMsgType \<Rightarrow> Wire" where
  "wire_of_order Msg_AddOrder = WireAddOrder"
| "wire_of_order Msg_CancelOrder = WireCancelOrder"
| "wire_of_order Msg_ModifyOrder = WireModifyOrder"

fun serialise_order :: "Message \<Rightarrow> Byte list" where
  "serialise_order (Add_msg m) =
     put_msg (OrderMsgType_code Msg_AddOrder) WireAddOrder
       [OrderType_code (ao_order_type m), TimeInForce_code (ao_time_in_force m),
        uint (ao_client_order_id m), ao_price m, ao_quantity m, Side_code (ao_side m)]"
| "serialise_order (Cancel_msg m) =
     put_msg (OrderMsgType_code Msg_CancelOrder) WireCancelOrder [uint (co_id m)]"
| "serialise_order (Modify_msg m) =
     put_msg (OrderMsgType_code Msg_ModifyOrder) WireModifyOrder
       [uint (mo_id m), mo_new_price m, mo_new_quantity m]"

text \<open>The members the wire does not carry keep their default initialisers.\<close>

fun deserialise_order :: "OrderMsgType \<Rightarrow> Byte list \<Rightarrow> Message" where
  "deserialise_order Msg_AddOrder src =
     (let w = unpack WireAddOrder src in
      Add_msg \<lparr>ao_order_type = OrderType_of (w ! 0), ao_time_in_force = TimeInForce_of (w ! 1),
        ao_client_order_id = word_of_int (w ! 2), ao_price = w ! 3, ao_quantity = w ! 4,
        ao_side = Side_of (w ! 5), ao_connection_id = -1, ao_seq = 1\<rparr>)"
| "deserialise_order Msg_CancelOrder src =
     (let w = unpack WireCancelOrder src in
      Cancel_msg \<lparr>co_id = word_of_int (w ! 0), co_connection_id = -1, co_seq = 1\<rparr>)"
| "deserialise_order Msg_ModifyOrder src =
     (let w = unpack WireModifyOrder src in
      Modify_msg \<lparr>mo_id = word_of_int (w ! 0), mo_new_price = w ! 1, mo_new_quantity = w ! 2,
        mo_connection_id = -1, mo_seq = 1\<rparr>)"


section \<open>Valid values\<close>

text \<open>
  Values that survive the wire: numbers within 64 bits, which every \<open>Price\<close> and \<open>Quantity\<close> of the
  code is, and enumeration values that fit their byte. The side of an event is written as one of two
  numbers whatever it is, so an event needs no valid side; it loses its raw value, see \<open>seen_public\<close>.
\<close>

fun private_wire_ok :: "PrivateEvent \<Rightarrow> bool" where
  "private_wire_ok (OrderRested oid cid q) \<longleftrightarrow> in_i64 q"
| "private_wire_ok (OrderRejected oid r) \<longleftrightarrow> RejectReason_canonical r"
| "private_wire_ok (CancelRejected oid r) \<longleftrightarrow> RejectReason_canonical r"
| "private_wire_ok (OrderModified oid p q) \<longleftrightarrow> in_i64 p \<and> in_i64 q"
| "private_wire_ok (ModifyRejected oid r) \<longleftrightarrow> RejectReason_canonical r"
| "private_wire_ok _ \<longleftrightarrow> True"

fun public_wire_ok :: "PublicEvent \<Rightarrow> bool" where
  "public_wire_ok (TradeExecuted b s p q a) \<longleftrightarrow> in_i64 p \<and> in_i64 q"
| "public_wire_ok (BookUpdate s p q) \<longleftrightarrow> in_i64 p \<and> in_i64 q"

fun order_wire_ok :: "Message \<Rightarrow> bool" where
  "order_wire_ok (Add_msg m) \<longleftrightarrow> OrderType_valid (ao_order_type m) \<and>
     TimeInForce_valid (ao_time_in_force m) \<and> Side_valid (ao_side m) \<and>
     in_i64 (ao_price m) \<and> in_i64 (ao_quantity m)"
| "order_wire_ok (Cancel_msg m) \<longleftrightarrow> True"
| "order_wire_ok (Modify_msg m) \<longleftrightarrow> in_i64 (mo_new_price m) \<and> in_i64 (mo_new_quantity m)"

text \<open>
  What the wire does not carry: of an order, who sent it and when; of a public event, which number other
  than that of \<open>Buy\<close> its side has.
\<close>

fun unstamped :: "Message \<Rightarrow> Message" where
  "unstamped (Add_msg m) = Add_msg (m\<lparr>ao_connection_id := -1, ao_seq := 1\<rparr>)"
| "unstamped (Cancel_msg m) = Cancel_msg (m\<lparr>co_connection_id := -1, co_seq := 1\<rparr>)"
| "unstamped (Modify_msg m) = Modify_msg (m\<lparr>mo_connection_id := -1, mo_seq := 1\<rparr>)"

definition wire_side :: "Side \<Rightarrow> Side" where
  "wire_side s = (if s = Buy then Buy else Sell)"

fun seen_public :: "PublicEvent \<Rightarrow> PublicEvent" where
  "seen_public (TradeExecuted b s p q a) = TradeExecuted b s p q (wire_side a)"
| "seen_public (BookUpdate s p q) = BookUpdate (wire_side s) p q"

lemma wire_side_simps [simp]:
  "wire_side Buy = Buy" "wire_side Sell = Sell" "wire_side s = Buy \<longleftrightarrow> s = Buy"
  "wire_side (wire_side s) = wire_side s"
  by (simp_all add: wire_side_def)

lemmas wire_defs =
  MsgHeader_def OrderMsgHeader_def WireOrderRested_def WireOrderFilled_def WireOrderExpired_def
  WireOrderRejected_def WireOrderCanceled_def WireCancelRejected_def WireOrderModified_def
  WireModifyRejected_def WireTradeExecuted_def WireBookUpdate_def WireAddOrder_def
  WireCancelOrder_def WireModifyOrder_def

lemma uint_range_64: "0 \<le> uint (x :: 64 word) \<and> uint x < 256 ^ 8"
  using uint_range_size[of x] by (simp add: word_size)

lemma uint_range_8: "0 \<le> uint (x :: Byte) \<and> uint x < 256"
  using uint_range_size[of x] by (simp add: word_size)

lemma side_byte_range: "0 \<le> side_byte s \<and> side_byte s < 256"
  by (simp add: side_byte_def)

lemma byte_side_byte: "byte_side (side_byte s) = wire_side s"
  by (simp add: wire_side_def byte_side_def side_byte_def)

lemma byte_reason_code: "RejectReason_canonical r \<Longrightarrow> byte_reason (uint (RejectReason_code r)) = r"
  by (simp add: byte_reason_def RejectReason_canonical_def)

lemma enum_ranges:
  "OrderType_valid t \<Longrightarrow> 0 \<le> OrderType_code t \<and> OrderType_code t < 256"
  "TimeInForce_valid f \<Longrightarrow> 0 \<le> TimeInForce_code f \<and> TimeInForce_code f < 256"
  "Side_valid s \<Longrightarrow> 0 \<le> Side_code s \<and> Side_code s < 256"
  "OrderType_valid t \<Longrightarrow> OrderType_of (OrderType_code t) = t"
  "TimeInForce_valid f \<Longrightarrow> TimeInForce_of (TimeInForce_code f) = f"
  "Side_valid s \<Longrightarrow> Side_of (Side_code s) = s"
  by (auto simp: OrderType_valid_def TimeInForce_valid_def Side_valid_def OrderType_of_def
      TimeInForce_of_def Side_of_def)

section \<open>Messages\<close>

text \<open>The header and the payload of a serialised message, as the receiver reads them.\<close>

definition header_size :: nat where
  "header_size = wire_size MsgHeader"

lemma header_size_eq [simp]: "header_size = 3" "wire_size MsgHeader = 3" "wire_size OrderMsgHeader = 3"
  by (simp_all add: header_size_def wire_size_def wire_defs)

lemma put_msg_header:
  assumes "0 \<le> t" and "t < 256" and "wire_size wire < 65536"
  shows "length (put_msg t wire vs) = 3 + length (pack wire vs)"
    and "take 3 (put_msg t wire vs @ rest) = pack MsgHeader [t, int (wire_size wire)]"
    and "drop 3 (put_msg t wire vs @ rest) = pack wire vs @ rest"
    and "unpack MsgHeader (pack MsgHeader [t, int (wire_size wire)] @ bs) = [t, int (wire_size wire)]"
proof -
  have len: "length (pack MsgHeader [t, int (wire_size wire)]) = 3"
    using length_pack[of "[t, int (wire_size wire)]" MsgHeader] by (simp add: wire_defs wire_size_def)
  then show "length (put_msg t wire vs) = 3 + length (pack wire vs)"
    "take 3 (put_msg t wire vs @ rest) = pack MsgHeader [t, int (wire_size wire)]"
    "drop 3 (put_msg t wire vs @ rest) = pack wire vs @ rest"
    by (simp_all add: put_msg_def)
  show "unpack MsgHeader (pack MsgHeader [t, int (wire_size wire)] @ bs) = [t, int (wire_size wire)]"
    by (rule unpack_pack) (use assms in \<open>simp add: wire_defs\<close>)
qed

text \<open>The payload fields of a private event, and the type it is sent under.\<close>

fun private_type :: "PrivateEvent \<Rightarrow> MsgType" where
  "private_type (OrderRested _ _ _) = Msg_OrderRested"
| "private_type (OrderFilled _ _) = Msg_OrderFilled"
| "private_type (OrderExpired _ _) = Msg_OrderExpired"
| "private_type (OrderRejected _ _) = Msg_OrderRejected"
| "private_type (OrderCanceled _) = Msg_OrderCanceled"
| "private_type (CancelRejected _ _) = Msg_CancelRejected"
| "private_type (OrderModified _ _ _) = Msg_OrderModified"
| "private_type (ModifyRejected _ _) = Msg_ModifyRejected"

fun public_type :: "PublicEvent \<Rightarrow> MsgType" where
  "public_type (TradeExecuted _ _ _ _ _) = Msg_TradeExecuted"
| "public_type (BookUpdate _ _ _) = Msg_BookUpdate"

fun order_msg_type :: "Message \<Rightarrow> OrderMsgType" where
  "order_msg_type (Add_msg _) = Msg_AddOrder"
| "order_msg_type (Cancel_msg _) = Msg_CancelOrder"
| "order_msg_type (Modify_msg _) = Msg_ModifyOrder"

fun wire_of_event :: "MsgType \<Rightarrow> Wire" where
  "wire_of_event Msg_OrderRested = WireOrderRested"
| "wire_of_event Msg_OrderFilled = WireOrderFilled"
| "wire_of_event Msg_OrderExpired = WireOrderExpired"
| "wire_of_event Msg_OrderRejected = WireOrderRejected"
| "wire_of_event Msg_OrderCanceled = WireOrderCanceled"
| "wire_of_event Msg_CancelRejected = WireCancelRejected"
| "wire_of_event Msg_OrderModified = WireOrderModified"
| "wire_of_event Msg_ModifyRejected = WireModifyRejected"
| "wire_of_event Msg_TradeExecuted = WireTradeExecuted"
| "wire_of_event Msg_BookUpdate = WireBookUpdate"

lemma wire_sizes:
  "wire_size (wire_of_event t) < 65536" "wire_size (wire_of_order u) < 65536"
  by (cases t; simp add: wire_defs wire_size_def) (cases u; simp add: wire_defs wire_size_def)

lemma type_codes:
  "0 \<le> MsgType_code t" "MsgType_code t < 256" "0 \<le> OrderMsgType_code u" "OrderMsgType_code u < 256"
  by (cases t; simp)+ (cases u; simp)+

lemmas payload_ok = uint_range_64 uint_range_8 side_byte_range enum_ranges

text \<open>The fields of the struct each serialiser fills.\<close>

fun private_fields :: "PrivateEvent \<Rightarrow> int list" where
  "private_fields (OrderRested oid cid q) = [uint oid, uint cid, q]"
| "private_fields (OrderFilled oid cid) = [uint oid, uint cid]"
| "private_fields (OrderExpired oid cid) = [uint oid, uint cid]"
| "private_fields (OrderRejected oid r) = [uint oid, uint (RejectReason_code r)]"
| "private_fields (OrderCanceled oid) = [uint oid]"
| "private_fields (CancelRejected oid r) = [uint oid, uint (RejectReason_code r)]"
| "private_fields (OrderModified oid p q) = [uint oid, p, q]"
| "private_fields (ModifyRejected oid r) = [uint oid, uint (RejectReason_code r)]"

fun public_fields :: "PublicEvent \<Rightarrow> int list" where
  "public_fields (TradeExecuted b s p q a) = [uint b, uint s, p, q, side_byte a]"
| "public_fields (BookUpdate s p q) = [side_byte s, p, q]"

fun order_fields :: "Message \<Rightarrow> int list" where
  "order_fields (Add_msg m) =
     [OrderType_code (ao_order_type m), TimeInForce_code (ao_time_in_force m),
      uint (ao_client_order_id m), ao_price m, ao_quantity m, Side_code (ao_side m)]"
| "order_fields (Cancel_msg m) = [uint (co_id m)]"
| "order_fields (Modify_msg m) = [uint (mo_id m), mo_new_price m, mo_new_quantity m]"

lemma serialise_put:
  "serialise_private pr = put_msg (MsgType_code (private_type pr))
     (wire_of_event (private_type pr)) (private_fields pr)"
  "serialise_public pu = put_msg (MsgType_code (public_type pu))
     (wire_of_event (public_type pu)) (public_fields pu)"
  "serialise_order m = put_msg (OrderMsgType_code (order_msg_type m))
     (wire_of_order (order_msg_type m)) (order_fields m)"
  subgoal by (cases pr) simp_all
  subgoal by (cases pu) simp_all
  subgoal by (cases m) simp_all
  done

lemma fields_range:
  "private_wire_ok pr \<Longrightarrow> list_all2 field_range (wire_of_event (private_type pr)) (private_fields pr)"
  "public_wire_ok pu \<Longrightarrow> list_all2 field_range (wire_of_event (public_type pu)) (public_fields pu)"
  "order_wire_ok m \<Longrightarrow> list_all2 field_range (wire_of_order (order_msg_type m)) (order_fields m)"
  subgoal by (cases pr) (simp_all add: wire_defs payload_ok[simplified])
  subgoal by (cases pu) (simp_all add: wire_defs payload_ok[simplified])
  subgoal by (cases m) (simp_all add: wire_defs payload_ok[simplified])
  done

lemma deserialise_private_payload:
  assumes "private_wire_ok ev"
  shows "deserialise_private (private_type ev)
    (pack (wire_of_event (private_type ev)) (private_fields ev) @ rest) = Some ev"
  using unpack_pack[OF fields_range(1)[OF assms], of rest] assms
  by (cases ev) (simp_all add: byte_reason_code Let_def del: unpack.simps pack.simps)

lemma deserialise_public_payload:
  assumes "public_wire_ok ev"
  shows "deserialise_public (public_type ev)
    (pack (wire_of_event (public_type ev)) (public_fields ev) @ rest) = Some (seen_public ev)"
  using unpack_pack[OF fields_range(2)[OF assms], of rest] assms
  by (cases ev) (simp_all add: byte_side_byte Let_def del: unpack.simps pack.simps)

lemma deserialise_order_payload:
  assumes "order_wire_ok m"
  shows "deserialise_order (order_msg_type m)
    (pack (wire_of_order (order_msg_type m)) (order_fields m) @ rest) = unstamped m"
  using unpack_pack[OF fields_range(3)[OF assms], of rest] assms
  by (cases m) (simp_all add: enum_ranges Let_def del: unpack.simps pack.simps)


section \<open>The contract of a message format\<close>

text \<open>
  What a receiver of a byte stream needs of a format: decoding the bytes of a message followed by
  anything yields the message (as the receiver sees it) and the rest, and no message is empty. Then
  a stream of messages is decoded into exactly these messages.
\<close>

locale stream_format =
  fixes wf :: "'a \<Rightarrow> bool" and seen :: "'a \<Rightarrow> 'b" and encode :: "'a \<Rightarrow> Byte list"
    and decode :: "Byte list \<Rightarrow> ('b \<times> Byte list) option"
  assumes decode_encode: "wf x \<Longrightarrow> decode (encode x @ rest) = Some (seen x, rest)"
    and decode_shrinks: "decode bs = Some (y, rest) \<Longrightarrow> length rest < length bs"
    and decode_empty: "decode [] = None"
begin

fun decode_all :: "nat \<Rightarrow> Byte list \<Rightarrow> 'b list \<times> Byte list" where
  "decode_all 0 bs = ([], bs)"
| "decode_all (Suc n) bs =
     (case decode bs of
        None \<Rightarrow> ([], bs)
      | Some (y, rest) \<Rightarrow> (case decode_all n rest of (ys, rest') \<Rightarrow> (y # ys, rest')))"

lemma decode_all_encode:
  "\<lbrakk> \<forall>x \<in> set xs. wf x; length xs \<le> n; decode rest = None \<rbrakk> \<Longrightarrow>
   decode_all n (concat (map encode xs) @ rest) = (map seen xs, rest)"
proof (induction xs arbitrary: n)
  case Nil
  then show ?case by (cases n) simp_all
next
  case (Cons x xs)
  then show ?case by (cases n) (simp_all add: decode_encode)
qed

lemma encode_injective:
  "\<lbrakk> wf x; wf y; encode x @ r = encode y @ r' \<rbrakk> \<Longrightarrow> seen x = seen y \<and> r = r'"
  using decode_encode[of x r] decode_encode[of y r'] by simp

end

text \<open>
  The reference decoders: a header, then as many bytes as the struct of the type has. An unknown type
  or too few bytes is \<open>None\<close>.
\<close>

fun serialise_event :: "Event \<Rightarrow> Byte list" where
  "serialise_event (Routed conn ev) = serialise_private ev"
| "serialise_event (Public ev) = serialise_public ev"

fun event_wire_ok :: "Event \<Rightarrow> bool" where
  "event_wire_ok (Routed conn ev) = private_wire_ok ev"
| "event_wire_ok (Public ev) = public_wire_ok ev"

text \<open>
  What the client makes of an event: a private event carries the connection id \<open>-1\<close>, a public one a
  side that is \<open>Buy\<close> or \<open>Sell\<close>.
\<close>

fun received :: "Event \<Rightarrow> Event" where
  "received (Routed conn ev) = Routed (-1) ev"
| "received (Public ev) = Public (seen_public ev)"

definition deserialise_event :: "MsgType \<Rightarrow> Byte list \<Rightarrow> Event" where
  "deserialise_event t src =
     (case deserialise_private t src of
        Some ev \<Rightarrow> Routed (-1) ev
      | None \<Rightarrow> Public (the (deserialise_public t src)))"

definition decode_event :: "Byte list \<Rightarrow> (Event \<times> Byte list) option" where
  "decode_event bs =
     (if length bs < 3 then None
      else case MsgType_of (unpack MsgHeader bs ! 0) of
        None \<Rightarrow> None
      | Some t \<Rightarrow>
          let n = wire_size (wire_of_event t); src = drop 3 bs in
          if length src < n then None else Some (deserialise_event t (take n src), drop n src))"

definition decode_order :: "Byte list \<Rightarrow> (Message \<times> Byte list) option" where
  "decode_order bs =
     (if length bs < 3 then None
      else case OrderMsgType_of (unpack OrderMsgHeader bs ! 0) of
        None \<Rightarrow> None
      | Some t \<Rightarrow>
          let n = wire_size (wire_of_order t); src = drop 3 bs in
          if length src < n then None else Some (deserialise_order t (take n src), drop n src))"

lemma unpack_header_take: "unpack MsgHeader (take 3 bs) = unpack MsgHeader bs"
  by (rule unpack_take) simp

lemma decode_put:
  assumes "0 \<le> t" "t < 256" "wire_size wire < 65536" "length (pack wire vs) = wire_size wire"
  shows "length (put_msg t wire vs @ rest) \<ge> 3 + wire_size wire"
    and "unpack MsgHeader (put_msg t wire vs @ rest) = [t, int (wire_size wire)]"
    and "drop 3 (put_msg t wire vs @ rest) = pack wire vs @ rest"
  using put_msg_header[OF assms(1-3)] assms(4)
  by (simp_all add: put_msg_def unpack_header_take[of "_ @ _", symmetric])

lemma decode_event_put:
  assumes "list_all2 field_range (wire_of_event t) vs"
  shows "decode_event (put_msg (MsgType_code t) (wire_of_event t) vs @ rest) =
    Some (deserialise_event t (pack (wire_of_event t) vs), rest)"
proof -
  have len: "length (pack (wire_of_event t) vs) = wire_size (wire_of_event t)"
    by (rule length_pack) (use assms in \<open>simp add: list_all2_lengthD\<close>)
  note put = decode_put[OF type_codes(1,2)[of t] wire_sizes(1)[of t] len, of rest]
  show ?thesis
    using put(1) len unfolding decode_event_def put(2,3) by simp
qed

lemma decode_order_put:
  assumes "list_all2 field_range (wire_of_order t) vs"
  shows "decode_order (put_msg (OrderMsgType_code t) (wire_of_order t) vs @ rest) =
    Some (deserialise_order t (pack (wire_of_order t) vs), rest)"
proof -
  have len: "length (pack (wire_of_order t) vs) = wire_size (wire_of_order t)"
    by (rule length_pack) (use assms in \<open>simp add: list_all2_lengthD\<close>)
  have header: "OrderMsgHeader = MsgHeader" by (simp add: wire_defs)
  note put = decode_put[OF type_codes(3,4)[of t] wire_sizes(2)[of t] len, of rest]
  show ?thesis
    using put(1) len unfolding decode_order_def header put(2,3) by simp
qed

lemma decode_event_serialise:
  assumes "event_wire_ok ev"
  shows "decode_event (serialise_event ev @ rest) = Some (received ev, rest)"
proof (cases ev)
  case (Routed conn e)
  with assms deserialise_private_payload[of e "[]"] decode_event_put[OF fields_range(1)[of e], of rest]
  show ?thesis by (simp add: serialise_put deserialise_event_def)
next
  case (Public e)
  have "deserialise_private (public_type e) src = None" for src by (cases e) simp_all
  with Public assms deserialise_public_payload[of e "[]"]
    decode_event_put[OF fields_range(2)[of e], of rest]
  show ?thesis by (simp add: serialise_put deserialise_event_def)
qed

lemma decode_order_serialise:
  assumes "order_wire_ok m"
  shows "decode_order (serialise_order m @ rest) = Some (unstamped m, rest)"
  using decode_order_put[OF fields_range(3)[OF assms], of rest] deserialise_order_payload[OF assms, of "[]"]
  by (simp add: serialise_put)

interpretation event_format: stream_format event_wire_ok received serialise_event decode_event
proof
  show "length rest < length bs" if "decode_event bs = Some (y, rest)" for bs y rest
    using that by (auto simp: decode_event_def Let_def split: if_splits option.splits)
qed (simp_all add: decode_event_serialise, simp add: decode_event_def)

interpretation order_format: stream_format order_wire_ok unstamped serialise_order decode_order
proof
  show "length rest < length bs" if "decode_order bs = Some (y, rest)" for bs y rest
    using that by (auto simp: decode_order_def Let_def split: if_splits option.splits)
qed (simp_all add: decode_order_serialise, simp add: decode_order_def)

end
