(* ===== verification/Client_State.thy ===== *)
theory Client_State
  imports Protocol
begin

text \<open>
  The receive buffer of one connection (\<^verbatim>\<open>include/networking/client_state.h\<close>,
  \<^verbatim>\<open>networking/client_state.cpp\<close>) and the resumable parser over it
  (\<^verbatim>\<open>networking/msg_parser.cpp\<close>). The positions are at most \<open>STATE_SIZE\<close>, so they are natural numbers;
  \<open>available_bytes\<close> is signed. The message sink is the sequence of messages pushed.
\<close>

section \<open>The buffer\<close>

definition STATE_SIZE :: nat where "STATE_SIZE = 1024"
definition MSG_LIMIT_PER_CONN :: nat where "MSG_LIMIT_PER_CONN = 4"
definition READ_BYTE_BUDGET :: nat where "READ_BYTE_BUDGET = 256"

datatype ParseState = ReadingHeader | ReadingPayload

record ClientState =
  cs_fd :: int
  read_pos :: nat
  write_pos :: nat
  cs_buf :: "Byte list"
  pending_header :: "int \<times> int"
  parse_state :: ParseState

definition new_ClientState :: "int \<Rightarrow> ClientState" where
  "new_ClientState fd =
     \<lparr>cs_fd = fd, read_pos = 0, write_pos = 0, cs_buf = replicate STATE_SIZE 0,
      pending_header = (0, 0), parse_state = ReadingHeader\<rparr>"

definition write_limit :: "ClientState \<Rightarrow> nat" where
  "write_limit st = length (cs_buf st) - write_pos st"

definition available_bytes :: "ClientState \<Rightarrow> int" where
  "available_bytes st = int (write_pos st) - int (read_pos st)"

definition buf_is_full :: "ClientState \<Rightarrow> bool" where
  "buf_is_full st \<longleftrightarrow> write_limit st = 0"

text \<open>\<open>None\<close> is the result \<open>-1\<close>; otherwise the bytes copied out.\<close>

definition cs_read :: "nat \<Rightarrow> ClientState \<Rightarrow> (Byte list \<times> ClientState) option" where
  "cs_read sz st =
     (if available_bytes st < int sz then None
      else Some (take sz (drop (read_pos st) (cs_buf st)), st\<lparr>read_pos := read_pos st + sz\<rparr>))"

definition cs_reset :: "ClientState \<Rightarrow> ClientState" where
  "cs_reset st = st\<lparr>read_pos := 0, write_pos := 0\<rparr>"

text \<open>\<open>memmove\<close> of the unread bytes to the front; the bytes behind them keep their values.\<close>

definition pre_check :: "ClientState \<Rightarrow> ClientState" where
  "pre_check st =
     (if read_pos st = write_pos st then cs_reset st
      else if buf_is_full st then
        (let remaining = nat (available_bytes st);
             unread = take remaining (drop (read_pos st) (cs_buf st)) in
         st\<lparr>cs_buf := unread @ drop remaining (cs_buf st), read_pos := 0, write_pos := remaining\<rparr>)
      else st)"

text \<open>
  The receive into \<open>write_p()\<close> and the advance of \<open>write_pos\<close>, as the server loop does them.
\<close>

definition cs_received :: "Byte list \<Rightarrow> ClientState \<Rightarrow> ClientState" where
  "cs_received bs st =
     st\<lparr>cs_buf := take (write_pos st) (cs_buf st) @ bs @ drop (write_pos st + length bs) (cs_buf st),
        write_pos := write_pos st + length bs\<rparr>"

section \<open>The parser\<close>

fun stamp_message :: "int \<Rightarrow> SequenceNumber \<Rightarrow> Message \<Rightarrow> Message" where
  "stamp_message conn seq (Add_msg m) = Add_msg (m\<lparr>ao_connection_id := conn, ao_seq := seq\<rparr>)"
| "stamp_message conn seq (Cancel_msg m) = Cancel_msg (m\<lparr>co_connection_id := conn, co_seq := seq\<rparr>)"
| "stamp_message conn seq (Modify_msg m) = Modify_msg (m\<lparr>mo_connection_id := conn, mo_seq := seq\<rparr>)"

text \<open>
  What the parser threads through: the client's state, the messages pushed, and the global counter
  \<open>next_seq\<close>.
\<close>

record Parser =
  client :: ClientState
  msg_sink :: "Message list"
  next_seq :: SequenceNumber

definition read_header :: "ClientState \<Rightarrow> ((int \<times> int) \<times> ClientState) option" where
  "read_header st =
     (if parse_state st = ReadingHeader then
        (case cs_read (wire_size OrderMsgHeader) st of
           None \<Rightarrow> None
         | Some (bs, st') \<Rightarrow>
             let w = unpack OrderMsgHeader bs; header = (w ! 0, w ! 1) in
             Some (header, st'\<lparr>parse_state := ReadingPayload, pending_header := header\<rparr>))
      else Some (pending_header st, st))"

definition read_payload :: "OrderMsgType \<Rightarrow> ClientState \<Rightarrow> (Message \<times> ClientState) option" where
  "read_payload t st =
     (case cs_read (wire_size (wire_of_order t)) st of
        None \<Rightarrow> None
      | Some (bs, st') \<Rightarrow> Some (deserialise_order t bs, st'))"

definition parse_message :: "int \<Rightarrow> Parser \<Rightarrow> bool \<times> Parser" where
  "parse_message conn p =
     (case read_header (client p) of
        None \<Rightarrow> (False, p)
      | Some ((t, payload_len), st) \<Rightarrow>
          (case OrderMsgType_of t of
             Some mt \<Rightarrow>
               (case read_payload mt st of
                  None \<Rightarrow> (False, p\<lparr>client := st\<rparr>)
                | Some (m, st') \<Rightarrow>
                    (True, p\<lparr>client := st'\<lparr>parse_state := ReadingHeader\<rparr>,
                             msg_sink := msg_sink p @ [stamp_message conn (next_seq p) m],
                             next_seq := next_seq p + 1\<rparr>))
           | None \<Rightarrow>
               (case cs_read (nat payload_len) st of
                  None \<Rightarrow> (False, p\<lparr>client := st\<rparr>)
                | Some (_, st') \<Rightarrow> (True, p\<lparr>client := st'\<lparr>parse_state := ReadingHeader\<rparr>\<rparr>))))"

text \<open>\<open>parse_ready_client\<close>, with the number of messages it may still parse.\<close>

fun parse_loop :: "nat \<Rightarrow> int \<Rightarrow> Parser \<Rightarrow> nat \<times> Parser" where
  "parse_loop 0 conn p = (0, p)"
| "parse_loop (Suc n) conn p =
     (case parse_message conn p of
        (True, p') \<Rightarrow> (case parse_loop n conn p' of (k, p'') \<Rightarrow> (Suc k, p''))
      | (False, p') \<Rightarrow> (0, p'))"

definition parse_ready_client :: "int \<Rightarrow> Parser \<Rightarrow> nat \<times> Parser" where
  "parse_ready_client conn p = parse_loop MSG_LIMIT_PER_CONN conn p"

section \<open>Well-formed buffers\<close>

definition client_ok :: "ClientState \<Rightarrow> bool" where
  "client_ok st \<longleftrightarrow> length (cs_buf st) = STATE_SIZE \<and> read_pos st \<le> write_pos st \<and>
     write_pos st \<le> STATE_SIZE \<and>
     list_all2 field_range OrderMsgHeader [fst (pending_header st), snd (pending_header st)]"

definition unread :: "ClientState \<Rightarrow> Byte list" where
  "unread st = take (write_pos st - read_pos st) (drop (read_pos st) (cs_buf st))"

text \<open>The bytes received and not yet parsed; a header already read still counts.\<close>

definition pending_bytes :: "ClientState \<Rightarrow> Byte list" where
  "pending_bytes st =
     (if parse_state st = ReadingPayload
      then pack OrderMsgHeader [fst (pending_header st), snd (pending_header st)] else []) @ unread st"

lemma new_ClientState_ok: "client_ok (new_ClientState fd)" "pending_bytes (new_ClientState fd) = []"
  by (simp_all add: client_ok_def new_ClientState_def wire_defs STATE_SIZE_def pending_bytes_def
      unread_def)

lemma unread_alt: "unread st = drop (read_pos st) (take (write_pos st) (cs_buf st))"
  by (simp add: unread_def drop_take)

lemma length_unread: "client_ok st \<Longrightarrow> length (unread st) = write_pos st - read_pos st"
  by (simp add: client_ok_def unread_alt)

lemma cs_read_eq:
  assumes "client_ok st"
  shows "cs_read n st = (if length (unread st) < n then None
    else Some (take n (unread st), st\<lparr>read_pos := read_pos st + n\<rparr>))"
proof -
  have "available_bytes st = int (length (unread st))"
    using assms by (simp add: available_bytes_def length_unread client_ok_def)
  moreover have "take n (drop (read_pos st) (cs_buf st)) = take n (unread st)"
    if "n \<le> length (unread st)"
    using that assms by (simp add: unread_def length_unread min_absorb1)
  ultimately show ?thesis by (simp add: cs_read_def)
qed

lemma unread_after:
  assumes "client_ok st" and "n \<le> length (unread st)"
  shows "unread (st\<lparr>read_pos := read_pos st + n\<rparr>) = drop n (unread st)"
    and "client_ok (st\<lparr>read_pos := read_pos st + n\<rparr>)"
proof -
  show "unread (st\<lparr>read_pos := read_pos st + n\<rparr>) = drop n (unread st)"
    by (simp add: unread_alt add.commute)
  have "n \<le> write_pos st - read_pos st" using assms length_unread[OF assms(1)] by simp
  moreover have "read_pos st \<le> write_pos st" using assms(1) by (simp add: client_ok_def)
  ultimately have "read_pos st + n \<le> write_pos st" by linarith
  with assms(1) show "client_ok (st\<lparr>read_pos := read_pos st + n\<rparr>)" by (simp add: client_ok_def)
qed

lemma unread_whole:
  "client_ok st \<Longrightarrow> buf_is_full st \<Longrightarrow> unread st = drop (read_pos st) (cs_buf st)"
  by (simp add: unread_alt client_ok_def buf_is_full_def write_limit_def)

text \<open>The three cases of \<open>pre_check\<close>, with the unread bytes named.\<close>

lemma pre_check_cases:
  assumes ok: "client_ok st"
  obtains (empty) "unread st = []" "pre_check st = cs_reset st"
  | (full) "write_pos st = STATE_SIZE" "pre_check st =
      st\<lparr>cs_buf := unread st @ drop (length (unread st)) (cs_buf st), read_pos := 0,
         write_pos := length (unread st)\<rparr>"
  | (free) "write_pos st < STATE_SIZE" "pre_check st = st"
proof (cases "read_pos st = write_pos st")
  case True
  then show ?thesis using empty by (simp add: pre_check_def unread_def)
next
  case ne: False
  have remaining: "nat (available_bytes st) = length (unread st)"
    using ok length_unread[OF ok] by (simp add: available_bytes_def client_ok_def)
  show ?thesis
  proof (cases "buf_is_full st")
    case True
    then have whole: "write_pos st = STATE_SIZE"
      using ok by (simp add: buf_is_full_def write_limit_def client_ok_def)
    have "take (length (unread st)) (drop (read_pos st) (cs_buf st)) = unread st"
      using unread_whole[OF ok True] by simp
    with True ne remaining full whole show ?thesis by (simp add: pre_check_def Let_def)
  next
    case False
    with ok ne free show ?thesis
      by (simp add: pre_check_def buf_is_full_def write_limit_def client_ok_def)
  qed
qed

lemma pre_check_ok:
  assumes ok: "client_ok st"
  shows "client_ok (pre_check st)" and "pending_bytes (pre_check st) = pending_bytes st"
    and "write_limit (pre_check st) = 0 \<longrightarrow> length (unread st) = STATE_SIZE"
proof (atomize (full), cases rule: pre_check_cases[OF ok])
  case 1
  then show "client_ok (pre_check st) \<and> pending_bytes (pre_check st) = pending_bytes st \<and>
      (write_limit (pre_check st) = 0 \<longrightarrow> length (unread st) = STATE_SIZE)"
    using ok by (simp add: client_ok_def pending_bytes_def unread_def cs_reset_def write_limit_def
        STATE_SIZE_def)
next
  case 2
  have "length (unread st) \<le> STATE_SIZE"
    using ok length_unread[OF ok] by (auto simp: client_ok_def)
  with 2 ok show "client_ok (pre_check st) \<and> pending_bytes (pre_check st) = pending_bytes st \<and>
      (write_limit (pre_check st) = 0 \<longrightarrow> length (unread st) = STATE_SIZE)"
    by (simp add: client_ok_def pending_bytes_def unread_alt write_limit_def)
next
  case 3
  with ok show "client_ok (pre_check st) \<and> pending_bytes (pre_check st) = pending_bytes st \<and>
      (write_limit (pre_check st) = 0 \<longrightarrow> length (unread st) = STATE_SIZE)"
    by (simp add: client_ok_def write_limit_def)
qed

lemma cs_received_ok:
  assumes "client_ok st" and "length bs \<le> write_limit st"
  shows "client_ok (cs_received bs st)"
    and "pending_bytes (cs_received bs st) = pending_bytes st @ bs"
proof -
  show "client_ok (cs_received bs st)"
    using assms by (auto simp: cs_received_def client_ok_def write_limit_def)
  have "unread (cs_received bs st) = unread st @ bs"
    using assms by (simp add: cs_received_def unread_alt client_ok_def write_limit_def)
  then show "pending_bytes (cs_received bs st) = pending_bytes st @ bs"
    by (simp add: pending_bytes_def) (simp add: cs_received_def)
qed


section \<open>Frames\<close>

text \<open>
  The reference: a frame is a header and a payload whose length the type gives, or, for an unknown
  type, the header. A frame carries a message or, for an unknown type, nothing.
\<close>

definition payload_size :: "int \<Rightarrow> int \<Rightarrow> nat" where
  "payload_size t len =
     (case OrderMsgType_of t of Some mt \<Rightarrow> wire_size (wire_of_order mt) | None \<Rightarrow> nat len)"

definition payload_message :: "int \<Rightarrow> Byte list \<Rightarrow> Message option" where
  "payload_message t src = map_option (\<lambda>mt. deserialise_order mt src) (OrderMsgType_of t)"

definition frame :: "Byte list \<Rightarrow> (Message option \<times> Byte list) option" where
  "frame bs =
     (if length bs < 3 then None
      else let w = unpack OrderMsgHeader bs; n = payload_size (w ! 0) (w ! 1); src = drop 3 bs in
        if length src < n then None else Some (payload_message (w ! 0) (take n src), drop n src))"

lemma unpack_order_header_take: "unpack OrderMsgHeader (take 3 bs) = unpack OrderMsgHeader bs"
  by (rule unpack_take) simp

lemma unpack_order_header_append:
  "3 \<le> length bs \<Longrightarrow> unpack OrderMsgHeader (bs @ rest) = unpack OrderMsgHeader bs"
  using unpack_order_header_take[of "bs @ rest"] unpack_order_header_take[of bs] by simp

lemma frame_append:
  assumes "frame bs = Some (m, r)" shows "frame (bs @ x) = Some (m, r @ x)"
  using assms
  by (auto simp: frame_def Let_def unpack_order_header_append split: if_splits)

text \<open>A header that was read is packed back to the same three bytes.\<close>

lemma encode_decode_unsigned:
  assumes "length bs = field_size f" and "f \<noteq> I64"
  shows "encode_field f (decode_field f bs) = bs" and "field_range f (decode_field f bs)"
proof -
  have less: "le_value bs < 256 ^ field_size f" using le_value_less[of bs] assms(1) by simp
  then have "int (le_value bs) < int (256 ^ field_size f)" by (simp only: of_nat_less_iff)
  then have "int (le_value bs) < 256 ^ field_size f" by simp
  then have range: "0 \<le> decode_field f bs" "decode_field f bs < 256 ^ field_size f"
    "nat (decode_field f bs) = le_value bs"
    using assms(2) by (auto simp: decode_field_def Let_def)
  then show "encode_field f (decode_field f bs) = bs"
    using le_bytes_value[of bs] assms(1) by (simp add: encode_field_def)
  show "field_range f (decode_field f bs)" using range assms(2) by (cases f) simp_all
qed

lemma header_bytes:
  assumes "length h = 3" and "w = unpack OrderMsgHeader h"
  shows "pack OrderMsgHeader [w ! 0, w ! 1] = h" and "list_all2 field_range OrderMsgHeader [w ! 0, w ! 1]"
proof -
  have w: "w = [decode_field U8 (take 1 h), decode_field U16 (take 2 (drop 1 h))]"
    using assms(2) by (simp add: wire_defs)
  have parts: "take 1 h @ take 2 (drop 1 h) = h"
    using assms(1) append_take_drop_id[of 1 h] by simp
  show "pack OrderMsgHeader [w ! 0, w ! 1] = h"
    using encode_decode_unsigned(1)[of "take 1 h" U8] encode_decode_unsigned(1)[of "take 2 (drop 1 h)" U16]
      assms(1) parts
    by (simp add: w wire_defs)
  show "list_all2 field_range OrderMsgHeader [w ! 0, w ! 1]"
    using encode_decode_unsigned(2)[of "take 1 h" U8] encode_decode_unsigned(2)[of "take 2 (drop 1 h)" U16]
      assms(1)
    by (simp add: w wire_defs)
qed

section \<open>The parser takes one frame at a time\<close>

lemma client_ok_parse_state [simp]: "client_ok (st\<lparr>parse_state := s\<rparr>) = client_ok st"
  by (simp add: client_ok_def)

lemma unread_header [simp]:
  "unread (st\<lparr>parse_state := s\<rparr>) = unread st" "unread (st\<lparr>pending_header := h\<rparr>) = unread st"
  by (simp_all add: unread_def)

text \<open>After the header step the state is \<open>ReadingPayload\<close> and no byte is lost.\<close>

lemma read_header_spec:
  assumes ok: "client_ok st"
  shows "case read_header st of
      None \<Rightarrow> length (pending_bytes st) < 3
    | Some ((t, len), st') \<Rightarrow> client_ok st' \<and> pending_bytes st' = pending_bytes st \<and>
        parse_state st' = ReadingPayload \<and> 3 \<le> length (pending_bytes st) \<and>
        unpack OrderMsgHeader (pending_bytes st) = [t, len] \<and> unread st' = drop 3 (pending_bytes st)"
proof (cases "parse_state st")
  case ReadingHeader
  show ?thesis
  proof (cases "length (unread st) < 3")
    case True
    with ReadingHeader ok show ?thesis by (simp add: read_header_def cs_read_eq pending_bytes_def)
  next
    case False
    let ?w = "unpack OrderMsgHeader (take 3 (unread st))"
    have len: "length (take 3 (unread st)) = 3" using False by simp
    note h = header_bytes[OF len refl]
    note after = unread_after[OF ok, of 3]
    have "length ?w = 2" by (simp add: wire_defs)
    then have "?w = [?w ! 0, ?w ! 1]" by (auto simp: list_eq_iff_nth_eq less_2_cases_iff)
    with ReadingHeader False ok after h show ?thesis
      by (simp add: read_header_def cs_read_eq Let_def pending_bytes_def unpack_order_header_take)
         (simp add: client_ok_def)
  qed
next
  case ReadingPayload
  obtain t len where hdr: "pending_header st = (t, len)" by fastforce
  have range: "list_all2 field_range OrderMsgHeader [t, len]" using ok hdr by (simp add: client_ok_def)
  have "length (pack OrderMsgHeader [t, len]) = 3"
    using length_pack[of "[t, len]" OrderMsgHeader] by (simp add: wire_defs wire_size_def)
  with ReadingPayload ok hdr unpack_pack[OF range, of "unread st"] show ?thesis
    by (simp add: read_header_def pending_bytes_def)
qed


text \<open>The messages of a list of frames, stamped with consecutive sequence numbers.\<close>

fun stamp_all :: "int \<Rightarrow> SequenceNumber \<Rightarrow> Message option list \<Rightarrow> Message list" where
  "stamp_all conn seq [] = []"
| "stamp_all conn seq (None # ms) = stamp_all conn seq ms"
| "stamp_all conn seq (Some m # ms) = stamp_message conn seq m # stamp_all conn (seq + 1) ms"

fun seq_after :: "SequenceNumber \<Rightarrow> Message option list \<Rightarrow> SequenceNumber" where
  "seq_after seq [] = seq"
| "seq_after seq (None # ms) = seq_after seq ms"
| "seq_after seq (Some m # ms) = seq_after (seq + 1) ms"

lemma stamp_all_append:
  "stamp_all conn seq (ms @ ms') = stamp_all conn seq ms @ stamp_all conn (seq_after seq ms) ms'"
  by (induction conn seq ms rule: stamp_all.induct) simp_all

lemma seq_after_append: "seq_after seq (ms @ ms') = seq_after (seq_after seq ms) ms'"
  by (induction seq ms rule: seq_after.induct) simp_all

definition parsed :: "int \<Rightarrow> Parser \<Rightarrow> Message option list \<Rightarrow> Parser \<Rightarrow> bool" where
  "parsed conn p ms p' \<longleftrightarrow> client_ok (client p') \<and>
     msg_sink p' = msg_sink p @ stamp_all conn (next_seq p) ms \<and>
     next_seq p' = seq_after (next_seq p) ms"

lemma payload_step:
  assumes ok: "client_ok st" and state: "parse_state st = ReadingPayload"
    and hdr: "unpack OrderMsgHeader bs = [t, len]" "3 \<le> length bs" "unread st = drop 3 bs"
    and pend: "pending_bytes st = bs"
  shows "cs_read (payload_size t len) st = None \<Longrightarrow> frame bs = None"
    and "cs_read (payload_size t len) st = Some (src, st') \<Longrightarrow>
      frame bs = Some (payload_message t src, pending_bytes (st'\<lparr>parse_state := ReadingHeader\<rparr>)) \<and>
      client_ok st'"
proof -
  let ?n = "payload_size t len"
  note read = cs_read_eq[OF ok, of ?n, unfolded hdr(3)]
  show "frame bs = None" if "cs_read ?n st = None"
    using that hdr(1,2) by (auto simp: read frame_def Let_def split: if_splits)
  assume some: "cs_read ?n st = Some (src, st')"
  then have enough: "?n \<le> length (unread st)" by (auto simp: read hdr(3) split: if_splits)
  have "frame bs = Some (payload_message t src, drop ?n (drop 3 bs))"
    using some hdr(1,2) by (auto simp: read frame_def Let_def split: if_splits)
  moreover have "st' = st\<lparr>read_pos := read_pos st + ?n\<rparr>" using some by (auto simp: read split: if_splits)
  ultimately show "frame bs = Some (payload_message t src,
      pending_bytes (st'\<lparr>parse_state := ReadingHeader\<rparr>)) \<and> client_ok st'"
    using unread_after[OF ok enough] by (simp add: pending_bytes_def hdr(3))
qed

lemma parse_message_frame:
  assumes ok: "client_ok (client p)"
  shows "case frame (pending_bytes (client p)) of
      None \<Rightarrow> \<exists>p'. parse_message conn p = (False, p') \<and> parsed conn p [] p' \<and>
        pending_bytes (client p') = pending_bytes (client p)
    | Some (m, r) \<Rightarrow> \<exists>p'. parse_message conn p = (True, p') \<and> parsed conn p [m] p' \<and>
        pending_bytes (client p') = r"
proof (cases "read_header (client p)")
  case None
  then have "frame (pending_bytes (client p)) = None"
    using read_header_spec[OF ok] by (simp add: frame_def)
  with None ok show ?thesis by (simp add: parse_message_def parsed_def)
next
  case (Some x)
  obtain t len st where x: "read_header (client p) = Some ((t, len), st)" using Some by (cases x) auto
  let ?bs = "pending_bytes (client p)" and ?n = "payload_size t len"
  have st: "client_ok st" "pending_bytes st = ?bs" "parse_state st = ReadingPayload"
    "3 \<le> length ?bs" "unpack OrderMsgHeader ?bs = [t, len]" "unread st = drop 3 ?bs"
    using read_header_spec[OF ok] x by simp_all
  note step = payload_step[OF st(1,3,5,4,6,2)]
  show ?thesis
  proof (cases "cs_read ?n st")
    case None
    have "parse_message conn p = (False, p\<lparr>client := st\<rparr>)"
      using None by (auto simp: parse_message_def x read_payload_def payload_size_def split: option.splits)
    with step(1)[OF None] st show ?thesis by (simp add: parsed_def)
  next
    case (Some y)
    obtain src st' where y: "cs_read ?n st = Some (src, st')" using Some by (cases y) auto
    have "\<exists>p'. parse_message conn p = (True, p') \<and> parsed conn p [payload_message t src] p' \<and>
        client p' = st'\<lparr>parse_state := ReadingHeader\<rparr>"
      using y step(2)[OF y]
      by (auto simp: parse_message_def x read_payload_def payload_size_def payload_message_def
          parsed_def split: option.splits)
    with step(2)[OF y] show ?thesis by auto
  qed
qed

section \<open>A stream of frames\<close>

inductive consumes :: "Message option list \<Rightarrow> Byte list \<Rightarrow> Byte list \<Rightarrow> bool" where
  no_more: "consumes [] bs bs"
| more: "\<lbrakk> frame bs = Some (m, bs'); consumes ms bs' r \<rbrakk> \<Longrightarrow> consumes (m # ms) bs r"

inductive_simps consumes_Nil [simp]: "consumes [] bs r"
inductive_simps consumes_Cons: "consumes (m # ms) bs r"

lemma consumes_append: "consumes ms bs r \<Longrightarrow> consumes ms (bs @ x) (r @ x)"
  by (induction rule: consumes.induct) (auto intro: consumes.intros frame_append)

lemma consumes_trans: "\<lbrakk> consumes ms bs r; consumes ms' r r' \<rbrakk> \<Longrightarrow> consumes (ms @ ms') bs r'"
  by (induction rule: consumes.induct) (auto intro: consumes.intros)

lemma parsed_trans:
  assumes "parsed conn p ms p'" and "parsed conn p' ms' p''" shows "parsed conn p (ms @ ms') p''"
  using assms by (simp add: parsed_def stamp_all_append seq_after_append)

lemma parse_loop_frames:
  assumes "client_ok (client p)" and "parse_loop n conn p = (k, p')"
  shows "\<exists>ms. consumes ms (pending_bytes (client p)) (pending_bytes (client p')) \<and>
    parsed conn p ms p' \<and> length ms = k \<and> k \<le> n \<and>
    (k < n \<longrightarrow> frame (pending_bytes (client p')) = None)"
  using assms
proof (induction n arbitrary: p k)
  case 0
  then show ?case by (auto simp: parsed_def intro!: exI[of _ "[]"])
next
  case (Suc n)
  note step = parse_message_frame[OF Suc.prems(1), of conn]
  show ?case
  proof (cases "frame (pending_bytes (client p))")
    case None
    with step Suc.prems(2) show ?thesis by (auto intro!: exI[of _ "[]"])
  next
    case (Some x)
    obtain m r where x: "frame (pending_bytes (client p)) = Some (m, r)" using Some by (cases x) auto
    with step obtain p1 where p1: "parse_message conn p = (True, p1)" "parsed conn p [m] p1"
      "pending_bytes (client p1) = r"
      by auto
    obtain k1 where k1: "parse_loop n conn p1 = (k1, p')" "k = Suc k1"
      using Suc.prems(2) p1(1) by (auto split: prod.splits)
    have "client_ok (client p1)" using p1(2) by (simp add: parsed_def)
    from Suc.IH[OF this k1(1)] obtain ms where ms:
      "consumes ms r (pending_bytes (client p'))" "parsed conn p1 ms p'" "length ms = k1" "k1 \<le> n"
      "k1 < n \<longrightarrow> frame (pending_bytes (client p')) = None"
      by (auto simp: p1(3))
    have "consumes (m # ms) (pending_bytes (client p)) (pending_bytes (client p'))"
      using consumes.more[OF x ms(1)] .
    moreover have "parsed conn p (m # ms) p'" using parsed_trans[OF p1(2) ms(2)] by simp
    ultimately show ?thesis using ms(3-5) k1(2) by (intro exI[of _ "m # ms"]) simp
  qed
qed

end
