(* ===== verification/Sockets.thy ===== *)
theory Sockets
  imports Client_State
begin

text \<open>
  The socket loops of \<^verbatim>\<open>include/networking/socket_utils.h\<close>. The system calls \<open>send\<close> and \<open>recv\<close> are
  parameters: functions of an environment \<open>'s\<close>, the file descriptor and the request. What POSIX
  documents of them is stated as \<open>recv_law\<close> and \<open>send_law\<close>: a call transfers between one byte and the
  request, or nothing at the end of the stream, and says so.
\<close>

section \<open>Receiving\<close>

text \<open>The outcomes of \<open>recv\<close>; \<open>Received []\<close> is the return value 0, \<open>Would_block\<close> is \<open>EAGAIN\<close>.\<close>

datatype recv_result = Received "Byte list" | Would_block | Recv_error

type_synonym 's recv = "'s \<Rightarrow> int \<Rightarrow> nat \<Rightarrow> recv_result \<times> 's"

text \<open>The return value of the loop, the bytes stored in the buffer, and the environment.\<close>

function recv_nb_loop ::
  "'s recv \<Rightarrow> int \<Rightarrow> nat \<Rightarrow> Byte list \<Rightarrow> 's \<Rightarrow> int \<times> Byte list \<times> 's"
where
  "recv_nb_loop recv fd budget buf s =
     (if length buf < budget then
        (case recv s fd (budget - length buf) of
           (Would_block, s') \<Rightarrow> (int (length buf), buf, s')
         | (Recv_error, s') \<Rightarrow> (-1, buf, s')
         | (Received bs, s') \<Rightarrow>
             if bs = [] then (-2, buf, s') else recv_nb_loop recv fd budget (buf @ bs) s')
      else (int (length buf), buf, s))"
  by pat_completeness auto
termination
  by (relation "measure (\<lambda>(_, _, budget, buf, _). budget - length buf)")
     (auto simp flip: length_greater_0_conv)

declare recv_nb_loop.simps [simp del]

definition recv_nb_til_limit :: "'s recv \<Rightarrow> int \<Rightarrow> nat \<Rightarrow> 's \<Rightarrow> int \<times> Byte list \<times> 's" where
  "recv_nb_til_limit recv fd budget s = recv_nb_loop recv fd budget [] s"

text \<open>The blocking variant waits for the whole length; an error or the end of the stream ends it.\<close>

function recv_all_loop ::
  "'s recv \<Rightarrow> int \<Rightarrow> nat \<Rightarrow> Byte list \<Rightarrow> 's \<Rightarrow> int \<times> Byte list \<times> 's"
where
  "recv_all_loop recv fd len buf s =
     (if length buf < len then
        (case recv s fd (len - length buf) of
           (Received bs, s') \<Rightarrow>
             if bs = [] then (0, buf, s') else recv_all_loop recv fd len (buf @ bs) s'
         | (_, s') \<Rightarrow> (-1, buf, s'))
      else (int (length buf), buf, s))"
  by pat_completeness auto
termination
  by (relation "measure (\<lambda>(_, _, len, buf, _). len - length buf)")
     (auto simp flip: length_greater_0_conv)

declare recv_all_loop.simps [simp del]

definition recv_all :: "'s recv \<Rightarrow> int \<Rightarrow> nat \<Rightarrow> 's \<Rightarrow> int \<times> Byte list \<times> 's" where
  "recv_all recv fd len s = recv_all_loop recv fd len [] s"

text \<open>
  The documented behaviour: \<open>incoming s fd\<close> is what the peer has sent and the program has not read;
  a call returns a piece of its front, not longer than the request.
\<close>

definition recv_law :: "'s recv \<Rightarrow> ('s \<Rightarrow> int \<Rightarrow> Byte list) \<Rightarrow> bool" where
  "recv_law recv incoming \<longleftrightarrow>
     (\<forall>s fd n. case recv s fd n of
        (Received bs, s') \<Rightarrow> length bs \<le> n \<and> incoming s fd = bs @ incoming s' fd
      | (_, s') \<Rightarrow> incoming s' fd = incoming s fd)"

lemma recv_law_cases:
  assumes "recv_law recv incoming" and "recv s fd n = (r, s')"
  shows "case r of Received bs \<Rightarrow> length bs \<le> n \<and> incoming s fd = bs @ incoming s' fd
    | _ \<Rightarrow> incoming s' fd = incoming s fd"
proof -
  have "case recv s fd n of
        (Received bs, s') \<Rightarrow> length bs \<le> n \<and> incoming s fd = bs @ incoming s' fd
      | (_, s') \<Rightarrow> incoming s' fd = incoming s fd"
    using assms(1) by (simp add: recv_law_def)
  with assms(2) show ?thesis by (auto split: recv_result.splits)
qed

text \<open>
  What the loop stores is the front of the incoming bytes, within the budget; a result that is not
  negative is their number.
\<close>

definition recv_stored ::
  "('s \<Rightarrow> int \<Rightarrow> Byte list) \<Rightarrow> int \<Rightarrow> nat \<Rightarrow> 's \<Rightarrow> int \<times> Byte list \<times> 's \<Rightarrow> bool"
where
  "recv_stored incoming fd n s r \<longleftrightarrow>
     (case r of (got, bs, s') \<Rightarrow> incoming s fd = bs @ incoming s' fd \<and> length bs \<le> n \<and>
        (got = int (length bs) \<or> got = -1 \<or> got = -2))"

lemma recv_nb_loop_spec:
  assumes law: "recv_law recv incoming" and "length buf \<le> budget"
  shows "case recv_nb_loop recv fd budget buf s of (got, buf', s') \<Rightarrow>
    \<exists>bs. buf' = buf @ bs \<and> incoming s fd = bs @ incoming s' fd \<and> length buf' \<le> budget \<and>
      (got = int (length buf') \<or> got = -1 \<or> got = -2)"
  using assms(2)
proof (induction "budget - length buf" arbitrary: buf s rule: less_induct)
  case less
  show ?case
  proof (cases "length buf < budget")
    case False
    with less.prems show ?thesis by (subst recv_nb_loop.simps) simp
  next
    case True
    obtain r s1 where call: "recv s fd (budget - length buf) = (r, s1)" by fastforce
    note got = recv_law_cases[OF law call]
    show ?thesis
    proof (cases r)
      case (Received bs)
      show ?thesis
      proof (cases "bs = []")
        case True
        with call Received got less.prems show ?thesis
          by (subst recv_nb_loop.simps) (auto split: if_splits)
      next
        case False
        then have "0 < length bs" by simp
        then have "budget - length (buf @ bs) < budget - length buf" "length (buf @ bs) \<le> budget"
          using \<open>length buf < budget\<close> got Received
          by (simp_all only: length_append recv_result.case, linarith+)
        from less.hyps[OF this, of s1] show ?thesis
          using \<open>length buf < budget\<close> call Received False got by (subst recv_nb_loop.simps) fastforce
      qed
    qed (use True call got less.prems in \<open>subst recv_nb_loop.simps, simp\<close>)+
  qed
qed

lemma recv_nb_til_limit_spec:
  "recv_law recv incoming \<Longrightarrow> recv_stored incoming fd n s (recv_nb_til_limit recv fd n s)"
  using recv_nb_loop_spec[where buf = "[]" and budget = n and fd = fd and s = s]
  by (auto simp: recv_stored_def recv_nb_til_limit_def)

text \<open>The blocking receive returns the whole length, or zero or less.\<close>

lemma recv_all_loop_spec:
  assumes law: "recv_law recv incoming" and "length buf \<le> len"
  shows "case recv_all_loop recv fd len buf s of (got, buf', s') \<Rightarrow>
    \<exists>bs. buf' = buf @ bs \<and> incoming s fd = bs @ incoming s' fd \<and>
      (got = int len \<and> length buf' = len \<or> got \<le> 0 \<and> length buf' < len)"
  using assms(2)
proof (induction "len - length buf" arbitrary: buf s rule: less_induct)
  case less
  show ?case
  proof (cases "length buf < len")
    case False
    with less.prems show ?thesis by (subst recv_all_loop.simps) simp
  next
    case True
    obtain r s1 where call: "recv s fd (len - length buf) = (r, s1)" by fastforce
    note got = recv_law_cases[OF law call]
    show ?thesis
    proof (cases r)
      case (Received bs)
      show ?thesis
      proof (cases "bs = []")
        case True
        with call Received got \<open>length buf < len\<close> show ?thesis
          by (subst recv_all_loop.simps) (auto split: if_splits)
      next
        case False
        then have "0 < length bs" by simp
        then have "len - length (buf @ bs) < len - length buf" "length (buf @ bs) \<le> len"
          using \<open>length buf < len\<close> got Received
          by (simp_all only: length_append recv_result.case, linarith+)
        from less.hyps[OF this, of s1] show ?thesis
          using \<open>length buf < len\<close> call Received False got by (subst recv_all_loop.simps) fastforce
      qed
    qed (use True call got in \<open>subst recv_all_loop.simps, simp\<close>)+
  qed
qed

text \<open>
  On a blocking socket, and on any socket whose peer has closed, a call with bytes to come returns some
  of them, and one at the end of the stream returns none.
\<close>

definition recv_blocks :: "'s recv \<Rightarrow> ('s \<Rightarrow> int \<Rightarrow> Byte list) \<Rightarrow> bool" where
  "recv_blocks recv incoming \<longleftrightarrow> recv_law recv incoming \<and>
     (\<forall>s fd n. 0 < n \<longrightarrow> (case recv s fd n of
        (Received bs, _) \<Rightarrow> bs = [] \<longleftrightarrow> incoming s fd = [] | _ \<Rightarrow> False))"

lemma recv_blocks_cases:
  assumes "recv_blocks recv incoming" and "0 < n"
  shows "\<exists>bs s'. recv s fd n = (Received bs, s') \<and> length bs \<le> n \<and>
    incoming s fd = bs @ incoming s' fd \<and> (bs = []) = (incoming s fd = [])"
proof -
  obtain r s' where call: "recv s fd n = (r, s')" by fastforce
  have "case recv s fd n of (Received bs, _) \<Rightarrow> bs = [] \<longleftrightarrow> incoming s fd = [] | _ \<Rightarrow> False"
    using assms by (simp add: recv_blocks_def)
  then obtain bs where r: "r = Received bs" and empty: "(bs = []) = (incoming s fd = [])"
    unfolding call by (cases r) simp_all
  have "recv_law recv incoming" using assms(1) by (simp add: recv_blocks_def)
  from recv_law_cases[OF this call] r have "length bs \<le> n \<and> incoming s fd = bs @ incoming s' fd"
    by (simp only: recv_result.case)
  with call r empty show ?thesis by blast
qed

text \<open>
  The loop that stops at the end of the stream returns \<open>-2\<close>, whatever it has received before.
\<close>

lemma recv_nb_loop_closed:
  assumes blocks: "recv_blocks recv incoming" and "length buf + length (incoming s fd) < budget"
  shows "\<exists>s'. recv_nb_loop recv fd budget buf s = (-2, buf @ incoming s fd, s') \<and> incoming s' fd = []"
  using assms(2)
proof (induction "length (incoming s fd)" arbitrary: buf s rule: less_induct)
  case less
  have "0 < budget - length buf" using less.prems by simp
  from recv_blocks_cases[OF blocks this, of s fd] obtain bs s1 where r:
    "recv s fd (budget - length buf) = (Received bs, s1)"
    "incoming s fd = bs @ incoming s1 fd" "(bs = []) = (incoming s fd = [])"
    by blast
  show ?case
  proof (cases "bs = []")
    case True
    have empty: "incoming s fd = []" using r(3) True by blast
    moreover have "incoming s1 fd = []" using r(2) unfolding True empty by simp
    moreover have "recv_nb_loop recv fd budget buf s = (-2, buf, s1)"
      using less.prems r(1) True by (subst recv_nb_loop.simps) simp
    ultimately show ?thesis by simp
  next
    case False
    then have "length (incoming s1 fd) < length (incoming s fd)"
      "length (buf @ bs) + length (incoming s1 fd) < budget"
      using less.prems unfolding r(2) by simp_all
    from less.hyps[OF this] obtain s' where
      "recv_nb_loop recv fd budget (buf @ bs) s1 = (-2, (buf @ bs) @ incoming s1 fd, s')"
      "incoming s' fd = []"
      by blast
    moreover have "recv_nb_loop recv fd budget buf s = recv_nb_loop recv fd budget (buf @ bs) s1"
      using less.prems r(1) False by (subst recv_nb_loop.simps) simp
    ultimately show ?thesis unfolding r(2) by simp
  qed
qed

text \<open>What no call of \<open>recv\<close> changes, the loop does not change.\<close>

lemma recv_nb_loop_quiet:
  "\<lbrakk> recv_nb_loop recv fd budget buf s = (got, bs, s'); \<forall>s fd n. out (snd (recv s fd n)) = out s \<rbrakk> \<Longrightarrow>
   out s' = out s"
proof (induction recv fd budget buf s rule: recv_nb_loop.induct)
  case (1 recv fd budget buf s)
  obtain r s1 where call: "recv s fd (budget - length buf) = (r, s1)" by fastforce
  have out: "out s1 = out s" using "1.prems"(2) call by (metis snd_conv)
  show ?case
  proof (cases "length buf < budget")
    case False
    with "1.prems"(1) show ?thesis by (subst (asm) recv_nb_loop.simps) simp
  next
    case True
    show ?thesis
    proof (cases r)
      case (Received new)
      show ?thesis
      proof (cases "new = []")
        case True
        with "1.prems"(1) call Received \<open>length buf < budget\<close> out show ?thesis
          by (subst (asm) recv_nb_loop.simps) simp
      next
        case False
        with "1.prems"(1) call Received True
        have "recv_nb_loop recv fd budget (buf @ new) s1 = (got, bs, s')"
          by (subst (asm) recv_nb_loop.simps) simp
        with "1.IH"[OF True call[symmetric] Received False] "1.prems"(2) out show ?thesis by simp
      qed
    qed (use True "1.prems"(1) call out in \<open>subst (asm) recv_nb_loop.simps, simp\<close>)+
  qed
qed

section \<open>Sending\<close>

text \<open>The outcomes of \<open>send\<close>; every error, \<open>EAGAIN\<close> included, is \<open>Send_error\<close>.\<close>

datatype send_result = Sent nat | Send_error

type_synonym 's send = "'s \<Rightarrow> int \<Rightarrow> Byte list \<Rightarrow> send_result \<times> 's"

text \<open>The loop ends only when everything is sent or a call fails, so it may not end at all.\<close>

partial_function (option) send_loop ::
  "'s send \<Rightarrow> int \<Rightarrow> Byte list \<Rightarrow> nat \<Rightarrow> 's \<Rightarrow> (int \<times> 's) option"
where
  "send_loop send fd buf sent s =
     (if sent < length buf then
        (case send s fd (drop sent buf) of
           (Send_error, s') \<Rightarrow> Some (-1, s')
         | (Sent n, s') \<Rightarrow> send_loop send fd buf (sent + n) s')
      else Some (int sent, s))"

declare send_loop.simps [code]

definition send_all :: "'s send \<Rightarrow> int \<Rightarrow> Byte list \<Rightarrow> 's \<Rightarrow> (int \<times> 's) option" where
  "send_all send fd buf s = send_loop send fd buf 0 s"

text \<open>
  The documented behaviour: \<open>outgoing s fd\<close> is everything the connection has accepted. A call with
  bytes to send accepts between one and all of them, or fails and accepts none; no other connection
  is touched.
\<close>

definition send_law :: "'s send \<Rightarrow> ('s \<Rightarrow> int \<Rightarrow> Byte list) \<Rightarrow> bool" where
  "send_law send outgoing \<longleftrightarrow>
     (\<forall>s fd bs. bs \<noteq> [] \<longrightarrow> (case send s fd bs of
        (Sent n, s') \<Rightarrow> 0 < n \<and> n \<le> length bs \<and>
          outgoing s' = (outgoing s)(fd := outgoing s fd @ take n bs)
      | (Send_error, s') \<Rightarrow> outgoing s' = outgoing s))"

lemma send_law_cases:
  assumes "send_law send outgoing" and "send s fd bs = (r, s')" and "bs \<noteq> []"
  shows "case r of Sent n \<Rightarrow> 0 < n \<and> n \<le> length bs \<and>
      outgoing s' = (outgoing s)(fd := outgoing s fd @ take n bs)
    | Send_error \<Rightarrow> outgoing s' = outgoing s"
proof -
  have "case send s fd bs of
        (Sent n, s') \<Rightarrow> 0 < n \<and> n \<le> length bs \<and>
          outgoing s' = (outgoing s)(fd := outgoing s fd @ take n bs)
      | (Send_error, s') \<Rightarrow> outgoing s' = outgoing s"
    using assms(1,3) by (simp add: send_law_def)
  with assms(2) show ?thesis by (auto split: send_result.splits)
qed

text \<open>Under the law the loop ends: all was accepted, or a proper prefix was.\<close>

lemma send_loop_spec:
  assumes law: "send_law send outgoing" and "sent \<le> length buf"
  shows "\<exists>r s' n. send_loop send fd buf sent s = Some (r, s') \<and> n \<le> length buf - sent \<and>
    outgoing s' = (outgoing s)(fd := outgoing s fd @ take n (drop sent buf)) \<and>
    (if r = -1 then n < length buf - sent else r = int (length buf) \<and> n = length buf - sent)"
  using assms(2)
proof (induction "length buf - sent" arbitrary: sent s rule: less_induct)
  case less
  show ?case
  proof (cases "sent < length buf")
    case False
    with less.prems show ?thesis by (subst send_loop.simps) auto
  next
    case True
    then have ne: "drop sent buf \<noteq> []" by simp
    obtain r s1 where call: "send s fd (drop sent buf) = (r, s1)" by fastforce
    note law1 = send_law_cases[OF law call ne]
    show ?thesis
    proof (cases r)
      case Send_error
      with True call law1 show ?thesis by (subst send_loop.simps) (auto intro!: exI[of _ 0])
    next
      case (Sent k)
      with law1 have k: "0 < k" "k \<le> length buf - sent"
        "outgoing s1 = (outgoing s)(fd := outgoing s fd @ take k (drop sent buf))"
        by simp_all
      then have "length buf - (sent + k) < length buf - sent" "sent + k \<le> length buf"
        using True by linarith+
      from less.hyps[OF this, of s1] obtain r' s' n where ih:
        "send_loop send fd buf (sent + k) s1 = Some (r', s')" "n \<le> length buf - (sent + k)"
        "outgoing s' = (outgoing s1)(fd := outgoing s1 fd @ take n (drop (sent + k) buf))"
        "if r' = -1 then n < length buf - (sent + k)
         else r' = int (length buf) \<and> n = length buf - (sent + k)"
        by blast
      have "send_loop send fd buf sent s = Some (r', s')"
        using True call Sent ih(1) by (subst send_loop.simps) simp
      moreover have "outgoing s' = (outgoing s)(fd := outgoing s fd @ take (k + n) (drop sent buf))"
        using ih(3) k(3) by (simp add: take_add add.commute)
      moreover have "k + n \<le> length buf - sent" using ih(2) k(2) True by linarith
      moreover have "if r' = -1 then k + n < length buf - sent
          else r' = int (length buf) \<and> k + n = length buf - sent"
        using ih(4) k(2) True by (auto split: if_splits)
      ultimately show ?thesis by blast
    qed
  qed
qed

lemma send_all_spec:
  assumes "send_law send outgoing"
  obtains r s' n where "send_all send fd buf s = Some (r, s')"
    and "outgoing s' = (outgoing s)(fd := outgoing s fd @ take n buf)"
    and "if r = -1 then n < length buf else r = int (length buf) \<and> n = length buf"
proof -
  obtain r s' n where "send_loop send fd buf 0 s = Some (r, s')"
    "outgoing s' = (outgoing s)(fd := outgoing s fd @ take n (drop 0 buf))"
    "if r = -1 then n < length buf - 0 else r = int (length buf) \<and> n = length buf - 0"
    using send_loop_spec[OF assms, where sent = 0 and buf = buf and fd = fd and s = s] by auto
  then show thesis by (intro that[of r s' n]) (auto simp: send_all_def split: if_splits)
qed

text \<open>Connections on which sending does not fail.\<close>

definition send_succeeds :: "'s send \<Rightarrow> ('s \<Rightarrow> int \<Rightarrow> Byte list) \<Rightarrow> bool" where
  "send_succeeds send outgoing \<longleftrightarrow> send_law send outgoing \<and>
     (\<forall>s fd bs. bs \<noteq> [] \<longrightarrow> fst (send s fd bs) \<noteq> Send_error)"

lemma send_loop_succeeds:
  assumes ok: "send_succeeds send outgoing"
  shows "sent \<le> length buf \<Longrightarrow> \<exists>s'. send_loop send fd buf sent s = Some (int (length buf), s') \<and>
    outgoing s' fd = outgoing s fd @ drop sent buf"
proof (induction "length buf - sent" arbitrary: sent s rule: less_induct)
  case less
  show ?case
  proof (cases "sent < length buf")
    case False
    with less.prems show ?thesis by (subst send_loop.simps) simp
  next
    case True
    then have ne: "drop sent buf \<noteq> []" by simp
    obtain n s1 where call: "send s fd (drop sent buf) = (Sent n, s1)"
    proof -
      have "fst (send s fd (drop sent buf)) \<noteq> Send_error" using ok ne by (simp add: send_succeeds_def)
      then show thesis using that
        by (cases "fst (send s fd (drop sent buf))"; cases "send s fd (drop sent buf)") simp_all
    qed
    have law: "send_law send outgoing" using ok by (simp add: send_succeeds_def)
    have n: "0 < n" "n \<le> length buf - sent"
      "outgoing s1 fd = outgoing s fd @ take n (drop sent buf)"
      using send_law_cases[OF law call ne] by simp_all
    then have "length buf - (sent + n) < length buf - sent" "sent + n \<le> length buf"
      using True by linarith+
    from less.hyps[OF this, of s1] obtain s' where
      "send_loop send fd buf (sent + n) s1 = Some (int (length buf), s')"
      "outgoing s' fd = outgoing s1 fd @ drop (sent + n) buf"
      by blast
    moreover have "take n (drop sent buf) @ drop (sent + n) buf = drop sent buf"
      using append_take_drop_id[of n "drop sent buf"] by (simp add: add.commute)
    ultimately show ?thesis
      using True call n(3) by (subst send_loop.simps) simp
  qed
qed

end
