(* ===== verification/Server.thy ===== *)
theory Server
  imports Sockets
begin

text \<open>
  The server loop of \<^verbatim>\<open>networking/transport/tcp.cpp\<close>: the map from file descriptors to client states,
  the handlers of the two kinds of events \<open>kevent\<close> reports, the loop over a batch of them, and the
  shutdown. The system calls are a record of parameters over an environment \<open>'s\<close>; the batches that
  \<open>kevent\<close> returns are an argument.
\<close>

section \<open>State and handlers\<close>

record 's system =
  sys_accept :: "'s \<Rightarrow> int \<times> 's"
  sys_recv :: "'s recv"
  sys_send :: "'s send"
  sys_close :: "'s \<Rightarrow> int \<Rightarrow> 's"

record 's Server =
  fd_to_state :: "int \<Rightarrow> ClientState option"
  server_sink :: "Message list"
  server_seq :: SequenceNumber
  env :: 's

definition new_Server :: "'s \<Rightarrow> 's Server" where
  "new_Server s = \<lparr>fd_to_state = (\<lambda>_. None), server_sink = [], server_seq = 1, env = s\<rparr>"

text \<open>\<open>insert\<close> keeps the entry of a descriptor that is already there.\<close>

definition insert_client :: "int \<Rightarrow> (int \<Rightarrow> ClientState option) \<Rightarrow> int \<Rightarrow> ClientState option" where
  "insert_client fd m = (if m fd = None then m(fd \<mapsto> new_ClientState fd) else m)"

definition handle_accept :: "'s system \<Rightarrow> 's Server \<Rightarrow> 's Server" where
  "handle_accept sys srv =
     (case sys_accept sys (env srv) of (fd, s) \<Rightarrow>
        if fd = -1 then srv\<lparr>env := s\<rparr>
        else srv\<lparr>fd_to_state := insert_client fd (fd_to_state srv), env := s\<rparr>)"

definition read_budget :: "ClientState \<Rightarrow> nat" where
  "read_budget st = min (write_limit st) READ_BYTE_BUDGET"

text \<open>\<open>None\<close> is the \<open>std::out_of_range\<close> of \<open>fd_to_state.at\<close>.\<close>

definition handle_readable :: "'s system \<Rightarrow> int \<Rightarrow> 's Server \<Rightarrow> 's Server option" where
  "handle_readable sys fd srv =
     (case fd_to_state srv fd of
        None \<Rightarrow> None
      | Some st \<Rightarrow>
          let st1 = pre_check st in
          (case recv_nb_til_limit (sys_recv sys) fd (read_budget st1) (env srv) of
             (got, bs, s) \<Rightarrow>
               if got = -1 \<or> got = -2 then
                 Some (srv\<lparr>fd_to_state := (fd_to_state srv)(fd := None), env := sys_close sys s fd\<rparr>)
               else
                 let p = snd (parse_ready_client fd
                       \<lparr>client = cs_received bs st1, msg_sink = server_sink srv,
                        next_seq = server_seq srv\<rparr>) in
                 Some (srv\<lparr>fd_to_state := (fd_to_state srv)(fd \<mapsto> client p),
                        server_sink := msg_sink p, server_seq := next_seq p, env := s\<rparr>)))"

definition handle_event :: "'s system \<Rightarrow> int \<Rightarrow> int \<Rightarrow> 's Server \<Rightarrow> 's Server option" where
  "handle_event sys socket_fd ident srv =
     (if ident = socket_fd then Some (handle_accept sys srv) else handle_readable sys ident srv)"

text \<open>The inner loop over the \<open>nev\<close> events of one \<open>kevent\<close> call, and the outer loop over the calls.\<close>

fun handle_events :: "'s system \<Rightarrow> int \<Rightarrow> int list \<Rightarrow> 's Server \<Rightarrow> 's Server option" where
  "handle_events sys socket_fd [] srv = Some srv"
| "handle_events sys socket_fd (ident # idents) srv =
     (case handle_event sys socket_fd ident srv of
        None \<Rightarrow> None
      | Some srv' \<Rightarrow> handle_events sys socket_fd idents srv')"

fun server_loop :: "'s system \<Rightarrow> int \<Rightarrow> int list list \<Rightarrow> 's Server \<Rightarrow> 's Server option" where
  "server_loop sys socket_fd [] srv = Some srv"
| "server_loop sys socket_fd (batch # batches) srv =
     (case handle_events sys socket_fd batch srv of
        None \<Rightarrow> None
      | Some srv' \<Rightarrow> server_loop sys socket_fd batches srv')"

text \<open>
  \<open>fds\<close> is the order in which the loop visits the map, which \<open>std::unordered_map\<close> leaves open: what is
  claimed holds for every order of the connected descriptors.
\<close>

definition shutdown_server :: "'s system \<Rightarrow> int list \<Rightarrow> 's Server \<Rightarrow> 's Server" where
  "shutdown_server sys fds srv =
     srv\<lparr>fd_to_state := (\<lambda>_. None), env := fold (\<lambda>fd s. sys_close sys s fd) fds (env srv)\<rparr>"

section \<open>Every client buffer stays well-formed\<close>

definition clients_ok :: "'s Server \<Rightarrow> bool" where
  "clients_ok srv \<longleftrightarrow> (\<forall>fd st. fd_to_state srv fd = Some st \<longrightarrow> client_ok st)"

lemma clients_okD: "clients_ok srv \<Longrightarrow> fd_to_state srv fd = Some st \<Longrightarrow> client_ok st"
  by (simp add: clients_ok_def)

text \<open>
  One readable event: the connection is dropped, or the bytes received are appended to the pending
  ones and up to four frames of the result are pushed.
\<close>

definition parsed_event ::
  "int \<Rightarrow> Byte list \<Rightarrow> Message option list \<Rightarrow> 's Server \<Rightarrow> 's Server \<Rightarrow> bool"
where
  "parsed_event fd bs ms srv srv' \<longleftrightarrow>
     (\<exists>st st'. fd_to_state srv fd = Some st \<and> fd_to_state srv' = (fd_to_state srv)(fd \<mapsto> st') \<and>
        client_ok st' \<and> consumes ms (pending_bytes st @ bs) (pending_bytes st') \<and>
        length ms \<le> MSG_LIMIT_PER_CONN \<and>
        (length ms < MSG_LIMIT_PER_CONN \<longrightarrow> frame (pending_bytes st') = None) \<and>
        server_sink srv' = server_sink srv @ stamp_all fd (server_seq srv) ms \<and>
        server_seq srv' = seq_after (server_seq srv) ms)"

definition dropped_event :: "int \<Rightarrow> 's Server \<Rightarrow> 's Server \<Rightarrow> bool" where
  "dropped_event fd srv srv' \<longleftrightarrow> fd_to_state srv' = (fd_to_state srv)(fd := None) \<and>
     server_sink srv' = server_sink srv \<and> server_seq srv' = server_seq srv"

lemma handle_readable_spec:
  assumes ok: "clients_ok srv" and law: "recv_law (sys_recv sys) incoming"
    and st: "fd_to_state srv fd = Some st"
    and recv: "recv_nb_til_limit (sys_recv sys) fd (read_budget (pre_check st)) (env srv) = (got, bs, s)"
  obtains srv' where "handle_readable sys fd srv = Some srv'"
    and "if got = -1 \<or> got = -2 then dropped_event fd srv srv' \<and> env srv' = sys_close sys s fd
      else got = int (length bs) \<and> env srv' = s \<and> (\<exists>ms. parsed_event fd bs ms srv srv')"
proof (cases "got = -1 \<or> got = -2")
  case True
  then show thesis
    using st recv by (intro that[of "the (handle_readable sys fd srv)"])
      (auto simp: handle_readable_def dropped_event_def)
next
  case False
  have st_ok: "client_ok st" using clients_okD[OF ok st] .
  have len: "got = int (length bs)" "length bs \<le> write_limit (pre_check st)"
    using recv_nb_til_limit_spec[OF law, of fd "read_budget (pre_check st)" "env srv"] recv False
    by (auto simp: recv_stored_def read_budget_def)
  let ?p = "\<lparr>client = cs_received bs (pre_check st), msg_sink = server_sink srv, next_seq = server_seq srv\<rparr>"
  note buffer = cs_received_ok[OF pre_check_ok(1)[OF st_ok] len(2)]
  obtain k p where parse: "parse_ready_client fd ?p = (k, p)" by fastforce
  have "client_ok (client ?p)" using buffer(1) by simp
  from parse_loop_frames[OF this parse[unfolded parse_ready_client_def]]
  obtain ms where "consumes ms (pending_bytes st @ bs) (pending_bytes (client p))"
    "parsed fd ?p ms p" "length ms = k" "k \<le> MSG_LIMIT_PER_CONN"
    "k < MSG_LIMIT_PER_CONN \<longrightarrow> frame (pending_bytes (client p)) = None"
    using buffer(2) pre_check_ok(2)[OF st_ok] by auto
  then have "parsed_event fd bs ms srv
      (srv\<lparr>fd_to_state := (fd_to_state srv)(fd \<mapsto> client p), server_sink := msg_sink p,
         server_seq := next_seq p, env := s\<rparr>)"
    using st unfolding parsed_event_def
    by - (rule exI[of _ st], rule exI[of _ "client p"], auto simp: parsed_def)
  moreover have "handle_readable sys fd srv = Some
      (srv\<lparr>fd_to_state := (fd_to_state srv)(fd \<mapsto> client p), server_sink := msg_sink p,
         server_seq := next_seq p, env := s\<rparr>)"
    using st recv False parse by (simp add: handle_readable_def)
  ultimately show thesis using False len(1) by (intro that) auto
qed


section \<open>What the server has received and pushed\<close>

fun message_connection :: "Message \<Rightarrow> int" where
  "message_connection (Add_msg m) = ao_connection_id m"
| "message_connection (Cancel_msg m) = co_connection_id m"
| "message_connection (Modify_msg m) = mo_connection_id m"

fun message_seq :: "Message \<Rightarrow> SequenceNumber" where
  "message_seq (Add_msg m) = ao_seq m"
| "message_seq (Cancel_msg m) = co_seq m"
| "message_seq (Modify_msg m) = mo_seq m"

lemma stamp_fields [simp]:
  "message_connection (stamp_message conn seq m) = conn"
  "message_seq (stamp_message conn seq m) = seq"
  "unstamped (stamp_message conn seq m) = unstamped m"
  by (cases m; simp)+

definition messages :: "Message option list \<Rightarrow> Message list" where
  "messages ms = map the (filter (\<lambda>m. m \<noteq> None) ms)"

lemma messages_simps [simp]:
  "messages [] = []" "messages (None # ms) = messages ms"
  "messages (Some m # ms) = m # messages ms" "messages (ms @ ms') = messages ms @ messages ms'"
  by (simp_all add: messages_def)

lemma stamp_all_connection:
  "filter (\<lambda>m. message_connection m = conn) (stamp_all conn' seq ms) =
     (if conn' = conn then stamp_all conn' seq ms else [])"
  by (induction conn' seq ms rule: stamp_all.induct) auto

lemma stamp_all_unstamped: "map unstamped (stamp_all conn seq ms) = map unstamped (messages ms)"
  by (induction conn seq ms rule: stamp_all.induct) simp_all

lemma stamp_all_seqs:
  "map message_seq (stamp_all conn seq ms) = map (\<lambda>i. seq + of_nat i) [0..<length (messages ms)]"
  "seq_after seq ms = seq + of_nat (length (messages ms))"
proof (induction conn seq ms rule: stamp_all.induct)
  case (3 conn seq m ms)
  { case 1
    have "map (\<lambda>i. seq + of_nat i) [0..<Suc n] = seq # map (\<lambda>i. seq + 1 + of_nat i) [0..<n]" for n
      by (simp add: upt_conv_Cons map_Suc_upt[symmetric] add.assoc del: upt_Suc)
    with 3 show ?case by simp
  next
    case 2
    with 3 show ?case by (simp add: add.assoc)
  }
qed simp_all

text \<open>
  The connections of a server: for every descriptor, the position of the sink when the current
  connection was accepted, and the bytes stored into its buffer since.
\<close>

type_synonym history = "int \<Rightarrow> nat \<times> Byte list"

definition pushed_by :: "int \<Rightarrow> nat \<Rightarrow> Message list \<Rightarrow> Message list" where
  "pushed_by fd mark sink = filter (\<lambda>m. message_connection m = fd) (drop mark sink)"

inductive serving_step ::
  "'s system \<Rightarrow> int \<Rightarrow> 's Server \<Rightarrow> history \<Rightarrow> 's Server \<Rightarrow> history \<Rightarrow> bool" for sys socket_fd
where
  accepted: "\<lbrakk> handle_event sys socket_fd socket_fd srv = Some srv'; fst (sys_accept sys (env srv)) = fd;
     h' = (if fd_to_state srv fd = None then h(fd := (length (server_sink srv), [])) else h) \<rbrakk>
   \<Longrightarrow> serving_step sys socket_fd srv h srv' h'"
| readable: "\<lbrakk> fd \<noteq> socket_fd;
     handle_event sys socket_fd fd srv = Some srv'; fd_to_state srv fd = Some st;
     recv_nb_til_limit (sys_recv sys) fd (read_budget (pre_check st)) (env srv) = (got, bs, s);
     h' = h(fd := (fst (h fd), snd (h fd) @ bs)) \<rbrakk>
   \<Longrightarrow> serving_step sys socket_fd srv h srv' h'"

inductive serving :: "'s system \<Rightarrow> int \<Rightarrow> 's Server \<Rightarrow> history \<Rightarrow> bool" for sys socket_fd where
  started: "serving sys socket_fd (new_Server s) h"
| served: "\<lbrakk> serving sys socket_fd srv h; serving_step sys socket_fd srv h srv' h' \<rbrakk>
   \<Longrightarrow> serving sys socket_fd srv' h'"

definition tracks :: "Message list \<Rightarrow> nat \<times> Byte list \<Rightarrow> int \<Rightarrow> ClientState \<Rightarrow> bool" where
  "tracks sink c fd st \<longleftrightarrow> client_ok st \<and> fst c \<le> length sink \<and>
     (\<exists>ms. consumes ms (snd c) (pending_bytes st) \<and>
        map unstamped (pushed_by fd (fst c) sink) = map unstamped (messages ms))"

definition numbered :: "Message list \<Rightarrow> SequenceNumber \<Rightarrow> bool" where
  "numbered sink seq \<longleftrightarrow> seq = 1 + of_nat (length sink) \<and>
     map message_seq sink = map (\<lambda>i. 1 + of_nat i) [0..<length sink]"

definition serving_inv :: "'s Server \<Rightarrow> history \<Rightarrow> bool" where
  "serving_inv srv h \<longleftrightarrow> numbered (server_sink srv) (server_seq srv) \<and>
     (\<forall>fd st. fd_to_state srv fd = Some st \<longrightarrow> tracks (server_sink srv) (h fd) fd st)"

lemma serving_inv_clients: "serving_inv srv h \<Longrightarrow> clients_ok srv"
  by (simp add: serving_inv_def tracks_def clients_ok_def)

lemma length_stamp_all: "length (stamp_all fd seq ms) = length (messages ms)"
  using arg_cong[OF stamp_all_unstamped[of fd seq ms], of length] by simp

lemma numbered_append:
  assumes "numbered sink seq"
  shows "numbered (sink @ stamp_all fd seq ms) (seq_after seq ms)"
proof -
  have "map (\<lambda>i. 1 + of_nat i) [length sink..<length sink + n] = map (\<lambda>i. seq + of_nat i) [0..<n]" for n
    using assms by (intro nth_equalityI) (simp_all add: numbered_def add.assoc)
  then have "map message_seq (stamp_all fd seq ms) =
      map (\<lambda>i. 1 + of_nat i) [length sink..<length sink + length (messages ms)]"
    by (simp add: stamp_all_seqs(1))
  with assms show ?thesis
    using upt_add_eq_append[of 0 "length sink" "length (messages ms)"]
    by (simp add: numbered_def stamp_all_seqs(2) length_stamp_all add.assoc)
qed

lemma tracks_new: "tracks sink (length sink, []) fd (new_ClientState fd)"
  by (auto simp: tracks_def new_ClientState_ok pushed_by_def intro!: exI[of _ "[]"])

lemma tracks_other:
  assumes "tracks sink c fd st" and "fd' \<noteq> fd"
  shows "tracks (sink @ stamp_all fd' seq ms) c fd st"
  using assms stamp_all_connection[of fd fd' seq ms] by (simp add: tracks_def pushed_by_def)

lemma tracks_more:
  assumes tr: "tracks sink c fd st" and "client_ok st'"
    and cons: "consumes ms (pending_bytes st @ bs) (pending_bytes st')"
  shows "tracks (sink @ stamp_all fd seq ms) (fst c, snd c @ bs) fd st'"
proof -
  obtain ns where ns: "consumes ns (snd c) (pending_bytes st)"
    "map unstamped (pushed_by fd (fst c) sink) = map unstamped (messages ns)"
    using tr by (auto simp: tracks_def)
  have "consumes (ns @ ms) (snd c @ bs) (pending_bytes st')"
    using consumes_trans[OF consumes_append[OF ns(1)] cons] .
  moreover have "pushed_by fd (fst c) (sink @ stamp_all fd seq ms) =
      pushed_by fd (fst c) sink @ stamp_all fd seq ms"
    using tr stamp_all_connection[of fd fd seq ms] by (simp add: tracks_def pushed_by_def)
  ultimately show ?thesis
    using tr assms(2) ns(2) by (auto simp: tracks_def stamp_all_unstamped intro!: exI[of _ "ns @ ms"])
qed

lemma serving_inv_accept:
  assumes inv: "serving_inv srv h" and acc: "fst (sys_accept sys (env srv)) = fd"
  shows "serving_inv (handle_accept sys srv)
    (if fd_to_state srv fd = None then h(fd := (length (server_sink srv), [])) else h)"
  using inv acc tracks_new[of "server_sink srv" fd]
  by (auto simp: serving_inv_def handle_accept_def insert_client_def split: prod.split)

lemma serving_inv_dropped:
  assumes "serving_inv srv h" and "dropped_event fd srv srv'"
  shows "serving_inv srv' (h(fd := c))"
  using assms by (simp add: serving_inv_def dropped_event_def)

lemma serving_inv_parsed:
  assumes inv: "serving_inv srv h" and ev: "parsed_event fd bs ms srv srv'"
  shows "serving_inv srv' (h(fd := (fst (h fd), snd (h fd) @ bs)))"
proof -
  obtain st st' where st: "fd_to_state srv fd = Some st" "fd_to_state srv' = (fd_to_state srv)(fd \<mapsto> st')"
    "client_ok st'" "consumes ms (pending_bytes st @ bs) (pending_bytes st')"
    "server_sink srv' = server_sink srv @ stamp_all fd (server_seq srv) ms"
    "server_seq srv' = seq_after (server_seq srv) ms"
    using ev by (auto simp: parsed_event_def)
  have num: "numbered (server_sink srv) (server_seq srv)"
    and tr: "\<And>fd' c. fd_to_state srv fd' = Some c \<Longrightarrow> tracks (server_sink srv) (h fd') fd' c"
    using inv by (simp_all add: serving_inv_def)
  note own = tracks_more[OF tr[OF st(1)] st(3,4), of "server_seq srv"]
  have "tracks (server_sink srv') ((h(fd := (fst (h fd), snd (h fd) @ bs))) fd') fd' c"
    if "fd_to_state srv' fd' = Some c" for fd' c
    using that st(2,5) own tr[of fd' c] tracks_other by (cases "fd' = fd") auto
  with numbered_append[OF num, of fd ms] st(5,6) show ?thesis by (simp add: serving_inv_def)
qed

lemma serving_step_inv:
  assumes "recv_law (sys_recv sys) incoming" and inv: "serving_inv srv h"
    and "serving_step sys socket_fd srv h srv' h'"
  shows "serving_inv srv' h'"
  using assms(3)
proof (cases rule: serving_step.cases)
  case (accepted fd)
  then show ?thesis using serving_inv_accept[OF inv, of sys fd] by (simp add: handle_event_def)
next
  case (readable fd st got bs s)
  obtain srv1 where srv1: "handle_readable sys fd srv = Some srv1"
    "if got = -1 \<or> got = -2 then dropped_event fd srv srv1 \<and> env srv1 = sys_close sys s fd
     else got = int (length bs) \<and> env srv1 = s \<and> (\<exists>ms. parsed_event fd bs ms srv srv1)"
    using handle_readable_spec[OF serving_inv_clients[OF inv] assms(1) readable(3,4)] .
  have "srv' = srv1" using readable(1,2) srv1(1) by (simp add: handle_event_def)
  moreover have "dropped_event fd srv srv1 \<or> (\<exists>ms. parsed_event fd bs ms srv srv1)"
    using srv1(2) by (auto split: if_splits)
  ultimately show ?thesis
    using readable(5) serving_inv_dropped[OF inv, of fd srv1] serving_inv_parsed[OF inv, of fd bs _ srv1]
    by blast
qed

lemma new_Server_inv: "serving_inv (new_Server s) h"
  by (simp add: serving_inv_def new_Server_def numbered_def)

lemma serving_invariant:
  assumes "recv_law (sys_recv sys) incoming" and "serving sys socket_fd srv h"
  shows "serving_inv srv h"
  using assms(2)
proof (induction rule: serving.induct)
  case (started s h)
  show ?case by (rule new_Server_inv)
next
  case (served srv h srv' h')
  show ?case by (rule serving_step_inv[OF assms(1) served.IH served.hyps(2)])
qed

text \<open>A step only appends to the sink.\<close>

lemma serving_step_sink:
  assumes "recv_law (sys_recv sys) incoming" and inv: "serving_inv srv h"
    and "serving_step sys socket_fd srv h srv' h'"
  shows "\<exists>ms. server_sink srv' = server_sink srv @ ms"
  using assms(3)
proof (cases rule: serving_step.cases)
  case (accepted fd)
  then show ?thesis by (auto simp: handle_event_def handle_accept_def split: prod.splits if_splits)
next
  case (readable fd st got bs s)
  obtain srv1 where srv1: "handle_readable sys fd srv = Some srv1"
    "if got = -1 \<or> got = -2 then dropped_event fd srv srv1 \<and> env srv1 = sys_close sys s fd
     else got = int (length bs) \<and> env srv1 = s \<and> (\<exists>ms. parsed_event fd bs ms srv srv1)"
    using handle_readable_spec[OF serving_inv_clients[OF inv] assms(1) readable(3,4)] .
  have "srv' = srv1" using readable(1,2) srv1(1) by (simp add: handle_event_def)
  with srv1(2) show ?thesis by (auto simp: dropped_event_def parsed_event_def split: if_splits)
qed

end
