(* ===== verification/Server_Results.thy ===== *)
theory Server_Results
  imports Server
begin

text \<open>
  Facts about the server loop that the properties use: valid orders are frames, a stream of them is
  cut exactly, a batch of registered descriptors raises nothing, and which connections always have
  room to receive.
\<close>

section \<open>Valid orders\<close>

lemma frame_decode_order: "decode_order bs = Some (m, r) \<Longrightarrow> frame bs = Some (Some m, r)"
  by (auto simp: decode_order_def frame_def payload_size_def payload_message_def Let_def
      split: if_splits option.splits)

lemma frame_order:
  "order_wire_ok m \<Longrightarrow> frame (serialise_order m @ rest) = Some (Some (unstamped m), rest)"
  by (rule frame_decode_order[OF decode_order_serialise])

definition order_stream :: "Message list \<Rightarrow> Byte list" where
  "order_stream ms = concat (map serialise_order ms)"

lemma consumes_orders:
  assumes "consumes ns (order_stream ms) r" and "\<forall>m \<in> set ms. order_wire_ok m"
  shows "\<exists>k. k \<le> length ms \<and> ns = map (\<lambda>m. Some (unstamped m)) (take k ms) \<and>
    r = order_stream (drop k ms)"
  using assms
proof (induction ns "order_stream ms" r arbitrary: ms rule: consumes.induct)
  case no_more
  then show ?case by (intro exI[of _ 0]) simp
next
  case (more m bs' ns r)
  show ?case
  proof (cases ms)
    case Nil
    with more.hyps(1) show ?thesis by (simp add: order_stream_def frame_def)
  next
    case (Cons x xs)
    then have "m = Some (unstamped x)" "bs' = order_stream xs"
      using more.hyps(1) more.prems frame_order[of x "order_stream xs"]
      by (simp_all add: order_stream_def)
    with more.hyps(3)[of xs] more.prems Cons obtain k where
      "k \<le> length xs" "ns = map (\<lambda>m. Some (unstamped m)) (take k xs)" "r = order_stream (drop k xs)"
      by auto
    with Cons \<open>m = Some (unstamped x)\<close> show ?thesis by (intro exI[of _ "Suc k"]) simp
  qed
qed

lemma order_stream_split: "order_stream ms = order_stream (take k ms) @ order_stream (drop k ms)"
  by (simp add: order_stream_def flip: concat_append map_append)

lemma messages_map_Some [simp]: "messages (map (\<lambda>m. Some (f m)) ms) = map f ms"
  by (induction ms) simp_all

text \<open>What a connection has pushed, when it was sent a stream of valid orders.\<close>

lemma tracks_orders:
  assumes tr: "tracks sink c fd st" and sent: "snd c @ rest = order_stream ms"
    and ok: "\<forall>m \<in> set ms. order_wire_ok m"
  obtains k where "k \<le> length ms" and "map unstamped (pushed_by fd (fst c) sink) = map unstamped (take k ms)"
    and "snd c = order_stream (take k ms) @ pending_bytes st"
proof -
  obtain ns where ns: "consumes ns (snd c) (pending_bytes st)"
    "map unstamped (pushed_by fd (fst c) sink) = map unstamped (messages ns)"
    using tr by (auto simp: tracks_def)
  have "consumes ns (order_stream ms) (pending_bytes st @ rest)"
    using consumes_append[OF ns(1), of rest] sent by simp
  from consumes_orders[OF this ok] obtain k where k: "k \<le> length ms"
    "ns = map (\<lambda>m. Some (unstamped m)) (take k ms)" "pending_bytes st @ rest = order_stream (drop k ms)"
    by blast
  have "unstamped (unstamped m) = unstamped m" for m by (cases m) simp_all
  then have "map unstamped (messages ns) = map unstamped (take k ms)" using k(2) by simp
  moreover have "snd c = order_stream (take k ms) @ pending_bytes st"
    using sent k(3) order_stream_split[of ms k] by (metis append.assoc append_same_eq)
  ultimately show thesis using that[of k] k(1) ns(2) by simp
qed

section \<open>A batch of events\<close>

text \<open>\<open>kevent\<close> reports a descriptor at most once in a batch, and only one that is registered.\<close>

definition batch_ok :: "int \<Rightarrow> int list \<Rightarrow> 's Server \<Rightarrow> bool" where
  "batch_ok socket_fd idents srv \<longleftrightarrow> distinct idents \<and>
     (\<forall>fd \<in> set idents. fd = socket_fd \<or> fd_to_state srv fd \<noteq> None)"

lemma handle_readable_cases:
  assumes "clients_ok srv" and "recv_law (sys_recv sys) incoming" and "fd_to_state srv fd \<noteq> None"
  obtains srv' where "handle_readable sys fd srv = Some srv'" and "clients_ok srv'"
    and "\<And>fd'. fd' \<noteq> fd \<Longrightarrow> fd_to_state srv' fd' = fd_to_state srv fd'"
proof -
  obtain st where st: "fd_to_state srv fd = Some st" using assms(3) by auto
  obtain got bs s where recv:
    "recv_nb_til_limit (sys_recv sys) fd (read_budget (pre_check st)) (env srv) = (got, bs, s)"
    by (metis prod_cases3)
  obtain srv' where srv': "handle_readable sys fd srv = Some srv'"
    "if got = -1 \<or> got = -2 then dropped_event fd srv srv' \<and> env srv' = sys_close sys s fd
      else got = int (length bs) \<and> env srv' = s \<and> (\<exists>ms. parsed_event fd bs ms srv srv')"
    using handle_readable_spec[OF assms(1,2) st recv] .
  then have "dropped_event fd srv srv' \<or> (\<exists>ms. parsed_event fd bs ms srv srv')"
    by (auto split: if_splits)
  with assms(1) have "clients_ok srv' \<and> (\<forall>fd'. fd' \<noteq> fd \<longrightarrow> fd_to_state srv' fd' = fd_to_state srv fd')"
    by (auto simp: dropped_event_def parsed_event_def clients_ok_def split: if_splits)
  with srv'(1) that show thesis by blast
qed

lemma handle_accept_keeps:
  "clients_ok srv \<Longrightarrow> clients_ok (handle_accept sys srv)"
  "fd_to_state srv fd \<noteq> None \<Longrightarrow> fd_to_state (handle_accept sys srv) fd \<noteq> None"
  by (auto simp: handle_accept_def insert_client_def clients_ok_def new_ClientState_ok
      split: prod.splits if_splits)

lemma handle_events_total:
  assumes "recv_law (sys_recv sys) incoming"
  shows "\<lbrakk> clients_ok srv; batch_ok socket_fd idents srv \<rbrakk> \<Longrightarrow>
    \<exists>srv'. handle_events sys socket_fd idents srv = Some srv' \<and> clients_ok srv'"
proof (induction idents arbitrary: srv)
  case (Cons fd fds)
  show ?case
  proof (cases "fd = socket_fd")
    case True
    have "batch_ok socket_fd fds (handle_accept sys srv)"
      using Cons.prems(2) handle_accept_keeps(2)[of srv _ sys] by (fastforce simp: batch_ok_def)
    with True Cons.IH[OF handle_accept_keeps(1)[OF Cons.prems(1)]] show ?thesis
      by (simp add: handle_event_def)
  next
    case False
    then have "fd_to_state srv fd \<noteq> None" using Cons.prems(2) by (simp add: batch_ok_def)
    then obtain srv' where srv': "handle_readable sys fd srv = Some srv'" "clients_ok srv'"
      "\<forall>fd'. fd' \<noteq> fd \<longrightarrow> fd_to_state srv' fd' = fd_to_state srv fd'"
      using handle_readable_cases[OF Cons.prems(1) assms] by blast
    have "fd_to_state srv' fd' = fd_to_state srv fd'" if "fd' \<in> set fds" for fd'
      using that Cons.prems(2) srv'(3) by (auto simp: batch_ok_def)
    then have "batch_ok socket_fd fds srv'" using Cons.prems(2) by (simp add: batch_ok_def)
    with False srv' Cons.IH[OF srv'(2)] show ?thesis by (simp add: handle_event_def)
  qed
qed simp

section \<open>Room to receive\<close>

text \<open>The payload that the client's parser waits for, once the header is read.\<close>

definition awaited :: "ClientState \<Rightarrow> nat" where
  "awaited st = payload_size (fst (pending_header st)) (snd (pending_header st))"

lemma pack_header_length: "length (pack OrderMsgHeader [t, n]) = 3"
  by (subst length_pack) (simp_all add: wire_defs wire_size_def)

text \<open>Whether a header has been read or not, a frame that fits the buffer does not fill it.\<close>

lemma has_room:
  assumes ok: "client_ok st" and none: "frame (pending_bytes st) = None"
    and fits: "if parse_state st = ReadingPayload then awaited st \<le> STATE_SIZE
      else length (unread st) < STATE_SIZE"
  shows "0 < read_budget (pre_check st)"
proof (rule ccontr)
  assume "\<not> 0 < read_budget (pre_check st)"
  then have full: "length (unread st) = STATE_SIZE"
    using pre_check_ok(3)[OF ok] by (auto simp: read_budget_def READ_BYTE_BUDGET_def)
  with fits have state: "parse_state st = ReadingPayload" "awaited st \<le> STATE_SIZE"
    by (auto split: if_splits)
  obtain t len where hdr: "pending_header st = (t, len)" by fastforce
  have "unpack OrderMsgHeader (pack OrderMsgHeader [t, len] @ unread st) = [t, len]"
    by (rule unpack_pack) (use ok hdr in \<open>simp add: client_ok_def\<close>)
  then have "frame (pending_bytes st) \<noteq> None"
    using state hdr full by (simp add: pending_bytes_def frame_def awaited_def Let_def pack_header_length)
  with none show False by simp
qed

section \<open>A payload that does not fit\<close>

text \<open>An unknown type with a payload longer than the buffer: the parser waits for all of it.\<close>

definition oversized :: "ClientState \<Rightarrow> bool" where
  "oversized st \<longleftrightarrow> parse_state st = ReadingPayload \<and>
     OrderMsgType_of (fst (pending_header st)) = None \<and> int STATE_SIZE < snd (pending_header st)"

lemma oversized_parse:
  assumes "client_ok (client p)" and "oversized (client p)"
  shows "parse_ready_client conn p = (0, p)"
proof -
  obtain t len where hdr: "pending_header (client p) = (t, len)" by fastforce
  have "length (unread (client p)) < nat len"
    using assms hdr length_unread[OF assms(1)] by (auto simp: oversized_def client_ok_def)
  then have "parse_message conn p = (False, p)"
    using assms hdr by (simp add: parse_message_def read_header_def oversized_def cs_read_eq)
  then show ?thesis by (simp add: parse_ready_client_def MSG_LIMIT_PER_CONN_def numeral_eq_Suc)
qed

lemma oversized_buffer:
  assumes "oversized st" shows "oversized (cs_received bs (pre_check st))"
  using assms by (simp add: oversized_def cs_received_def pre_check_def cs_reset_def Let_def)

lemma oversized_event:
  assumes ok: "clients_ok srv" and law: "recv_law (sys_recv sys) incoming"
    and st: "fd_to_state srv fd = Some st" "oversized st"
    and ev: "handle_readable sys fd srv = Some srv'"
  shows "server_sink srv' = server_sink srv \<and>
    (case fd_to_state srv' fd of None \<Rightarrow> True | Some st' \<Rightarrow> oversized st')"
proof -
  obtain got bs s where recv:
    "recv_nb_til_limit (sys_recv sys) fd (read_budget (pre_check st)) (env srv) = (got, bs, s)"
    by (metis prod_cases3)
  show ?thesis
  proof (cases "got = -1 \<or> got = -2")
    case True
    then show ?thesis using ev st recv by (auto simp: handle_readable_def)
  next
    case False
    let ?st = "cs_received bs (pre_check st)"
    have "length bs \<le> write_limit (pre_check st)"
      using recv_nb_til_limit_spec[OF law, of fd "read_budget (pre_check st)" "env srv"] recv
      by (simp add: recv_stored_def read_budget_def)
    then have "client_ok ?st"
      using cs_received_ok(1) pre_check_ok(1)[OF clients_okD[OF ok st(1)]] by blast
    then have "parse_ready_client fd \<lparr>client = ?st, msg_sink = server_sink srv, next_seq = server_seq srv\<rparr> =
        (0, \<lparr>client = ?st, msg_sink = server_sink srv, next_seq = server_seq srv\<rparr>)"
      using oversized_parse oversized_buffer[OF st(2)] by simp
    with False ev st recv oversized_buffer[OF st(2), of bs] show ?thesis
      by (auto simp: handle_readable_def)
  qed
qed

text \<open>When its buffer is full, not even the end of the stream is noticed: nothing is received.\<close>

lemma full_event:
  assumes ok: "client_ok st" and st: "fd_to_state srv fd = Some st" "oversized st"
    and full: "length (unread st) = STATE_SIZE"
  shows "\<exists>srv' st'. handle_readable sys fd srv = Some srv' \<and> env srv' = env srv \<and>
    server_sink srv' = server_sink srv \<and> fd_to_state srv' fd = Some st' \<and> oversized st' \<and>
    client_ok st' \<and> length (unread st') = STATE_SIZE"
proof -
  have pos: "read_pos st = 0" "write_pos st = STATE_SIZE"
    using full length_unread[OF ok] ok by (auto simp: client_ok_def STATE_SIZE_def)
  have same: "cs_received [] (pre_check st) = st"
  proof (cases rule: pre_check_cases[OF ok])
    case 2
    have "unread st = cs_buf st" using ok pos by (simp add: unread_alt client_ok_def)
    with 2 ok pos show ?thesis by (simp add: cs_received_def client_ok_def)
  qed (use full pos in \<open>simp_all add: STATE_SIZE_def\<close>)
  have "write_limit (cs_received [] (pre_check st)) = write_limit (pre_check st)"
    by (simp add: write_limit_def cs_received_def)
  then have "read_budget (pre_check st) = 0"
    using same ok pos by (simp add: read_budget_def write_limit_def client_ok_def)
  then have "recv_nb_til_limit (sys_recv sys) fd (read_budget (pre_check st)) (env srv) = (0, [], env srv)"
    by (simp add: recv_nb_til_limit_def recv_nb_loop.simps)
  moreover have "parse_ready_client fd \<lparr>client = st, msg_sink = server_sink srv, next_seq = server_seq srv\<rparr> =
      (0, \<lparr>client = st, msg_sink = server_sink srv, next_seq = server_seq srv\<rparr>)"
    using oversized_parse ok st(2) by simp
  ultimately show ?thesis using st full ok by (simp add: handle_readable_def same)
qed

end
