(* ===== verification/Startup.thy ===== *)
theory Startup
  imports Server_Results
begin

text \<open>
  How the two programs begin and the server ends: \<open>setup_server\<close> and \<open>setup_client\<close> of
  \<^verbatim>\<open>networking/transport/tcp.cpp\<close>, with the system calls that open a socket as parameters, and the wait
  mode of \<^verbatim>\<open>include/networking/wait_mode.h\<close>. \<open>setsockopt\<close>, whose result the code ignores, the texts printed
  and the callback that tells a test that the server is ready are left out.
\<close>

section \<open>Opening a socket\<close>

record 's socket_calls =
  sys_socket :: "'s \<Rightarrow> int \<times> 's"
  sys_bind :: "'s \<Rightarrow> int \<Rightarrow> nat \<Rightarrow> int \<times> 's"
  sys_listen :: "'s \<Rightarrow> int \<Rightarrow> nat \<Rightarrow> int \<times> 's"
  sys_connect :: "'s \<Rightarrow> int \<Rightarrow> nat \<Rightarrow> int \<times> 's"

definition DEFAULT_PORT :: nat where "DEFAULT_PORT = 8080"

definition got_error :: "int \<Rightarrow> bool" where
  "got_error rt_val \<longleftrightarrow> rt_val = -1"

text \<open>The first part of \<open>setup_server\<close>; \<open>None\<close> is \<open>return false\<close>.\<close>

definition open_listener :: "'s socket_calls \<Rightarrow> nat \<Rightarrow> 's \<Rightarrow> int option \<times> 's" where
  "open_listener calls port s =
     (case sys_socket calls s of (socket_fd, s) \<Rightarrow>
        if got_error socket_fd then (None, s)
        else case sys_bind calls s socket_fd port of (bind_res, s) \<Rightarrow>
          if got_error bind_res then (None, s)
          else case sys_listen calls s socket_fd 5 of (listen_res, s) \<Rightarrow>
            if got_error listen_res then (None, s) else (Some socket_fd, s))"

text \<open>
  The calls the event loop is set up with: \<open>fcntl\<close> with \<open>F_GETFL\<close> (\<open>None\<close>) or \<open>F_SETFL\<close>, \<open>kqueue\<close>, and
  \<open>kevent\<close> that adds a descriptor to those a queue watches for reading.
\<close>

record 's kqueue_calls =
  sys_fcntl :: "'s \<Rightarrow> int \<Rightarrow> int option \<Rightarrow> int \<times> 's"
  o_nonblock :: int
  sys_kqueue :: "'s \<Rightarrow> int \<times> 's"
  sys_add :: "'s \<Rightarrow> int \<Rightarrow> int \<Rightarrow> int \<times> 's"

definition set_non_blocking :: "'s kqueue_calls \<Rightarrow> int \<Rightarrow> 's \<Rightarrow> bool \<times> 's" where
  "set_non_blocking k fd s =
     (case sys_fcntl k s fd None of (flags, s) \<Rightarrow>
        if flags = -1 then (False, s)
        else case sys_fcntl k s fd (Some (or flags (o_nonblock k))) of (r, s) \<Rightarrow> (r \<noteq> -1, s))"

definition get_client :: "'s system \<Rightarrow> 's \<Rightarrow> bool \<times> int \<times> 's" where
  "get_client sys s = (case sys_accept sys s of (client_fd, s) \<Rightarrow> (client_fd \<noteq> -1, client_fd, s))"

text \<open>
  The whole acceptance of a client: the results of making it non-blocking and of adding it to the
  queue are ignored. The event loop runs on the calls with this one for \<open>accept\<close>.
\<close>

definition accept_client :: "'s kqueue_calls \<Rightarrow> int \<Rightarrow> 's system \<Rightarrow> 's \<Rightarrow> int \<times> 's" where
  "accept_client k kq sys s =
     (case get_client sys s of (ok, client_fd, s) \<Rightarrow>
        if \<not> ok then (client_fd, s)
        else case set_non_blocking k client_fd s of (_, s) \<Rightarrow>
          case sys_add k s kq client_fd of (_, s) \<Rightarrow> (client_fd, s))"

definition with_kqueue :: "'s kqueue_calls \<Rightarrow> int \<Rightarrow> 's system \<Rightarrow> 's system" where
  "with_kqueue k kq sys = sys\<lparr>sys_accept := accept_client k kq sys\<rparr>"

text \<open>The queue is made, and the listening socket added to it; failures are ignored again.\<close>

definition watch_listener :: "'s kqueue_calls \<Rightarrow> int \<Rightarrow> 's \<Rightarrow> int \<times> 's" where
  "watch_listener k socket_fd s =
     (case set_non_blocking k socket_fd s of (_, s) \<Rightarrow>
      case sys_kqueue k s of (kq, s) \<Rightarrow>
      case sys_add k s kq socket_fd of (_, s) \<Rightarrow> (kq, s))"

text \<open>
  \<open>batches\<close> are the results of \<open>kevent\<close> until \<open>running\<close> is false, \<open>fds\<close> the order in which the map is
  visited at the end. \<open>None\<close> is an exception, the boolean is the result.
\<close>

definition setup_server ::
  "'s socket_calls \<Rightarrow> 's kqueue_calls \<Rightarrow> 's system \<Rightarrow> nat \<Rightarrow> int list list \<Rightarrow> int list \<Rightarrow> 's Server \<Rightarrow>
   (bool \<times> 's Server) option"
where
  "setup_server calls k sys port batches fds srv =
     (case open_listener calls port (env srv) of
        (None, s) \<Rightarrow> Some (False, srv\<lparr>env := s\<rparr>)
      | (Some socket_fd, s) \<Rightarrow>
          case watch_listener k socket_fd s of (kq, s) \<Rightarrow>
          (case server_loop (with_kqueue k kq sys) socket_fd batches (srv\<lparr>env := s\<rparr>) of
             None \<Rightarrow> None
           | Some srv \<Rightarrow>
               let srv = shutdown_server sys fds srv;
                 s = sys_close sys (env srv) socket_fd
               in Some (True, srv\<lparr>env := sys_close sys s kq\<rparr>)))"

text \<open>The result and the descriptor, which the caller's variable holds even after a failure.\<close>

definition setup_client :: "'s socket_calls \<Rightarrow> nat \<Rightarrow> 's \<Rightarrow> bool \<times> int \<times> 's" where
  "setup_client calls port s =
     (case sys_socket calls s of (socket_fd, s) \<Rightarrow>
        if got_error socket_fd then (False, socket_fd, s)
        else case sys_connect calls s socket_fd port of (connect_res, s) \<Rightarrow>
          (\<not> got_error connect_res, socket_fd, s))"

text \<open>The value of \<open>WAIT_MODE\<close>, if it is set.\<close>

definition read_block_mode_from_env :: "string option \<Rightarrow> bool" where
  "read_block_mode_from_env mode \<longleftrightarrow> mode \<noteq> None \<and> the mode = ''block''"

section \<open>What the queue reports\<close>

text \<open>
  \<open>watched s kq\<close> are the descriptors a queue watches. Only adding one makes it watched, closing it ends
  that, and no other call changes it.
\<close>

definition kqueue_law :: "'s kqueue_calls \<Rightarrow> 's system \<Rightarrow> ('s \<Rightarrow> int \<Rightarrow> int set) \<Rightarrow> bool" where
  "kqueue_law k sys watched \<longleftrightarrow>
     (\<forall>s fd f. watched (snd (sys_fcntl k s fd f)) = watched s) \<and>
     (\<forall>s. watched (snd (sys_kqueue k s)) (fst (sys_kqueue k s)) = {}) \<and>
     (\<forall>s kq fd. watched (snd (sys_add k s kq fd)) kq \<subseteq> insert fd (watched s kq)) \<and>
     (\<forall>s. watched (snd (sys_accept sys s)) = watched s) \<and>
     (\<forall>s fd n. watched (snd (sys_recv sys s fd n)) = watched s) \<and>
     (\<forall>s fd kq. watched (sys_close sys s fd) kq \<subseteq> watched s kq - {fd})"

lemma kqueue_lawD:
  assumes "kqueue_law k sys watched"
  shows "watched (snd (sys_fcntl k s fd f)) = watched s"
    and "watched (snd (sys_kqueue k s)) (fst (sys_kqueue k s)) = {}"
    and "watched (snd (sys_add k s kq fd)) kq \<subseteq> insert fd (watched s kq)"
    and "watched (snd (sys_accept sys s)) = watched s"
    and "watched (snd (sys_recv sys s fd n)) = watched s"
    and "watched (sys_close sys s fd) kq \<subseteq> watched s kq - {fd}"
  using assms by (auto simp: kqueue_law_def)

text \<open>Every batch is one that \<open>kevent\<close> can report: watched descriptors, each at most once.\<close>

fun reported :: "('s \<Rightarrow> int \<Rightarrow> int set) \<Rightarrow> int \<Rightarrow> 's system \<Rightarrow> int \<Rightarrow> int list list \<Rightarrow> 's Server \<Rightarrow> bool" where
  "reported watched kq sys socket_fd [] srv \<longleftrightarrow> True"
| "reported watched kq sys socket_fd (batch # batches) srv \<longleftrightarrow>
     distinct batch \<and> set batch \<subseteq> watched (env srv) kq \<and>
     (case handle_events sys socket_fd batch srv of
        None \<Rightarrow> True | Some srv' \<Rightarrow> reported watched kq sys socket_fd batches srv')"

text \<open>What is watched is connected.\<close>

definition watched_ok :: "('s \<Rightarrow> int \<Rightarrow> int set) \<Rightarrow> int \<Rightarrow> int \<Rightarrow> 's Server \<Rightarrow> bool" where
  "watched_ok watched kq socket_fd srv \<longleftrightarrow>
     watched (env srv) kq \<subseteq> insert socket_fd (dom (fd_to_state srv))"

lemma set_non_blocking_watched:
  assumes "kqueue_law k sys watched" shows "watched (snd (set_non_blocking k fd s)) = watched s"
proof -
  obtain flags s1 where get: "sys_fcntl k s fd None = (flags, s1)" by fastforce
  have s1: "watched s1 = watched s" using kqueue_lawD(1)[OF assms, of s fd None] get by simp
  obtain r s2 where put: "sys_fcntl k s1 fd (Some (or flags (o_nonblock k))) = (r, s2)" by fastforce
  have "watched s2 = watched s1"
    using kqueue_lawD(1)[OF assms, of s1 fd "Some (or flags (o_nonblock k))"] put by simp
  with s1 get put show ?thesis by (simp add: set_non_blocking_def)
qed

lemma watch_listener_watched:
  assumes law: "kqueue_law k sys watched" and "watch_listener k socket_fd s = (kq, s')"
  shows "watched s' kq \<subseteq> {socket_fd}"
proof -
  obtain ok s1 where one: "set_non_blocking k socket_fd s = (ok, s1)" by fastforce
  obtain kq1 s2 where two: "sys_kqueue k s1 = (kq1, s2)" by fastforce
  obtain r s3 where three: "sys_add k s2 kq1 socket_fd = (r, s3)" by fastforce
  have "kq = kq1" "s' = s3" using assms(2) one two three by (simp_all add: watch_listener_def)
  with kqueue_lawD(2)[OF law, of s1] kqueue_lawD(3)[OF law, of s2 kq1 socket_fd] two three show ?thesis by auto
qed

lemma accept_client_watched:
  assumes law: "kqueue_law k sys watched" and acc: "accept_client k kq sys s = (fd, s')"
  shows "watched s' kq \<subseteq> (if fd = -1 then watched s kq else insert fd (watched s kq))"
proof -
  obtain fd1 s1 where one: "sys_accept sys s = (fd1, s1)" by fastforce
  have s1: "watched s1 = watched s" using kqueue_lawD(4)[OF law, of s] one by simp
  show ?thesis
  proof (cases "fd1 = -1")
    case True
    with acc one s1 show ?thesis by (simp add: accept_client_def get_client_def)
  next
    case False
    obtain ok s2 where two: "set_non_blocking k fd1 s1 = (ok, s2)" by fastforce
    obtain r s3 where three: "sys_add k s2 kq fd1 = (r, s3)" by fastforce
    have "fd = fd1" "s' = s3"
      using acc one two three False by (simp_all add: accept_client_def get_client_def)
    with False s1 set_non_blocking_watched[OF law, of fd1 s1] kqueue_lawD(3)[OF law, of s2 kq fd1] two three
    show ?thesis by auto
  qed
qed

lemma handle_event_watched:
  assumes law: "kqueue_law k sys watched" and ok: "watched_ok watched kq socket_fd srv"
    and ev: "handle_event (with_kqueue k kq sys) socket_fd ident srv = Some srv'"
  shows "watched_ok watched kq socket_fd srv'"
proof (cases "ident = socket_fd")
  case True
  obtain fd s where acc: "accept_client k kq sys (env srv) = (fd, s)" by fastforce
  with ev True have "srv' = (if fd = -1 then srv\<lparr>env := s\<rparr>
      else srv\<lparr>fd_to_state := insert_client fd (fd_to_state srv), env := s\<rparr>)"
    by (simp add: handle_event_def handle_accept_def with_kqueue_def split: if_splits)
  with accept_client_watched[OF law acc] ok show ?thesis
    by (auto simp: watched_ok_def insert_client_def split: if_splits)
next
  case False
  with ev have read: "handle_readable (with_kqueue k kq sys) ident srv = Some srv'"
    by (simp add: handle_event_def)
  then obtain st where st: "fd_to_state srv ident = Some st"
    by (cases "fd_to_state srv ident") (simp_all add: handle_readable_def)
  obtain got bs s where recv:
    "recv_nb_til_limit (sys_recv sys) ident (read_budget (pre_check st)) (env srv) = (got, bs, s)"
    by (metis prod_cases3)
  have s: "watched s = watched (env srv)"
    by (rule recv_nb_loop_quiet[OF recv[unfolded recv_nb_til_limit_def]])
       (use kqueue_lawD(5)[OF law] in blast)
  show ?thesis
  proof (cases "got = -1 \<or> got = -2")
    case True
    with read st recv have "srv' = srv\<lparr>fd_to_state := (fd_to_state srv)(ident := None),
        env := sys_close sys s ident\<rparr>"
      by (auto simp: handle_readable_def with_kqueue_def Let_def)
    with kqueue_lawD(6)[OF law, of s ident kq] s ok show ?thesis by (auto simp: watched_ok_def)
  next
    case False
    with read st recv have "env srv' = s" "dom (fd_to_state srv') = dom (fd_to_state srv)"
      by (auto simp: handle_readable_def with_kqueue_def Let_def split: if_splits)
    with s ok show ?thesis by (simp add: watched_ok_def)
  qed
qed

lemma handle_events_watched:
  assumes "kqueue_law k sys watched"
  shows "\<lbrakk> watched_ok watched kq socket_fd srv;
     handle_events (with_kqueue k kq sys) socket_fd idents srv = Some srv' \<rbrakk> \<Longrightarrow>
    watched_ok watched kq socket_fd srv'"
  by (induction idents arbitrary: srv) (auto split: option.splits dest: handle_event_watched[OF assms])

section \<open>A run of the server\<close>

lemma server_loop_total:
  assumes recv: "recv_law (sys_recv sys) incoming" and law: "kqueue_law k sys watched"
  shows "\<lbrakk> clients_ok srv; watched_ok watched kq socket_fd srv;
      reported watched kq (with_kqueue k kq sys) socket_fd batches srv \<rbrakk> \<Longrightarrow>
    \<exists>srv'. server_loop (with_kqueue k kq sys) socket_fd batches srv = Some srv' \<and> clients_ok srv'"
proof (induction batches arbitrary: srv)
  case (Cons batch batches)
  have recv': "recv_law (sys_recv (with_kqueue k kq sys)) incoming" using recv by (simp add: with_kqueue_def)
  have "batch_ok socket_fd batch srv"
    using Cons.prems(2,3) by (fastforce simp: batch_ok_def watched_ok_def)
  from handle_events_total[OF recv' Cons.prems(1) this] obtain srv' where
    srv': "handle_events (with_kqueue k kq sys) socket_fd batch srv = Some srv'" "clients_ok srv'"
    by blast
  with handle_events_watched[OF law Cons.prems(2) srv'(1)] Cons show ?case by simp
qed simp

text \<open>Only a failed call ends the set-up, and it has sent and received nothing.\<close>

lemma open_listener_cases:
  obtains (failed) s' where "open_listener calls port s = (None, s')"
  | (opened) socket_fd s' where "open_listener calls port s = (Some socket_fd, s')" "socket_fd \<noteq> -1"
proof (cases "open_listener calls port s")
  case (Pair r s')
  have "socket_fd \<noteq> -1" if "r = Some socket_fd" for socket_fd
    using Pair that by (auto simp: open_listener_def got_error_def split: prod.splits if_splits)
  with Pair failed opened show thesis by (cases r) simp_all
qed

lemma setup_server_ends:
  assumes "recv_law (sys_recv sys) incoming" and law: "kqueue_law k sys watched" and "clients_ok srv"
    and "open_listener calls port (env srv) = (Some socket_fd, s)"
    and watch: "watch_listener k socket_fd s = (kq, s')"
    and "reported watched kq (with_kqueue k kq sys) socket_fd batches (srv\<lparr>env := s'\<rparr>)"
  obtains srv' where "server_loop (with_kqueue k kq sys) socket_fd batches (srv\<lparr>env := s'\<rparr>) = Some srv'"
    and "clients_ok srv'"
    and "\<forall>fds. setup_server calls k sys port batches fds srv = Some (True,
      srv'\<lparr>fd_to_state := Map.empty,
           env := sys_close sys (sys_close sys (fold (\<lambda>fd s. sys_close sys s fd) fds (env srv')) socket_fd) kq\<rparr>)"
proof -
  have "clients_ok (srv\<lparr>env := s'\<rparr>)" using assms(3) by (simp add: clients_ok_def)
  moreover have "watched_ok watched kq socket_fd (srv\<lparr>env := s'\<rparr>)"
    using watch_listener_watched[OF law watch] by (auto simp: watched_ok_def)
  ultimately obtain srv' where
    "server_loop (with_kqueue k kq sys) socket_fd batches (srv\<lparr>env := s'\<rparr>) = Some srv'" "clients_ok srv'"
    using server_loop_total[OF assms(1,2) _ _ assms(6)] by blast
  with assms(4) watch show thesis
    by (intro that allI) (simp_all add: setup_server_def shutdown_server_def Let_def)
qed

section \<open>The main function of the server\<close>

text \<open>
  \<open>main\<close> has started the engine and the sender when it calls \<open>setup_server\<close>, and joins them after it.
  \<open>None\<close> is \<open>std::terminate\<close>: because of an exception, or because \<open>main\<close> returns 1 and so destroys the
  threads before they are joined.
\<close>

definition server_main ::
  "'s socket_calls \<Rightarrow> 's kqueue_calls \<Rightarrow> 's system \<Rightarrow> int list list \<Rightarrow> int list \<Rightarrow> 's \<Rightarrow> 's Server option"
where
  "server_main calls k sys batches fds s =
     (case setup_server calls k sys DEFAULT_PORT batches fds (new_Server s) of
        Some (True, srv) \<Rightarrow> Some srv
      | _ \<Rightarrow> None)"

lemma server_main_aborts:
  assumes "open_listener calls DEFAULT_PORT s = (None, s')"
  shows "server_main calls k sys batches fds s = None"
  using assms by (simp add: server_main_def setup_server_def new_Server_def)

end
