(* ===== verification/Demo_Net.thy ===== *)
theory Demo_Net
  imports Server
begin

text \<open>
  A concrete network, on which the hypotheses about the system calls hold and the examples run: for
  every connection the pieces its peer sends in the order they arrive (an empty piece is the end of
  the stream), what it has been sent, and how much room its send buffer has; and the descriptors that
  are watched.
\<close>

record Net =
  net_pending :: "int list"
  net_in :: "int \<Rightarrow> Byte list list"
  net_out :: "int \<Rightarrow> Byte list"
  net_room :: "int \<Rightarrow> nat"
  net_watched :: "int list"

definition net_accept :: "Net \<Rightarrow> int \<times> Net" where
  "net_accept s = (case net_pending s of [] \<Rightarrow> (-1, s) | fd # fds \<Rightarrow> (fd, s\<lparr>net_pending := fds\<rparr>))"

definition net_recv :: "Net recv" where
  "net_recv s fd n =
     (case net_in s fd of
        [] \<Rightarrow> (Would_block, s)
      | piece # pieces \<Rightarrow>
          (Received (take n piece),
           s\<lparr>net_in := (net_in s)(fd := (if length piece \<le> n \<and> piece \<noteq> [] then pieces
             else drop n piece # pieces))\<rparr>))"

definition net_send :: "Net send" where
  "net_send s fd bs =
     (let n = min (net_room s fd) (length bs) in
      if n = 0 then (Send_error, s)
      else (Sent n, s\<lparr>net_out := (net_out s)(fd := net_out s fd @ take n bs),
                      net_room := (net_room s)(fd := net_room s fd - n)\<rparr>))"

definition net_close :: "Net \<Rightarrow> int \<Rightarrow> Net" where
  "net_close s fd = s\<lparr>net_in := (net_in s)(fd := []), net_watched := removeAll fd (net_watched s)\<rparr>"

definition net_system :: "Net system" where
  "net_system = \<lparr>sys_accept = net_accept, sys_recv = net_recv, sys_send = net_send,
     sys_close = net_close\<rparr>"

definition net_incoming :: "Net \<Rightarrow> int \<Rightarrow> Byte list" where
  "net_incoming s fd = concat (net_in s fd)"

lemma net_recv_law: "recv_law (sys_recv net_system) net_incoming"
  by (simp add: recv_law_def net_system_def net_recv_def net_incoming_def split: list.split)

lemma net_send_law: "send_law (sys_send net_system) net_out"
  by (auto simp: send_law_def net_system_def net_send_def Let_def)

text \<open>Descriptor 3 is the listening socket; one client sends a cancel order in two pieces.\<close>

definition demo_cancel :: Message where
  "demo_cancel = Cancel_msg \<lparr>co_id = 7, co_connection_id = -1, co_seq = 1\<rparr>"

definition demo_net :: Net where
  "demo_net = \<lparr>net_pending = [5],
     net_in = (\<lambda>fd. if fd = 5 then [take 4 (serialise_order demo_cancel), drop 4 (serialise_order demo_cancel)]
       else []), net_out = (\<lambda>_. []), net_room = (\<lambda>_. 100), net_watched = []\<rparr>"

text \<open>The server after the connection is accepted, and after its bytes are readable.\<close>

definition demo_accepted :: "Net Server" where
  "demo_accepted = handle_accept net_system (new_Server demo_net)"

definition demo_served :: "Net Server" where
  "demo_served = the (handle_readable net_system 5 demo_accepted)"

definition demo_history :: history where
  "demo_history = (\<lambda>_. (0, []))(5 := (0, serialise_order demo_cancel))"

lemmas demo_net_defs = demo_accepted_def demo_served_def demo_history_def demo_net_def new_Server_def
  net_system_def

lemma demo_client: "fd_to_state demo_accepted 5 = Some (new_ClientState 5)"
  by (simp add: demo_net_defs handle_accept_def net_accept_def insert_client_def)

lemma demo_budget: "read_budget (pre_check (new_ClientState 5)) = 256"
  by (simp add: read_budget_def pre_check_def cs_reset_def write_limit_def new_ClientState_def
      STATE_SIZE_def READ_BYTE_BUDGET_def)

lemma demo_recv:
  "\<exists>s. recv_nb_til_limit (sys_recv net_system) 5 256 (env demo_accepted) =
     (11, serialise_order demo_cancel, s)"
proof -
  have "(case recv_nb_til_limit (sys_recv net_system) 5 256 (env demo_accepted) of
      (got, bs, s) \<Rightarrow> got = 11 \<and> bs = serialise_order demo_cancel)"
    by code_simp
  then show ?thesis by (auto split: prod.splits)
qed

lemma demo_pushed:
  "handle_readable net_system 5 demo_accepted = Some demo_served"
  "server_sink demo_served = [Cancel_msg \<lparr>co_id = 7, co_connection_id = 5, co_seq = 1\<rparr>]"
  "\<exists>st. fd_to_state demo_served 5 = Some st \<and> pending_bytes st = []"
proof -
  have "\<not> Option.is_none (handle_readable net_system 5 demo_accepted)" by code_simp
  then show "handle_readable net_system 5 demo_accepted = Some demo_served"
    by (auto simp: demo_served_def Option.is_none_def)
  show "server_sink demo_served = [Cancel_msg \<lparr>co_id = 7, co_connection_id = 5, co_seq = 1\<rparr>]"
    by code_simp
  have "(case fd_to_state demo_served 5 of None \<Rightarrow> False | Some st \<Rightarrow> pending_bytes st = [])" by code_simp
  then show "\<exists>st. fd_to_state demo_served 5 = Some st \<and> pending_bytes st = []"
    by (auto split: option.splits)
qed

lemma demo_accepts:
  "serving_step net_system 3 (new_Server demo_net) (\<lambda>_. (0, [])) demo_accepted (\<lambda>_. (0, []))"
  by (rule serving_step.accepted) (auto simp: handle_event_def demo_net_defs net_accept_def)

lemma demo_reads:
  "serving_step net_system 3 demo_accepted (\<lambda>_. (0, [])) demo_served demo_history"
proof -
  obtain s where recv: "recv_nb_til_limit (sys_recv net_system) 5 256 (env demo_accepted) =
      (11, serialise_order demo_cancel, s)"
    using demo_recv by blast
  show ?thesis
    by (rule serving_step.readable[of 5 _ _ _ _ "new_ClientState 5" 11 "serialise_order demo_cancel" s])
       (use recv demo_client demo_budget demo_pushed(1) in
         \<open>simp_all add: handle_event_def demo_history_def del: serialise_order.simps\<close>)
qed

lemma demo_serving: "serving net_system 3 demo_served demo_history"
  using serving.served[OF serving.served[OF serving.started demo_accepts] demo_reads] .

end
