(* ===== verification/Server_Properties.thy ===== *)
theory Server_Properties
  imports Startup Demo_Net
begin

text \<open>
  The properties of the server loop and of the parser under it, for every behaviour of the system
  calls that POSIX allows (\<open>recv_law\<close>), with examples on the network of \<^verbatim>\<open>Demo_Net\<close>.
\<close>

section \<open>Parsing\<close>

text \<open>C15: However the bytes of a connection are fragmented and however the server interleaves its
  clients, the messages a connection has pushed since it was accepted are those of the frames at the
  front of the bytes it sent, in order, none lost, repeated or taken from another client: the frames
  and the bytes still pending are together exactly what was received, and the buffer is within its
  bounds.\<close>

theorem client_stream_parsed:
  assumes "recv_law (sys_recv sys) incoming" and "serving sys socket_fd srv h"
    and "fd_to_state srv fd = Some st"
  shows "client_ok st \<and> (\<exists>ms. consumes ms (snd (h fd)) (pending_bytes st) \<and>
    map unstamped (filter (\<lambda>m. message_connection m = fd) (drop (fst (h fd)) (server_sink srv))) =
    map unstamped (messages ms))"
  using serving_invariant[OF assms(1,2)] assms(3)
  by (auto simp: serving_inv_def tracks_def pushed_by_def)

theorem client_stream_parsed_witness:
  "\<exists>st ms. fd_to_state demo_served 5 = Some st \<and>
     consumes ms (serialise_order demo_cancel) (pending_bytes st) \<and>
     map unstamped (filter (\<lambda>m. message_connection m = 5) (server_sink demo_served)) =
     map unstamped (messages ms)"
proof -
  obtain st where st: "fd_to_state demo_served 5 = Some st" using demo_pushed(3) by blast
  from client_stream_parsed[OF net_recv_law demo_serving st] st show ?thesis
    by (auto simp: demo_history_def simp del: serialise_order.simps)
qed

text \<open>Valid orders arrive: if what a connection has sent so far is the beginning of a stream of
  serialised orders, the messages pushed for it are the first of these orders with their fields
  unchanged, and the pending bytes are the part of the next one that has arrived.\<close>

theorem orders_delivered:
  assumes "recv_law (sys_recv sys) incoming" and "serving sys socket_fd srv h"
    and "fd_to_state srv fd = Some st"
    and "snd (h fd) @ rest = concat (map serialise_order ms)" and "\<forall>m \<in> set ms. order_wire_ok m"
  shows "\<exists>k. k \<le> length ms \<and>
    map unstamped (filter (\<lambda>m. message_connection m = fd) (drop (fst (h fd)) (server_sink srv))) =
      map unstamped (take k ms) \<and>
    snd (h fd) = concat (map serialise_order (take k ms)) @ pending_bytes st"
proof -
  have "tracks (server_sink srv) (h fd) fd st"
    using serving_invariant[OF assms(1,2)] assms(3) by (simp add: serving_inv_def)
  from tracks_orders[OF this assms(4)[folded order_stream_def] assms(5)] show ?thesis
    unfolding pushed_by_def order_stream_def by blast
qed

theorem orders_delivered_witness:
  "\<exists>st k. fd_to_state demo_served 5 = Some st \<and> k \<le> 1 \<and>
     map unstamped (filter (\<lambda>m. message_connection m = 5) (server_sink demo_served)) =
       map unstamped (take k [demo_cancel]) \<and>
     serialise_order demo_cancel = concat (map serialise_order (take k [demo_cancel])) @ pending_bytes st"
proof -
  obtain st where st: "fd_to_state demo_served 5 = Some st" using demo_pushed(3) by blast
  have "snd (demo_history 5) @ [] = concat (map serialise_order [demo_cancel])"
    "\<forall>m \<in> set [demo_cancel]. order_wire_ok m"
    by (simp_all add: demo_history_def demo_cancel_def del: serialise_order.simps)
  from orders_delivered[OF net_recv_law demo_serving st this] st show ?thesis
    by (auto simp: demo_history_def simp del: serialise_order.simps)
qed

text \<open>The sequence numbers are one run over all clients: the messages in the sink are numbered
  1, 2, 3 and so on in the order in which they were pushed.\<close>

theorem messages_numbered:
  assumes "recv_law (sys_recv sys) incoming" and "serving sys socket_fd srv h"
  shows "map message_seq (server_sink srv) = map (\<lambda>i. 1 + of_nat i) [0..<length (server_sink srv)]"
  using serving_invariant[OF assms] by (simp add: serving_inv_def numbered_def)

theorem messages_numbered_witness: "map message_seq (server_sink demo_served) = [1]"
  using messages_numbered[OF net_recv_law demo_serving] by (simp add: demo_pushed(2))

section \<open>One event\<close>

text \<open>C32: A readable connection takes its turn: its new bytes are appended to the pending ones, at
  most four frames are parsed, fewer only when no complete frame is left, and no other client is
  touched.\<close>

theorem readable_takes_four:
  assumes "clients_ok srv" and "recv_law (sys_recv sys) incoming" and "fd_to_state srv fd = Some st"
    and "recv_nb_til_limit (sys_recv sys) fd (read_budget (pre_check st)) (env srv) = (got, bs, s)"
    and "0 \<le> got"
  shows "\<exists>srv' st' ms. handle_readable sys fd srv = Some srv' \<and>
    fd_to_state srv' = (fd_to_state srv)(fd \<mapsto> st') \<and>
    consumes ms (pending_bytes st @ bs) (pending_bytes st') \<and> length ms \<le> 4 \<and>
    (length ms < 4 \<longrightarrow> frame (pending_bytes st') = None) \<and>
    server_sink srv' = server_sink srv @ stamp_all fd (server_seq srv) ms"
proof -
  obtain srv' where srv': "handle_readable sys fd srv = Some srv'"
    "if got = -1 \<or> got = -2 then dropped_event fd srv srv' \<and> env srv' = sys_close sys s fd
      else got = int (length bs) \<and> env srv' = s \<and> (\<exists>ms. parsed_event fd bs ms srv srv')"
    using handle_readable_spec[OF assms(1-4)] .
  then obtain ms where "parsed_event fd bs ms srv srv'" using assms(5) by (auto split: if_splits)
  with srv'(1) assms(3) show ?thesis
    by (simp add: parsed_event_def MSG_LIMIT_PER_CONN_def) blast
qed

lemma demo_accepted_ok: "clients_ok demo_accepted"
  using serving_inv_clients serving_invariant[OF net_recv_law serving.started[of net_system 3 demo_net]]
    handle_accept_keeps(1)
  unfolding demo_accepted_def by blast

theorem readable_takes_four_witness:
  "\<exists>srv' st' ms. handle_readable net_system 5 demo_accepted = Some srv' \<and>
    fd_to_state srv' = (fd_to_state demo_accepted)(5 \<mapsto> st') \<and>
    consumes ms (pending_bytes (new_ClientState 5) @ serialise_order demo_cancel) (pending_bytes st') \<and>
    length ms \<le> 4"
proof -
  obtain s where "recv_nb_til_limit (sys_recv net_system) 5 256 (env demo_accepted) =
      (11, serialise_order demo_cancel, s)"
    using demo_recv by blast
  then show ?thesis
    using readable_takes_four[OF demo_accepted_ok net_recv_law demo_client,
        of 11 "serialise_order demo_cancel" s] demo_budget
    by (auto simp del: serialise_order.simps)
qed





section \<open>The loop\<close>

text \<open>C34: A run of the server ends well: once the listening socket is open, whatever the clients send
  and however \<open>kevent\<close> batches the events (each batch is of descriptors that the queue watches, each at
  most once), no \<open>fd_to_state.at\<close> throws, also when a batch accepts and drops connections on the way, and
  also when descriptors could not be made non-blocking or added to the queue; every buffer stays within
  its bounds; and after the last batch all clients are closed and forgotten, then the listening socket
  and the queue are closed.\<close>

theorem server_run_ends:
  assumes "recv_law (sys_recv sys) incoming" and "kqueue_law k sys watched"
    and "open_listener calls port s = (Some socket_fd, s')" and "watch_listener k socket_fd s' = (kq, s'')"
    and "reported watched kq (with_kqueue k kq sys) socket_fd batches ((new_Server s)\<lparr>env := s''\<rparr>)"
  shows "\<exists>srv. server_loop (with_kqueue k kq sys) socket_fd batches ((new_Server s)\<lparr>env := s''\<rparr>) = Some srv \<and>
    clients_ok srv \<and>
    (\<forall>fds. setup_server calls k sys port batches fds (new_Server s) = Some (True,
       srv\<lparr>fd_to_state := Map.empty,
           env := sys_close sys (sys_close sys (fold (\<lambda>fd s. sys_close sys s fd) fds (env srv)) socket_fd) kq\<rparr>))"
proof -
  have "clients_ok (new_Server s)" by (simp add: clients_ok_def new_Server_def)
  moreover have "open_listener calls port (env (new_Server s)) = (Some socket_fd, s')"
    using assms(3) by (simp add: new_Server_def)
  ultimately show ?thesis
    by (rule setup_server_ends[OF assms(1,2) _ _ assms(4,5), of calls port]) (intro exI conjI)
qed

definition net_calls :: "Net socket_calls" where
  "net_calls = \<lparr>sys_socket = (\<lambda>s. (3, s)), sys_bind = (\<lambda>s fd port. (0, s)), sys_listen = (\<lambda>s fd n. (0, s)),
     sys_connect = (\<lambda>s fd port. (-1, s))\<rparr>"

definition net_kqueue :: "Net kqueue_calls" where
  "net_kqueue = \<lparr>sys_fcntl = (\<lambda>s fd f. (0, s)), o_nonblock = 4, sys_kqueue = (\<lambda>s. (4, s\<lparr>net_watched := []\<rparr>)),
     sys_add = (\<lambda>s kq fd. (0, s\<lparr>net_watched := fd # net_watched s\<rparr>))\<rparr>"

lemma net_kqueue_law: "kqueue_law net_kqueue net_system (\<lambda>s kq. set (net_watched s))"
  by (auto simp: kqueue_law_def net_kqueue_def net_system_def net_accept_def net_recv_def net_close_def
      split: list.split)

theorem server_run_ends_witness:
  "\<exists>srv. setup_server net_calls net_kqueue net_system DEFAULT_PORT [[3], [5, 3], [5]] [5] (new_Server demo_net) =
     Some (True, srv) \<and> fd_to_state srv = Map.empty"
proof -
  have listen: "open_listener net_calls DEFAULT_PORT demo_net = (Some 3, demo_net)"
    "watch_listener net_kqueue 3 demo_net = (4, demo_net\<lparr>net_watched := [3]\<rparr>)"
    by (simp_all add: open_listener_def net_calls_def got_error_def watch_listener_def set_non_blocking_def
        net_kqueue_def)
  have "reported (\<lambda>s kq. set (net_watched s)) 4 (with_kqueue net_kqueue 4 net_system) 3 [[3], [5, 3], [5]]
      ((new_Server demo_net)\<lparr>env := demo_net\<lparr>net_watched := [3]\<rparr>\<rparr>)"
    by code_simp
  from server_run_ends[OF net_recv_law net_kqueue_law listen this] show ?thesis by fastforce
qed

text \<open>No client of the protocol is starved of buffer: while it has no complete frame pending and
  the frame it is sending is an order or any payload that fits the buffer, the next call receives at
  least one byte if there is one.\<close>

theorem client_has_room:
  assumes "client_ok st" and "frame (pending_bytes st) = None"
    and "if parse_state st = ReadingPayload
      then payload_size (fst (pending_header st)) (snd (pending_header st)) \<le> STATE_SIZE
      else length (unread st) < STATE_SIZE"
  shows "0 < read_budget (pre_check st)"
  using has_room[OF assms(1,2)] assms(3) by (simp add: awaited_def)

definition header_read :: ClientState where
  "header_read = (new_ClientState 5)\<lparr>pending_header := (1, 27), parse_state := ReadingPayload\<rparr>"

theorem client_has_room_witness: "0 < read_budget (pre_check header_read)"
proof (rule client_has_room)
  show "client_ok header_read" using new_ClientState_ok(1)[of 5]
    by (simp add: header_read_def client_ok_def wire_defs)
  show "frame (pending_bytes header_read) = None" by code_simp
qed (simp add: header_read_def payload_size_def OrderMsgType_of_def wire_defs wire_size_def STATE_SIZE_def)

text \<open>A message of an unknown type with a payload longer than the buffer blocks its client for
  good: whatever arrives, no later event on the connection pushes a message, until the connection is
  dropped.\<close>

theorem oversized_blocks:
  assumes "clients_ok srv" and "recv_law (sys_recv sys) incoming" and "fd_to_state srv fd = Some st"
    and "oversized st" and "handle_readable sys fd srv = Some srv'"
  shows "server_sink srv' = server_sink srv \<and>
    (case fd_to_state srv' fd of None \<Rightarrow> True | Some st' \<Rightarrow> oversized st')"
  by (rule oversized_event[OF assms])

definition oversized_client :: ClientState where
  "oversized_client = (new_ClientState 5)\<lparr>pending_header := (9, 2000), parse_state := ReadingPayload\<rparr>"

definition oversized_server :: "Net Server" where
  "oversized_server = demo_accepted\<lparr>fd_to_state := [5 \<mapsto> oversized_client]\<rparr>"

lemma oversized_client_ok: "client_ok oversized_client" "oversized oversized_client"
  using new_ClientState_ok(1)[of 5]
  by (simp_all add: oversized_client_def client_ok_def oversized_def wire_defs OrderMsgType_of_def
      STATE_SIZE_def)

theorem oversized_blocks_witness:
  "\<exists>srv'. handle_readable net_system 5 oversized_server = Some srv' \<and>
     server_sink srv' = server_sink oversized_server"
proof -
  have ok: "clients_ok oversized_server"
    using oversized_client_ok(1) by (simp add: clients_ok_def oversized_server_def)
  have st: "fd_to_state oversized_server 5 = Some oversized_client" by (simp add: oversized_server_def)
  obtain srv' where "handle_readable net_system 5 oversized_server = Some srv'"
    using handle_readable_cases[OF ok net_recv_law, of 5] st by auto
  with oversized_blocks[OF ok net_recv_law st oversized_client_ok(2)] show ?thesis by blast
qed

end
