(* ===== verification/Engine.thy ===== *)
theory Engine
  imports Ring_Buffer Process
begin

text \<open>
  The consumer side of the sinks. Every consumer loop of the program takes its next item with
  \<open>wait_pop\<close> in blocking mode and with \<open>pop\<close> otherwise; the engine thread
  (\<^verbatim>\<open>engine/message_consumer.cpp\<close>) gives each message to the book. The loops run while \<open>running\<close> or
  while the sink is not empty. Other threads write \<open>running\<close>, so a run here is given the values that
  its tests read, one for each; an iteration that finds nothing does nothing.
\<close>

section \<open>Taking the next item\<close>

definition sink_pop :: "BufSize \<Rightarrow> bool \<Rightarrow> 'a RingBuffer \<Rightarrow> 'a option \<times> 'a RingBuffer" where
  "sink_pop C block_mode sink = (if block_mode then rb_wait_pop C sink else rb_pop C sink)"

text \<open>The condition of the loops, for the value of \<open>running\<close> that the test reads.\<close>

definition loop_test :: "bool \<Rightarrow> 'a RingBuffer \<Rightarrow> bool" where
  "loop_test running sink \<longleftrightarrow> running \<or> \<not> rb_empty sink"

definition sink_ok :: "BufSize \<Rightarrow> bool \<Rightarrow> 'a RingBuffer \<Rightarrow> bool" where
  "sink_ok C block_mode sink \<longleftrightarrow> (if block_mode then rb_blocking_ok C sink else rb_ok C sink)"

text \<open>In both modes the sink is a bounded queue.\<close>

interpretation sink: bounded_queue "sink_ok C block_mode" "rb_items C" "unat C - 1" "rb_push C"
    "sink_pop C block_mode"
  for C :: BufSize and block_mode :: bool
proof
  fix q :: "'a RingBuffer" and x :: 'a and xs
  assume sink: "sink_ok C block_mode q"
  then have ok: "rb_ok C q" by (simp add: sink_ok_def rb_blocking_ok_def split: if_splits)
  show "length (rb_items C q) \<le> unat C - 1" by (rule ring.bounded[OF ok])
  show "rb_push C x q = (False, q)" if "length (rb_items C q) = unat C - 1"
    by (rule ring.push_full[OF ok that])
  show "\<exists>q'. rb_push C x q = (True, q') \<and> sink_ok C block_mode q' \<and> rb_items C q' = rb_items C q @ [x]"
    if "length (rb_items C q) < unat C - 1"
    using ring.push_room[OF ok that, of x] rb_push_blocking[of C q x] sink
    by (auto simp: sink_ok_def)
  show "\<exists>q'. sink_pop C block_mode q = (Some x, q') \<and> sink_ok C block_mode q' \<and> rb_items C q' = xs"
    if "rb_items C q = x # xs"
    using ring.pop_some[OF ok that] rb_wait_pop_blocking[of C q] sink that
    by (cases "rb_wait_pop C q") (auto simp: sink_ok_def sink_pop_def)
  show "sink_pop C block_mode q = (None, q)" if "rb_items C q = []"
    using ring.pop_none[OF ok that] sink that rb_items_Nil[of C q]
    by (auto simp: sink_ok_def sink_pop_def rb_blocking_ok_def rb_wait_pop_def)
qed

text \<open>The test fails only when everything has been taken.\<close>

lemma sink_empty:
  assumes "sink_ok C block_mode sink" shows "rb_empty sink \<longleftrightarrow> rb_items C sink = []"
  using assms rb_empty_iff[of C sink] rb_items_Nil[of C sink]
  by (auto simp: sink_ok_def rb_blocking_ok_def split: if_splits)

lemma loop_test_iff:
  "sink_ok C block_mode sink \<Longrightarrow> loop_test running sink \<longleftrightarrow> running \<or> rb_items C sink \<noteq> []"
  by (simp add: loop_test_def sink_empty)

section \<open>The engine thread\<close>

text \<open>\<open>Inl\<close> is an exception of \<open>process\<close>, which nothing catches: the program ends.\<close>

fun consume_messages ::
  "BufSize \<Rightarrow> bool \<Rightarrow> bool list \<Rightarrow> Message RingBuffer \<Rightarrow> OrderBook \<Rightarrow> (Message RingBuffer \<times> OrderBook) res"
where
  "consume_messages C block_mode [] sink book = Inr (sink, book)"
| "consume_messages C block_mode (running # flags) sink book =
     (if loop_test running sink then
        (case sink_pop C block_mode sink of
           (None, sink') \<Rightarrow> consume_messages C block_mode flags sink' book
         | (Some item, sink') \<Rightarrow>
             rbind (process item book) (\<lambda>book'. consume_messages C block_mode flags sink' book'))
      else Inr (sink, book))"

lemma consume_empty:
  "\<lbrakk> sink_ok C block_mode sink; rb_items C sink = [] \<rbrakk> \<Longrightarrow>
   consume_messages C block_mode flags sink book = Inr (sink, book)"
  by (induction flags) (simp_all add: sink.pop_none)

text \<open>The engine does to the book what its messages do, one after the other.\<close>

lemma consume_messages_spec:
  assumes "sink_ok C block_mode sink"
  shows "case process_all (take (length flags) (rb_items C sink)) book of
      Inl e \<Rightarrow> consume_messages C block_mode flags sink book = Inl e
    | Inr book' \<Rightarrow> \<exists>sink'. consume_messages C block_mode flags sink book = Inr (sink', book') \<and>
        sink_ok C block_mode sink' \<and> rb_items C sink' = drop (length flags) (rb_items C sink)"
  using assms
proof (induction flags arbitrary: sink book)
  case Nil
  then show ?case by simp
next
  case step: (Cons running flags)
  show ?case
  proof (cases "rb_items C sink")
    case Nil
    with step.prems consume_empty[OF step.prems Nil, of "running # flags" book] show ?thesis by simp
  next
    case (Cons x xs)
    have test: "loop_test running sink" using Cons by (simp add: loop_test_iff[OF step.prems])
    obtain sink' where sink': "sink_pop C block_mode sink = (Some x, sink')" "sink_ok C block_mode sink'"
      "rb_items C sink' = xs"
      using sink.pop_some[OF step.prems Cons] by blast
    show ?thesis
    proof (cases "process x book")
      case (Inl e)
      with Cons sink'(1) test show ?thesis by simp
    next
      case (Inr book')
      with Cons sink' test step.IH[OF sink'(2), of book'] show ?thesis by (simp split: sum.splits)
    qed
  qed
qed

end
