(* ===== verification/Event_Sender.thy ===== *)
theory Event_Sender
  imports Server Engine
begin

text \<open>
  The thread that delivers the book's events (\<^verbatim>\<open>networking/event_sender.cpp\<close>,
  \<^verbatim>\<open>include/networking/event_sender.h\<close>), and the client's sender of orders
  (\<^verbatim>\<open>networking/msg_sender.cpp\<close>). A private event goes to the descriptor in its \<open>connection_id\<close>, a
  public one to every connected client; \<open>fds\<close> is the order in which the loop visits the client map.
  The clients may change between two events, so a run is given the descriptors each event finds.
\<close>

section \<open>Sending one event\<close>

definition send_event_private :: "'s send \<Rightarrow> int \<Rightarrow> PrivateEvent \<Rightarrow> 's \<Rightarrow> (bool \<times> 's) option" where
  "send_event_private send fd ev s =
     (case send_all send fd (serialise_private ev) s of
        None \<Rightarrow> None
      | Some (r, s') \<Rightarrow> Some (r \<noteq> -1, s'))"

fun broadcast :: "'s send \<Rightarrow> int list \<Rightarrow> Byte list \<Rightarrow> bool \<Rightarrow> 's \<Rightarrow> (bool \<times> 's) option" where
  "broadcast send [] buf all_ok s = Some (all_ok, s)"
| "broadcast send (fd # fds) buf all_ok s =
     (case send_all send fd buf s of
        None \<Rightarrow> None
      | Some (r, s') \<Rightarrow> broadcast send fds buf (if r = -1 then False else all_ok) s')"

definition send_event_public :: "'s send \<Rightarrow> int list \<Rightarrow> PublicEvent \<Rightarrow> 's \<Rightarrow> (bool \<times> 's) option" where
  "send_event_public send fds ev s = broadcast send fds (serialise_public ev) True s"

fun send_event :: "'s send \<Rightarrow> int list \<Rightarrow> Event \<Rightarrow> 's \<Rightarrow> (bool \<times> 's) option" where
  "send_event send fds (Routed conn ev) s = send_event_private send conn ev s"
| "send_event send fds (Public ev) s = send_event_public send fds ev s"

text \<open>
  The loop of \<open>run_sender\<close>, one element of the schedule per test of its condition: the value of
  \<open>running\<close> that the test reads and the descriptors in the map in the iteration. An iteration pops an event, if there is one, and sends it; the result tells for every
  event sent whether it was delivered.
\<close>

fun run_sender ::
  "BufSize \<Rightarrow> bool \<Rightarrow> 's send \<Rightarrow> (bool \<times> int list) list \<Rightarrow> Event RingBuffer \<Rightarrow> 's \<Rightarrow>
   (bool list \<times> Event RingBuffer \<times> 's) option"
where
  "run_sender C block_mode send [] sink s = Some ([], sink, s)"
| "run_sender C block_mode send ((running, fds) # sched) sink s =
     (if loop_test running sink then
        (case sink_pop C block_mode sink of
           (None, sink') \<Rightarrow> run_sender C block_mode send sched sink' s
         | (Some item, sink') \<Rightarrow>
             (case send_event send fds item s of
                None \<Rightarrow> None
              | Some (ok, s') \<Rightarrow>
                  (case run_sender C block_mode send sched sink' s' of
                     None \<Rightarrow> None
                   | Some (oks, r) \<Rightarrow> Some (ok # oks, r))))
      else Some ([], sink, s))"

section \<open>Sending an order\<close>

definition send_msg :: "'s send \<Rightarrow> int \<Rightarrow> Message \<Rightarrow> 's \<Rightarrow> (bool \<times> 's) option" where
  "send_msg send fd m s =
     (case send_all send fd (serialise_order m) s of
        None \<Rightarrow> None
      | Some (r, s') \<Rightarrow> Some (r \<noteq> -1, s'))"

text \<open>\<open>run_sender\<close> of \<^verbatim>\<open>msg_sender.cpp\<close>, which has the name of the event sender's loop: whether the order went out
  makes no difference.\<close>

definition run_msg_sender :: "'s send \<Rightarrow> int \<Rightarrow> Message \<Rightarrow> 's \<Rightarrow> 's option" where
  "run_msg_sender send fd m s =
     (case send_msg send fd m s of
        None \<Rightarrow> None
      | Some (_, s') \<Rightarrow> Some s')"

section \<open>What each connection is sent\<close>

definition visible :: "int \<Rightarrow> int list \<Rightarrow> Event \<Rightarrow> bool" where
  "visible fd fds ev \<longleftrightarrow> (case ev of Routed conn _ \<Rightarrow> conn = fd | Public _ \<Rightarrow> fd \<in> set fds)"

text \<open>
  What a send did to a connection: the frame was appended whole, or perhaps, when a send failed, only
  a prefix of it.
\<close>

definition appended :: "Byte list \<Rightarrow> bool \<Rightarrow> Byte list \<Rightarrow> Byte list \<Rightarrow> bool" where
  "appended fr whole out out' \<longleftrightarrow> (\<exists>n. out' = out @ take n fr \<and> (whole \<longrightarrow> length fr \<le> n))"

lemma appended_whole [simp]: "appended fr True out out' \<longleftrightarrow> out' = out @ fr"
  by (auto simp: appended_def intro!: exI[of _ "length fr"])

lemma appended_Nil [simp]: "appended [] whole out out' \<longleftrightarrow> out' = out"
  by (auto simp: appended_def)

lemma appended_weaken: "appended fr whole out out' \<Longrightarrow> (whole' \<Longrightarrow> whole) \<Longrightarrow> appended fr whole' out out'"
  by (auto simp: appended_def)

lemma send_all_appended:
  assumes "send_law send outgoing"
  obtains r s' where "send_all send fd buf s = Some (r, s')"
    and "\<And>fd'. fd' \<noteq> fd \<Longrightarrow> outgoing s' fd' = outgoing s fd'"
    and "appended buf (r \<noteq> -1) (outgoing s fd) (outgoing s' fd)"
proof -
  obtain r s' n where *: "send_all send fd buf s = Some (r, s')"
    "outgoing s' = (outgoing s)(fd := outgoing s fd @ take n buf)"
    "if r = -1 then n < length buf else r = int (length buf) \<and> n = length buf"
    using send_all_spec[OF assms] .
  have "appended buf (r \<noteq> -1) (outgoing s fd) (outgoing s' fd)"
    unfolding appended_def using *(2,3) by (intro exI[of _ n]) (simp split: if_splits)
  with * that show thesis by simp
qed

lemma broadcast_spec:
  assumes law: "send_law send outgoing" and "distinct fds"
  shows "\<exists>ok s'. broadcast send fds buf all_ok s = Some (ok, s') \<and> (ok \<longrightarrow> all_ok) \<and>
    (\<forall>fd. appended (if fd \<in> set fds then buf else []) ok (outgoing s fd) (outgoing s' fd))"
  using assms(2)
proof (induction fds arbitrary: all_ok s)
  case (Cons fd fds)
  obtain r s1 where s1: "send_all send fd buf s = Some (r, s1)"
    "\<And>fd'. fd' \<noteq> fd \<Longrightarrow> outgoing s1 fd' = outgoing s fd'"
    "appended buf (r \<noteq> -1) (outgoing s fd) (outgoing s1 fd)"
    using send_all_appended[OF law, of fd buf s] by blast
  have "distinct fds" using Cons.prems by simp
  from Cons.IH[OF this, of "if r = -1 then False else all_ok" s1] obtain ok s' where s':
    "broadcast send fds buf (if r = -1 then False else all_ok) s1 = Some (ok, s')"
    "ok \<longrightarrow> (if r = -1 then False else all_ok)"
    "\<And>fd. appended (if fd \<in> set fds then buf else []) ok (outgoing s1 fd) (outgoing s' fd)"
    by blast
  have "appended (if fd' \<in> set (fd # fds) then buf else []) ok (outgoing s fd') (outgoing s' fd')" for fd'
  proof (cases "fd' = fd")
    case True
    then have "outgoing s' fd' = outgoing s1 fd'" using s'(3)[of fd] Cons.prems by simp
    moreover have "r \<noteq> -1" if ok using s'(2) that by (simp split: if_splits)
    ultimately show ?thesis using True s1(3) by (auto elim: appended_weaken)
  next
    case False
    with s'(3)[of fd'] s1(2)[of fd'] show ?thesis by simp
  qed
  moreover have "ok \<longrightarrow> all_ok" using s'(2) by (simp split: if_splits)
  ultimately show ?case using s1(1) s'(1) by (intro exI[of _ ok] exI[of _ s']) simp
qed simp

lemma send_event_spec:
  assumes law: "send_law send outgoing" and "distinct fds"
  obtains ok s' where "send_event send fds ev s = Some (ok, s')"
    and "\<And>fd. appended (if visible fd fds ev then serialise_event ev else []) ok
      (outgoing s fd) (outgoing s' fd)"
proof (cases ev)
  case (Routed conn e)
  obtain r s1 where s1: "send_all send conn (serialise_private e) s = Some (r, s1)"
    "\<And>fd'. fd' \<noteq> conn \<Longrightarrow> outgoing s1 fd' = outgoing s fd'"
    "appended (serialise_private e) (r \<noteq> -1) (outgoing s conn) (outgoing s1 conn)"
    using send_all_appended[OF law, of conn "serialise_private e" s] by blast
  have "appended (if visible fd fds ev then serialise_event ev else []) (r \<noteq> -1)
      (outgoing s fd) (outgoing s1 fd)" for fd
    using s1(2)[of fd] s1(3) Routed by (cases "conn = fd") (auto simp: visible_def)
  with s1(1) Routed that show thesis by (simp add: send_event_private_def)
next
  case (Public e)
  obtain ok s' where "broadcast send fds (serialise_public e) True s = Some (ok, s')"
    "\<forall>fd. appended (if fd \<in> set fds then serialise_public e else []) ok (outgoing s fd) (outgoing s' fd)"
    using broadcast_spec[OF assms, of "serialise_public e" True s] by blast
  with Public show thesis
    by (intro that[of ok s']) (simp_all only: send_event.simps send_event_public_def visible_def
      Event.case serialise_event.simps)
qed

section \<open>A run of the sender\<close>

text \<open>What a connection sees of the events, given the descriptors each of them finds.\<close>

fun seen_by :: "int \<Rightarrow> int list list \<Rightarrow> Event list \<Rightarrow> Event list" where
  "seen_by fd (fds # sched) (ev # evs) =
     (if visible fd fds ev then [ev] else []) @ seen_by fd sched evs"
| "seen_by fd _ _ = []"

lemma run_sender_empty:
  "\<lbrakk> sink_ok C block_mode sink; rb_items C sink = [] \<rbrakk> \<Longrightarrow>
   run_sender C block_mode send sched sink s = Some ([], sink, s)"
  by (induction sched) (auto simp: sink.pop_none)

lemma run_sender_spec:
  assumes law: "send_law send outgoing"
  shows "\<lbrakk> sink_ok C block_mode sink; \<forall>fds \<in> set (map snd sched). distinct fds \<rbrakk> \<Longrightarrow>
    \<exists>oks sink' s'. run_sender C block_mode send sched sink s = Some (oks, sink', s') \<and>
      sink_ok C block_mode sink' \<and> rb_items C sink' = drop (length sched) (rb_items C sink) \<and>
      length oks = min (length sched) (length (rb_items C sink)) \<and>
      ((\<forall>ok \<in> set oks. ok) \<longrightarrow> (\<forall>fd. outgoing s' fd =
         outgoing s fd @ concat (map serialise_event (seen_by fd (map snd sched) (rb_items C sink)))))"
proof (induction sched arbitrary: sink s)
  case (Cons round sched)
  obtain running fds where round: "round = (running, fds)" by (cases round)
  show ?case
  proof (cases "rb_items C sink")
    case Nil
    with Cons.prems run_sender_empty[OF Cons.prems(1) Nil, of send "round # sched" s] show ?thesis
      by simp
  next
    case items: (Cons ev evs)
    have test: "loop_test running sink" using items by (simp add: loop_test_iff[OF Cons.prems(1)])
    obtain sink' where sink': "sink_pop C block_mode sink = (Some ev, sink')" "sink_ok C block_mode sink'"
      "rb_items C sink' = evs"
      using sink.pop_some[OF Cons.prems(1) items] by blast
    have "distinct fds" using Cons.prems(2) round by simp
    from send_event_spec[OF law this, of ev s] obtain ok s1 where s1:
      "send_event send fds ev s = Some (ok, s1)"
      "\<And>fd. appended (if visible fd fds ev then serialise_event ev else []) ok (outgoing s fd) (outgoing s1 fd)"
      by blast
    have "\<forall>fds \<in> set (map snd sched). distinct fds" using Cons.prems(2) by simp
    from Cons.IH[OF sink'(2) this, of s1] obtain oks sink'' s' where r:
      "run_sender C block_mode send sched sink' s1 = Some (oks, sink'', s')"
      "sink_ok C block_mode sink''" "rb_items C sink'' = drop (length sched) evs"
      "length oks = min (length sched) (length evs)"
      "(\<forall>ok \<in> set oks. ok) \<longrightarrow> (\<forall>fd. outgoing s' fd = outgoing s1 fd @ concat (map serialise_event (seen_by fd (map snd sched) evs)))"
      unfolding sink'(3) by blast
    have "outgoing s1 fd = outgoing s fd @ (if visible fd fds ev then serialise_event ev else [])"
      if ok for fd
      using s1(2)[of fd] that by (simp split: if_splits)
    with sink'(1) s1(1) r items test round show ?thesis by auto
  qed
qed simp

text \<open>When no send fails, the sender reports none.\<close>

lemma send_all_succeeds:
  assumes "send_succeeds send outgoing" obtains r s' where "send_all send fd buf s = Some (r, s')" and "r \<noteq> -1"
  using send_loop_succeeds[OF assms, of 0 buf fd s] by (auto simp: send_all_def)

lemma broadcast_succeeds:
  assumes "send_succeeds send outgoing" shows "\<exists>s'. broadcast send fds buf True s = Some (True, s')"
proof (induction fds arbitrary: s)
  case (Cons fd fds)
  show ?case
    by (rule send_all_succeeds[OF assms, of fd buf s]) (use Cons.IH in simp)
qed simp

lemma send_event_succeeds:
  assumes "send_succeeds send outgoing" shows "\<exists>s'. send_event send fds ev s = Some (True, s')"
proof (cases ev)
  case (Routed conn e)
  show ?thesis
    by (rule send_all_succeeds[OF assms, of conn "serialise_private e" s]) (simp add: Routed send_event_private_def)
next
  case (Public e)
  with broadcast_succeeds[OF assms] show ?thesis by (simp add: send_event_public_def)
qed

lemma run_sender_succeeds:
  assumes ok: "send_succeeds send outgoing" and sink: "sink_ok C block_mode sink" and items: "rb_items C sink = ev # evs"
    and run: "run_sender C block_mode send [(True, fds)] sink s = Some (oks, sink', s')"
  shows "oks = [True]"
proof -
  obtain rb where "sink_pop C block_mode sink = (Some ev, rb)" using sink.pop_some[OF sink items] by blast
  moreover obtain s1 where "send_event send fds ev s = Some (True, s1)" using send_event_succeeds[OF ok] by blast
  moreover have "loop_test True sink" using items by (simp add: loop_test_iff[OF sink])
  ultimately show ?thesis using run by (simp del: send_event.simps)
qed

end
