(* ===== verification/Book_Events.thy ===== *)
theory Book_Events
  imports Process Client_State "HOL-Library.Sublist"
begin

text \<open>
  The events as the code of the book pushes them, whatever the messages: they are only ever appended,
  and the numbers in them fit the fields they are sent in. No validity of the messages is needed; a
  computation that left the range would have ended in an error.
\<close>

section \<open>The book only appends events\<close>

definition appends :: "OrderBook \<Rightarrow> OrderBook \<Rightarrow> bool" where
  "appends b b' \<longleftrightarrow> prefix (event_sink b) (event_sink b')"

lemma appends_refl [simp]: "appends b b"
  by (simp add: appends_def)

lemma appends_trans: "appends b b' \<Longrightarrow> appends b' b'' \<Longrightarrow> appends b b''"
  unfolding appends_def by (rule prefix_order.trans)

lemma appends_events [simp]:
  "appends b (add_private_event conn ev b') \<longleftrightarrow> prefix (event_sink b) (event_sink b' @ [Routed conn ev])"
  "appends b (add_public_event pu b') \<longleftrightarrow> prefix (event_sink b) (event_sink b' @ [Public pu])"
  by (simp_all add: appends_def add_private_event_def add_public_event_def)

lemma execute_trade_appends:
  assumes "execute_trade incoming lvl b = Inr (q, incoming', lvl', b')"
  shows "appends b b'"
  using assms unfolding execute_trade_def Let_def
  by (elim rbind_Inr_E, simp only: sum.inject prod.inject, elim conjE, hypsubst_thin)
     (simp add: appends_def add_private_event_def add_public_event_def remove_look_up_def)

lemma trade_level_loop_appends:
  "trade_level_loop incoming lvl b ex = Inr (ex', incoming', lvl', b') \<Longrightarrow> appends b b'"
proof (induction incoming lvl b ex rule: trade_level_loop.induct)
  case (1 incoming lvl b ex)
  show ?case
  proof (cases "\<not> is_filled incoming \<and> \<not> level_empty lvl")
    case True
    with "1.prems" obtain q i1 l1 b1 ex1 where *: "execute_trade incoming lvl b = Inr (q, i1, l1, b1)"
      "i64_add ex q = Inr ex1" "trade_level_loop i1 l1 b1 ex1 = Inr (ex', incoming', lvl', b')"
      by (subst (asm) trade_level_loop.simps) (auto simp: rbind_eq_Inr_iff)
    show ?thesis
      using appends_trans[OF execute_trade_appends[OF *(1)] "1.IH"[OF True *(1) _ _ _ *(2) *(3)]] by simp
  next
    case False
    with "1.prems" show ?thesis by (subst (asm) trade_level_loop.simps) auto
  qed
qed

lemma match_levels_loop_appends:
  "match_levels_loop cmp p ord ls b ex = Inr (ex', ord', ls', b') \<Longrightarrow> appends b b'"
proof (induction cmp p ord ls b ex rule: match_levels_loop.induct)
  case (1 cmp p ord b ex)
  then show ?case by (simp add: match_levels_loop.simps)
next
  case (2 cmp p ord k lvl ls b ex)
  show ?case
  proof (cases "\<not> is_filled ord \<and> cmp p (level_price lvl)")
    case True
    with "2.prems" obtain ex1 o1 l1 b1 where *: "trade_level_loop ord lvl b ex = Inr (ex1, o1, l1, b1)"
      "(if level_empty l1 then match_levels_loop cmp p o1 ls b1 ex1
        else match_levels_loop cmp p o1 ((k, l1) # ls) b1 ex1) = Inr (ex', ord', ls', b')"
      by (subst (asm) match_levels_loop.simps) (auto simp: rbind_eq_Inr_iff)
    have "appends b1 b'"
    proof (cases "level_empty l1")
      case True
      with *(2) show ?thesis using "2.IH"(1)[OF \<open>_ \<and> _\<close> *(1)] by simp
    next
      case False
      with *(2) show ?thesis using "2.IH"(2)[OF \<open>_ \<and> _\<close> *(1)] by simp
    qed
    with appends_trans[OF trade_level_loop_appends[OF *(1)]] show ?thesis by blast
  next
    case False
    with "2.prems" show ?thesis by (subst (asm) match_levels_loop.simps) auto
  qed
qed

lemma match_order_appends:
  "match_order ord b = Inr (q, ord', b') \<Longrightarrow> appends b b'"
  by (auto simp: match_order_def match_buy_def match_sell_def match_limit_order_against_side_def
      rbind_eq_Inr_iff appends_def split: if_splits
      dest!: match_levels_loop_appends)

lemma rest_order_appends: "rest_order ord b = Inr (ok, b') \<Longrightarrow> appends b b'"
  by (auto simp: rest_order_def add_order_to_side_def rbind_eq_Inr_iff appends_def Let_def
      add_public_event_def split: if_splits)

lemma add_order_appends:
  assumes "add_order ord b = Inr (res, b')" shows "appends b b'"
proof (cases "is_limit_order ord")
  case True
  with assms show ?thesis
    by (auto simp: add_order_def add_limit_order_def rbind_eq_Inr_iff Let_def
        dest!: match_order_appends rest_order_appends split: if_splits intro: appends_trans)
next
  case False
  with assms show ?thesis
    by (auto simp: add_order_def add_market_order_def match_market_order_against_side_def
        rbind_eq_Inr_iff appends_def dest!: match_levels_loop_appends split: if_splits)
qed

lemma cancel_order_appends: "cancel_order oid b = Inr (ok, b') \<Longrightarrow> appends b b'"
  by (auto simp: cancel_order_def cancel_order_side_def rbind_eq_Inr_iff Let_def appends_def
      add_public_event_def split: option.splits if_splits)

lemma modify_order_appends: "modify_order oid p q b = Inr (ok, b') \<Longrightarrow> appends b b'"
  by (auto simp: modify_order_def rbind_eq_Inr_iff split: option.splits
      dest!: cancel_order_appends add_order_appends intro: appends_trans)

lemma process_appends:
  assumes "process m b = Inr b'" shows "appends b b'"
proof (cases m)
  case (Add_msg msg)
  with assms obtain ord res b1 where "add_order ord (b\<lparr>next_order_id := next_order_id b + 1\<rparr>) = Inr (res, b1)"
    "b' = report_add msg (next_order_id b) res b1"
    by (auto simp: process_add_def rbind_eq_Inr_iff Let_def)
  moreover have "appends b1 (report_add msg (next_order_id b) res b1)"
    by (auto simp: report_add_def Let_def split: AddOrderStatus.split)
  ultimately show ?thesis using add_order_appends by (force simp: appends_def)
next
  case (Cancel_msg msg)
  with assms show ?thesis
    by (auto simp: process_cancel_def rbind_eq_Inr_iff appends_def dest!: cancel_order_appends
        split: if_splits)
next
  case (Modify_msg msg)
  with assms show ?thesis
    by (auto simp: process_modify_def rbind_eq_Inr_iff appends_def dest!: modify_order_appends
        split: if_splits)
qed

section \<open>Orders, levels and books in range\<close>

definition order_range :: "Order \<Rightarrow> bool" where
  "order_range ord \<longleftrightarrow> in_i64 (price ord) \<and> in_i64 (remaining_quantity ord)"

definition level_range :: "PriceLevel \<Rightarrow> bool" where
  "level_range lvl \<longleftrightarrow> in_i64 (level_price lvl) \<and> in_i64 (total_quantity lvl) \<and>
     list_all (\<lambda>nd. order_range (snd nd)) (orders lvl)"

definition levels_range :: "Levels \<Rightarrow> bool" where
  "levels_range ls \<longleftrightarrow> (\<forall>e \<in> set ls. level_range (snd e))"

definition events_range :: "OrderBook \<Rightarrow> bool" where
  "events_range b \<longleftrightarrow> (\<forall>ev \<in> set (event_sink b). event_wire_ok ev)"

text \<open>The index holds the price of every order, from which a cancellation reports.\<close>

definition index_range :: "OrderBook \<Rightarrow> bool" where
  "index_range b \<longleftrightarrow> (\<forall>loc \<in> ran (order_look_up b). in_i64 (loc_price loc))"

definition book_range :: "OrderBook \<Rightarrow> bool" where
  "book_range b \<longleftrightarrow> levels_range (bids b) \<and> levels_range (asks b) \<and> index_range b \<and> events_range b"

lemma levels_range_simps [simp]:
  "levels_range []" "levels_range (e # ls) \<longleftrightarrow> level_range (snd e) \<and> levels_range ls"
  by (simp_all add: levels_range_def)

lemma events_range_push [simp]:
  "events_range (add_private_event conn ev b) \<longleftrightarrow> events_range b \<and> private_wire_ok ev"
  "events_range (add_public_event pu b) \<longleftrightarrow> events_range b \<and> public_wire_ok pu"
  by (auto simp: events_range_def add_private_event_def add_public_event_def)

lemma range_upds [simp]:
  "events_range (b\<lparr>bids := ls\<rparr>) = events_range b" "events_range (b\<lparr>asks := ls\<rparr>) = events_range b"
  "events_range (b\<lparr>order_look_up := m\<rparr>) = events_range b" "events_range (b\<lparr>trades := t\<rparr>) = events_range b"
  "events_range (b\<lparr>next_node := n\<rparr>) = events_range b" "events_range (b\<lparr>next_order_id := i\<rparr>) = events_range b"
  "index_range (b\<lparr>bids := ls\<rparr>) = index_range b" "index_range (b\<lparr>asks := ls\<rparr>) = index_range b"
  "index_range (b\<lparr>trades := t\<rparr>) = index_range b" "index_range (b\<lparr>next_node := n\<rparr>) = index_range b"
  "index_range (b\<lparr>next_order_id := i\<rparr>) = index_range b" "index_range (b\<lparr>event_sink := es\<rparr>) = index_range b"
  "index_range (add_private_event conn ev b) = index_range b"
  "index_range (add_public_event pu b) = index_range b"
  by (simp_all add: events_range_def index_range_def add_private_event_def add_public_event_def)

lemma index_range_remove: "index_range b \<Longrightarrow> index_range (b\<lparr>order_look_up := (order_look_up b)(oid := None)\<rparr>)"
  by (auto simp: index_range_def ran_def)

lemma range_remove_look_up [simp]:
  "events_range (snd (remove_look_up oid b)) = events_range b"
  "index_range b \<Longrightarrow> index_range (snd (remove_look_up oid b))"
  by (simp_all add: remove_look_up_def index_range_remove)

lemma index_range_insert:
  "\<lbrakk> index_range b; in_i64 (loc_price loc) \<rbrakk> \<Longrightarrow>
   index_range (b\<lparr>order_look_up := (order_look_up b)(oid \<mapsto> loc)\<rparr>)"
  by (auto simp: index_range_def ran_def)

section \<open>Levels\<close>

lemma fill_order_range: "fill_order ord q = Inr ord' \<Longrightarrow> order_range ord \<Longrightarrow> order_range ord'"
  by (auto simp: fill_order_def rbind_eq_Inr_iff i64_sub_Inr_iff order_range_def split: if_splits)

lemma level_add_order_range:
  "level_add_order lvl n ord = Inr lvl' \<Longrightarrow> level_range lvl \<Longrightarrow> order_range ord \<Longrightarrow> level_range lvl'"
  by (auto simp: level_add_order_def rbind_eq_Inr_iff i64_add_Inr_iff level_range_def split: if_splits)

lemma erase_order_range: "erase_order lvl n = Inr lvl' \<Longrightarrow> level_range lvl \<Longrightarrow> level_range lvl'"
  by (auto simp: erase_order_def rbind_eq_Inr_iff i64_sub_Inr_iff level_range_def list_all_iff
      split: option.splits)

lemma fill_front_order_range:
  "fill_front_order lvl q = Inr lvl' \<Longrightarrow> level_range lvl \<Longrightarrow> level_range lvl'"
  by (auto simp: fill_front_order_def pop_front_order_def rbind_eq_Inr_iff i64_sub_Inr_iff level_range_def
      Let_def split: list.splits if_splits dest!: fill_order_range)

lemma levels_try_emplace_range:
  "levels_try_emplace before p ls = Inr (ls', lvl) \<Longrightarrow> levels_range ls \<Longrightarrow> in_i64 p \<Longrightarrow>
   levels_range ls' \<and> level_range lvl"
proof -
  assume emp: "levels_try_emplace before p ls = Inr (ls', lvl)" and ls: "levels_range ls" and p: "in_i64 p"
  have ins: "level_range v \<Longrightarrow> levels_range (levels_insert before p v ls)" for v
    using ls by (induction ls) auto
  show ?thesis
  proof (cases "map_of ls p")
    case None
    with emp ins p show ?thesis
      by (auto simp: levels_try_emplace_def rbind_eq_Inr_iff new_PriceLevel_def level_range_def split: if_splits)
  next
    case (Some l)
    with emp ls show ?thesis using map_of_SomeD[OF Some] by (auto simp: levels_try_emplace_def levels_range_def)
  qed
qed

lemma levels_put_range: "levels_range ls \<Longrightarrow> level_range lvl \<Longrightarrow> levels_range (levels_put p lvl ls)"
  by (auto simp: levels_range_def levels_put_def)

lemma levels_erase_range: "levels_range ls \<Longrightarrow> levels_range (levels_erase p ls)"
  by (auto simp: levels_range_def levels_erase_def)

section \<open>Matching\<close>

definition same_sides :: "OrderBook \<Rightarrow> OrderBook \<Rightarrow> bool" where
  "same_sides b b' \<longleftrightarrow> bids b' = bids b \<and> asks b' = asks b"

lemma min_in_i64: "in_i64 a \<Longrightarrow> in_i64 b \<Longrightarrow> in_i64 (min a b)"
  by (simp add: min_def)

lemma execute_trade_range:
  assumes ex: "execute_trade incoming lvl b = Inr (q, incoming', lvl', b')"
    and "order_range incoming" "level_range lvl" "index_range b" "events_range b"
  shows "order_range incoming' \<and> level_range lvl' \<and> index_range b' \<and> events_range b' \<and>
    same_sides b b'"
proof -
  obtain n front rest where lvl: "orders lvl = (n, front) # rest"
    and q: "q = min (remaining_quantity incoming) (remaining_quantity front)"
    and fill: "fill_order incoming q = Inr incoming'" "fill_front_order lvl q = Inr lvl'"
    using execute_trade_InrD[OF ex] by blast
  have front: "order_range front" using assms(3) lvl by (simp add: level_range_def)
  have inc: "order_range incoming'" by (rule fill_order_range[OF fill(1) assms(2)])
  have lv: "level_range lvl'" by (rule fill_front_order_range[OF fill(2) assms(3)])
  have qr: "in_i64 q" using assms(2) front by (simp add: q order_range_def min_in_i64)
  let ?t = "Trade_from_match incoming front"
  let ?b0 = "add_public_event (TradeExecuted (info_order_id (buyer ?t)) (info_order_id (seller ?t))
    (execution_price ?t) (execution_quantity ?t) (aggressor_side ?t)) b"
  let ?b1 = "?b0\<lparr>trades := trades ?b0 @ [?t]\<rparr>"
  let ?b2 = "if remaining_quantity front = q then snd (remove_look_up (order_id front) ?b1) else ?b1"
  let ?b3 = "add_public_event (BookUpdate (if is_buy incoming' then Sell else Buy) (level_price lvl')
    (total_quantity lvl')) ?b2"
  obtain r where r: "i64_sub (remaining_quantity front) q = Inr r"
    and b': "b' = (if remaining_quantity front = q
      then add_private_event (connection_id front) (OrderFilled (order_id front) (client_order_id front)) ?b3
      else add_private_event (connection_id front) (OrderRested (order_id front) (client_order_id front) r) ?b3)"
    using ex unfolding execute_trade_def front_order_Cons[OF lvl] rbind_Inr Let_def q[symmetric] rbind_eq_Inr_iff
    by (simp only: sum.inject prod.inject) (elim exE conjE, hypsubst_thin, simp)
  have "public_wire_ok (TradeExecuted x y (execution_price ?t) (execution_quantity ?t) (aggressor_side ?t))" for x y
    using assms(2) front qr by (simp add: Trade_from_match_def order_range_def q)
  then have "events_range ?b1" "index_range ?b1" using assms(4,5) by simp_all
  then have "events_range ?b2" "index_range ?b2"
    by simp_all
  then have "events_range ?b3" "index_range ?b3"
    using lv by (simp_all add: level_range_def)
  moreover have "in_i64 r" using r unfolding i64_sub_Inr_iff by blast
  ultimately have "events_range b' \<and> index_range b'" unfolding b' by auto
  moreover have "same_sides b b'"
    by (simp add: b' same_sides_def add_private_event_def add_public_event_def remove_look_up_def)
  ultimately show ?thesis using inc lv by blast
qed

lemma trade_level_loop_range:
  "trade_level_loop incoming lvl b ex = Inr (ex', incoming', lvl', b') \<Longrightarrow>
   order_range incoming \<Longrightarrow> level_range lvl \<Longrightarrow> index_range b \<Longrightarrow> events_range b \<Longrightarrow>
   order_range incoming' \<and> level_range lvl' \<and> index_range b' \<and> events_range b' \<and> same_sides b b'"
proof (induction incoming lvl b ex rule: trade_level_loop.induct)
  case (1 incoming lvl b ex)
  show ?case
  proof (cases "\<not> is_filled incoming \<and> \<not> level_empty lvl")
    case True
    with "1.prems"(1) obtain q i1 l1 b1 ex1 where *: "execute_trade incoming lvl b = Inr (q, i1, l1, b1)"
      "i64_add ex q = Inr ex1" "trade_level_loop i1 l1 b1 ex1 = Inr (ex', incoming', lvl', b')"
      by (subst (asm) trade_level_loop.simps) (auto simp: rbind_eq_Inr_iff)
    show ?thesis
      using execute_trade_range[OF *(1) "1.prems"(2-5)] "1.IH"[OF True *(1) _ _ _ *(2) *(3)]
      by (simp add: same_sides_def)
  next
    case False
    with "1.prems" show ?thesis by (subst (asm) trade_level_loop.simps) (auto simp: same_sides_def)
  qed
qed

lemma match_levels_loop_range:
  "match_levels_loop cmp p ord ls b ex = Inr (ex', ord', ls', b') \<Longrightarrow>
   order_range ord \<Longrightarrow> levels_range ls \<Longrightarrow> index_range b \<Longrightarrow> events_range b \<Longrightarrow>
   order_range ord' \<and> levels_range ls' \<and> index_range b' \<and> events_range b' \<and> same_sides b b'"
proof (induction cmp p ord ls b ex rule: match_levels_loop.induct)
  case (1 cmp p ord b ex)
  then show ?case by (auto simp: match_levels_loop.simps same_sides_def)
next
  case (2 cmp p ord k lvl ls b ex)
  show ?case
  proof (cases "\<not> is_filled ord \<and> cmp p (level_price lvl)")
    case True
    with "2.prems"(1) obtain ex1 o1 l1 b1 where *: "trade_level_loop ord lvl b ex = Inr (ex1, o1, l1, b1)"
      "(if level_empty l1 then match_levels_loop cmp p o1 ls b1 ex1
        else match_levels_loop cmp p o1 ((k, l1) # ls) b1 ex1) = Inr (ex', ord', ls', b')"
      by (subst (asm) match_levels_loop.simps) (auto simp: rbind_eq_Inr_iff)
    have r1: "order_range o1" "level_range l1" "index_range b1" "events_range b1" "levels_range ls"
      "same_sides b b1"
      using trade_level_loop_range[OF *(1)] "2.prems"(2-5) by simp_all
    show ?thesis
    proof (cases "level_empty l1")
      case True
      with *(2) r1 show ?thesis using "2.IH"(1)[OF \<open>_ \<and> _\<close> *(1)] by (simp add: same_sides_def)
    next
      case False
      with *(2) r1 show ?thesis using "2.IH"(2)[OF \<open>_ \<and> _\<close> *(1)] by (simp add: same_sides_def)
    qed
  next
    case False
    with "2.prems" show ?thesis by (subst (asm) match_levels_loop.simps) (auto simp: same_sides_def)
  qed
qed

section \<open>The operations of the book\<close>

lemma book_range_levels:
  "book_range (b\<lparr>bids := ls\<rparr>) \<longleftrightarrow> levels_range ls \<and> levels_range (asks b) \<and> index_range b \<and> events_range b"
  "book_range (b\<lparr>asks := ls\<rparr>) \<longleftrightarrow> levels_range (bids b) \<and> levels_range ls \<and> index_range b \<and> events_range b"
  by (simp_all add: book_range_def)

lemma book_range_private [simp]:
  "book_range (add_private_event conn ev b) \<longleftrightarrow> book_range b \<and> private_wire_ok ev"
  by (auto simp: book_range_def add_private_event_def[of conn ev b] events_range_def index_range_def)

lemma match_side_range:
  assumes "match_limit_order_against_side ord ls cmp b = Inr (q, ord', ls', b') \<or>
      match_market_order_against_side ls ord b = Inr (q, ord', ls', b')"
    and "order_range ord" "levels_range ls" "index_range b" "events_range b"
  shows "order_range ord' \<and> levels_range ls' \<and> index_range b' \<and> events_range b' \<and> same_sides b b'"
proof (cases "ls = []")
  case True
  with assms show ?thesis
    by (auto simp: match_limit_order_against_side_def match_market_order_against_side_def same_sides_def)
next
  case False
  with assms(1) obtain cmp' where "match_levels_loop cmp' (price ord) ord ls b 0 = Inr (q, ord', ls', b')"
    by (auto simp: match_limit_order_against_side_def match_market_order_against_side_def)
  from match_levels_loop_range[OF this assms(2-5)] show ?thesis .
qed

lemma book_rangeD:
  assumes "book_range b"
  shows "levels_range (bids b)" "levels_range (asks b)" "index_range b" "events_range b"
  using assms by (simp_all add: book_range_def)

text \<open>A side was rewritten, and the rest of the book is in range.\<close>

lemma book_range_side:
  assumes "book_range b" and "levels_range ls \<and> index_range b' \<and> events_range b' \<and> same_sides b b'"
  shows "book_range (b'\<lparr>bids := ls\<rparr>)" and "book_range (b'\<lparr>asks := ls\<rparr>)"
  using assms by (simp_all add: book_range_levels same_sides_def book_range_def)

lemma match_order_range:
  assumes match: "match_order ord b = Inr (q, ord', b')" and ord: "order_range ord" and b: "book_range b"
  shows "order_range ord' \<and> book_range b'"
proof (cases "is_buy ord")
  case True
  with match obtain ls b1 where m: "match_limit_order_against_side ord (asks b) cmp_buy b = Inr (q, ord', ls, b1)"
    and b': "b' = b1\<lparr>asks := ls\<rparr>"
    by (auto simp: match_order_def match_buy_def rbind_eq_Inr_iff)
  note r = match_side_range[OF disjI1[OF m] ord book_rangeD(2-4)[OF b]]
  then show ?thesis using book_range_side(2)[OF b, of ls b1] b' by blast
next
  case False
  with match obtain ls b1 where m: "match_limit_order_against_side ord (bids b) cmp_sell b = Inr (q, ord', ls, b1)"
    and b': "b' = b1\<lparr>bids := ls\<rparr>"
    by (auto simp: match_order_def match_sell_def rbind_eq_Inr_iff)
  note r = match_side_range[OF disjI1[OF m] ord book_rangeD(1,3,4)[OF b]]
  then show ?thesis using book_range_side(1)[OF b, of ls b1] b' by blast
qed

lemma add_order_to_side_range:
  assumes add: "add_order_to_side before ls ord b = Inr (ok, ls', b')" and "order_range ord"
    and "levels_range ls" and "index_range b" and "events_range b"
  shows "levels_range ls' \<and> index_range b' \<and> events_range b' \<and> same_sides b b'"
proof (cases "is_filled ord")
  case True
  with assms show ?thesis by (auto simp: add_order_to_side_def same_sides_def)
next
  case False
  have ord: "in_i64 (price ord)" using assms(2) by (simp add: order_range_def)
  obtain l1 lvl lvl' where *: "levels_try_emplace before (price ord) ls = Inr (l1, lvl)"
    "level_add_order lvl (next_node b) ord = Inr lvl'"
    and ls': "ls' = levels_put (price ord) lvl' l1"
    and b': "b' = add_public_event (BookUpdate (side ord) (price ord) (total_quantity lvl'))
      (if order_look_up b (order_id ord) = None then b\<lparr>next_node := Suc (next_node b),
         order_look_up := (order_look_up b)(order_id ord \<mapsto>
           \<lparr>loc_side = side ord, loc_price = price ord, loc_order_it = next_node b\<rparr>)\<rparr>
       else b\<lparr>next_node := Suc (next_node b)\<rparr>)"
    using add False unfolding add_order_to_side_def Let_def by (auto simp: rbind_eq_Inr_iff)
  have lv: "levels_range l1" "level_range lvl'"
    using levels_try_emplace_range[OF *(1) assms(3) ord] level_add_order_range[OF *(2) _ assms(2)]
    by blast+
  have "index_range (b\<lparr>next_node := Suc (next_node b),
         order_look_up := (order_look_up b)(order_id ord \<mapsto>
           \<lparr>loc_side = side ord, loc_price = price ord, loc_order_it = next_node b\<rparr>)\<rparr>)"
    using index_range_insert[of "b\<lparr>next_node := Suc (next_node b)\<rparr>"
        "\<lparr>loc_side = side ord, loc_price = price ord, loc_order_it = next_node b\<rparr>" "order_id ord"] assms(4) ord
    by simp
  with lv ord assms(4,5) show ?thesis
    by (auto simp: ls' b' levels_put_range level_range_def same_sides_def) (auto simp: add_public_event_def)
qed

lemma rest_order_range:
  assumes rest: "rest_order ord b = Inr (ok, b')" and ord: "order_range ord" and b: "book_range b"
  shows "book_range b'"
proof (cases "is_buy ord")
  case True
  with rest obtain ls b1 where "add_order_to_side bid_before (bids b) ord b = Inr (ok, ls, b1)"
    and b': "b' = b1\<lparr>bids := ls\<rparr>"
    by (auto simp: rest_order_def rbind_eq_Inr_iff)
  from book_range_side(1)[OF b add_order_to_side_range[OF this(1) ord book_rangeD(1,3,4)[OF b]]]
  show ?thesis by (simp add: b')
next
  case False
  with rest obtain ls b1 where "add_order_to_side ask_before (asks b) ord b = Inr (ok, ls, b1)"
    and b': "b' = b1\<lparr>asks := ls\<rparr>"
    by (auto simp: rest_order_def rbind_eq_Inr_iff)
  from book_range_side(2)[OF b add_order_to_side_range[OF this(1) ord book_rangeD(2-4)[OF b]]]
  show ?thesis by (simp add: b')
qed

lemma add_limit_order_range:
  assumes add: "add_limit_order ord b = Inr (res, b')" and ord: "order_range ord" and b: "book_range b"
  shows "book_range b' \<and> in_i64 (res_remaining_quantity res)"
proof -
  have ord': "in_i64 (remaining_quantity o')" if "order_range o'" for o'
    using that by (simp add: order_range_def)
  obtain fillable where add': "(if time_in_force ord = FillOrKill \<and> \<not> fillable then
        Inr (\<lparr>status = Rejected, res_execution_quantity = 0,
              res_remaining_quantity = remaining_quantity ord\<rparr>, b)
      else rbind (match_order ord b) (\<lambda>(ex, ord', b1).
        if time_in_force ord = GoodTillCancel then
          rbind (rest_order ord' b1) (\<lambda>(ok, b2).
            Inr (from_match ok (order_type ord') ex (remaining_quantity ord'), b2))
        else Inr (from_match_filled (order_type ord') ex (remaining_quantity ord'), b1))) = Inr (res, b')"
    using add unfolding add_limit_order_def Let_def by (elim rbind_Inr_E) blast
  show ?thesis
  proof (cases "time_in_force ord = FillOrKill \<and> \<not> fillable")
    case True
    with add' ord' ord b show ?thesis by auto
  next
    case False
    with add' obtain ex ord1 b1 where m: "match_order ord b = Inr (ex, ord1, b1)"
      and rest: "(if time_in_force ord = GoodTillCancel then
          rbind (rest_order ord1 b1) (\<lambda>(ok, b2).
            Inr (from_match ok (order_type ord1) ex (remaining_quantity ord1), b2))
        else Inr (from_match_filled (order_type ord1) ex (remaining_quantity ord1), b1)) = Inr (res, b')"
      unfolding if_not_P[OF False] by (elim rbind_Inr_E) auto
    have r: "order_range ord1" "book_range b1" using match_order_range[OF m ord b] by blast+
    show ?thesis
    proof (cases "time_in_force ord = GoodTillCancel")
      case True
      with rest obtain ok where "rest_order ord1 b1 = Inr (ok, b')"
        "res = from_match ok (order_type ord1) ex (remaining_quantity ord1)"
        by (auto simp: rbind_eq_Inr_iff)
      with rest_order_range[OF _ r] ord'[OF r(1)] show ?thesis
        by (auto simp: from_match_def from_match_filled_def)
    next
      case False
      with rest r(2) ord'[OF r(1)] show ?thesis by (auto simp: from_match_filled_def)
    qed
  qed
qed

lemma add_market_order_range:
  assumes add: "add_market_order ord b = Inr (res, b')" and ord: "order_range ord" and b: "book_range b"
  shows "book_range b' \<and> in_i64 (res_remaining_quantity res)"
proof -
  obtain ls ls' ex ord' b1 where m: "match_market_order_against_side ls ord b = Inr (ex, ord', ls', b1)"
    and ls: "levels_range ls" and b': "b' = b1\<lparr>asks := ls'\<rparr> \<or> b' = b1\<lparr>bids := ls'\<rparr>"
    and res: "res = from_match_filled (order_type ord') ex (remaining_quantity ord')"
    using add book_rangeD(1,2)[OF b] by (auto simp: add_market_order_def rbind_eq_Inr_iff split: if_splits)
  note r = match_side_range[OF disjI2[OF m] ord ls book_rangeD(3,4)[OF b]]
  then have "book_range b'" using book_range_side[OF b, of ls' b1] b' by blast
  moreover have "in_i64 (res_remaining_quantity res)"
    using r by (simp add: res from_match_filled_def order_range_def)
  ultimately show ?thesis ..
qed

lemma add_order_range:
  assumes "add_order ord b = Inr (res, b')" and "order_range ord" and "book_range b"
  shows "book_range b' \<and> in_i64 (res_remaining_quantity res)"
  using assms add_limit_order_range add_market_order_range by (auto simp: add_order_def split: if_splits)

lemma cancel_order_side_range:
  assumes "cancel_order_side ls loc b = Inr (ok, ls', b')" and "levels_range ls" and "in_i64 (loc_price loc)"
    and "index_range b" and "events_range b"
  shows "levels_range ls' \<and> index_range b' \<and> events_range b' \<and> same_sides b b'"
proof (cases "map_of ls (loc_price loc)")
  case None
  with assms show ?thesis by (auto simp: cancel_order_side_def same_sides_def)
next
  case (Some lvl)
  have "level_range lvl" using map_of_SomeD[OF Some] assms(2) by (auto simp: levels_range_def)
  moreover obtain lvl' where "erase_order lvl (loc_order_it loc) = Inr lvl'"
    "ls' = (if level_empty lvl' then levels_erase (loc_price loc) ls else levels_put (loc_price loc) lvl' ls)"
    "b' = add_public_event (BookUpdate (loc_side loc) (loc_price loc)
      (if level_empty lvl' then 0 else total_quantity lvl')) b"
    using assms(1) Some by (auto simp: cancel_order_side_def rbind_eq_Inr_iff Let_def)
  ultimately show ?thesis
    using erase_order_range[of lvl _ lvl'] assms(2-5)
    by (auto simp: levels_erase_range levels_put_range level_range_def same_sides_def add_public_event_def
        simp del: events_range_push) (simp_all add: events_range_def)
qed

lemma cancel_order_range:
  assumes "cancel_order oid b = Inr (ok, b')" and "book_range b"
  shows "book_range b'"
proof (cases "order_look_up b oid")
  case None
  with assms show ?thesis by (simp add: cancel_order_def)
next
  case (Some loc)
  let ?b = "b\<lparr>order_look_up := (order_look_up b)(oid := None)\<rparr>"
  have loc: "in_i64 (loc_price loc)"
    using assms(2) Some by (auto simp: book_range_def index_range_def ran_def)
  have "levels_range (bids b)" "levels_range (asks b)" "index_range ?b" "events_range ?b"
    using assms(2) by (simp_all add: book_range_def index_range_remove)
  note d = this
  show ?thesis
  proof (cases "loc_side loc = Buy")
    case True
    with assms(1) Some obtain ls b1 where "cancel_order_side (bids b) loc ?b = Inr (ok, ls, b1)"
      and b': "b' = b1\<lparr>bids := ls\<rparr>"
      by (auto simp: cancel_order_def Let_def rbind_eq_Inr_iff)
    from cancel_order_side_range[OF this(1) d(1) loc d(3,4)] d(1,2) show ?thesis
      by (simp add: b' book_range_levels same_sides_def)
  next
    case False
    with assms(1) Some obtain ls b1 where "cancel_order_side (asks b) loc ?b = Inr (ok, ls, b1)"
      and b': "b' = b1\<lparr>asks := ls\<rparr>"
      by (auto simp: cancel_order_def Let_def rbind_eq_Inr_iff)
    from cancel_order_side_range[OF this(1) d(2) loc d(3,4)] d(1,2) show ?thesis
      by (simp add: b' book_range_levels same_sides_def)
  qed
qed

lemma from_replacement_range:
  assumes "from_replacement old p q = Inr ord" and "order_range old" and "in_i64 p" and "in_i64 q"
  shows "order_range ord"
  using assms by (auto simp: from_replacement_def new_Order_def order_range_def split: if_splits)

lemma find_order_range:
  assumes "find_order oid b = Inr (Some ord)" and "book_range b"
  shows "order_range ord"
proof -
  obtain n where "map_of (book_nodes b) n = Some ord"
    using assms(1) by (auto simp: find_order_def deref_order_def rbind_eq_Inr_iff split: option.splits)
  from map_of_SomeD[OF this] assms(2) show ?thesis
    by (fastforce simp: book_nodes_def levels_nodes_def book_range_def levels_range_def level_range_def
        list_all_iff)
qed

lemma modify_order_range:
  assumes mod: "modify_order oid p q b = Inr (ok, b')" and b: "book_range b" and "in_i64 p" "in_i64 q"
  shows "book_range b'"
proof -
  obtain old where find: "find_order oid b = Inr old"
    using mod by (auto simp: modify_order_def rbind_eq_Inr_iff)
  show ?thesis
  proof (cases old)
    case None
    with mod find b show ?thesis by (simp add: modify_order_def)
  next
    case (Some o1)
    with mod find obtain ord b1 res c where *: "from_replacement o1 p q = Inr ord"
      "cancel_order oid b = Inr (c, b1)" "add_order ord b1 = Inr (res, b')"
      by (auto simp: modify_order_def rbind_eq_Inr_iff)
    have "order_range ord"
      using from_replacement_range[OF *(1) find_order_range[OF _ b] assms(3,4)] find Some by simp
    from add_order_range[OF *(3) this cancel_order_range[OF *(2) b]] show ?thesis ..
  qed
qed

text \<open>The numbers of a message are values of their types; its enumerations need not be enumerators.\<close>

fun numbers_fit :: "Message \<Rightarrow> bool" where
  "numbers_fit (Add_msg m) \<longleftrightarrow> in_i64 (ao_price m) \<and> in_i64 (ao_quantity m)"
| "numbers_fit (Cancel_msg m) \<longleftrightarrow> True"
| "numbers_fit (Modify_msg m) \<longleftrightarrow> in_i64 (mo_new_price m) \<and> in_i64 (mo_new_quantity m)"

lemma numbers_fit_quantity: "numbers_fit m \<Longrightarrow> quantity_in_type m"
  by (cases m) simp_all

lemma process_range:
  assumes p: "process m b = Inr b'" and m: "numbers_fit m" and b: "book_range b"
  shows "book_range b'"
proof (cases m)
  case (Add_msg msg)
  with p obtain ord res b1 where
    new: "new_Order (ao_order_type msg) (ao_time_in_force msg) (next_order_id b) (ao_price msg)
      (ao_quantity msg) (ao_side msg) (ao_seq msg) (ao_connection_id msg) (ao_client_order_id msg) = Inr ord"
    and add: "add_order ord (b\<lparr>next_order_id := next_order_id b + 1\<rparr>) = Inr (res, b1)"
    and b': "b' = report_add msg (next_order_id b) res b1"
    by (auto simp: process_add_def rbind_eq_Inr_iff Let_def)
  have "order_range ord" using new m Add_msg by (auto simp: new_Order_Inr_iff order_range_def)
  moreover have "book_range (b\<lparr>next_order_id := next_order_id b + 1\<rparr>)"
    using b by (simp add: book_range_def)
  ultimately have "book_range b1 \<and> in_i64 (res_remaining_quantity res)" by (rule add_order_range[OF add])
  then show ?thesis
    by (auto simp: b' report_add_def Let_def RejectReason_canonical_def RejectReason_of_def
        split: AddOrderStatus.split)
next
  case (Cancel_msg msg)
  with p obtain ok b1 where "cancel_order (co_id msg) b = Inr (ok, b1)"
    "b' = (if \<not> ok then add_private_event (co_connection_id msg) (CancelRejected (co_id msg) InvalidOrderId) b1
       else add_private_event (co_connection_id msg) (OrderCanceled (co_id msg)) b1)"
    by (auto simp: process_cancel_def rbind_eq_Inr_iff)
  with cancel_order_range[OF _ b] show ?thesis by (auto simp: RejectReason_canonical_def RejectReason_of_def)
next
  case (Modify_msg msg)
  with p obtain ok b1 where "modify_order (mo_id msg) (mo_new_price msg) (mo_new_quantity msg) b = Inr (ok, b1)"
    "b' = (if \<not> ok then add_private_event (mo_connection_id msg) (ModifyRejected (mo_id msg) InvalidOrderId) b1
       else add_private_event (mo_connection_id msg)
         (OrderModified (mo_id msg) (mo_new_price msg) (mo_new_quantity msg)) b1)"
    by (auto simp: process_modify_def rbind_eq_Inr_iff)
  with modify_order_range[OF _ b] m Modify_msg show ?thesis
    by (auto simp: RejectReason_canonical_def RejectReason_of_def)
qed

lemma new_OrderBook_range [simp]: "book_range new_OrderBook"
  by (simp add: book_range_def new_OrderBook_def index_range_def events_range_def)

lemma process_all_range:
  "process_all ms b = Inr b' \<Longrightarrow> \<forall>m \<in> set ms. numbers_fit m \<Longrightarrow> book_range b \<Longrightarrow> book_range b'"
  by (induction ms arbitrary: b) (auto simp: rbind_eq_Inr_iff dest: process_range)

section \<open>What the parser makes of any bytes\<close>

lemma decode_field_I64: "length bs = 8 \<Longrightarrow> in_i64 (decode_field I64 bs)"
proof -
  assume "length bs = 8"
  then have "le_value bs < 2 ^ 64" using le_value_less[of bs] by simp
  then have "int (le_value bs) < int (2 ^ 64)" by (simp only: of_nat_less_iff)
  then show ?thesis by (simp add: decode_field_def Let_def in_i64_def i64_min_def i64_max_def)
qed

lemma deserialise_order_fits:
  assumes "length src = wire_size (wire_of_order t)"
  shows "numbers_fit (deserialise_order t src)"
proof (cases t)
  case Msg_AddOrder
  with assms show ?thesis
    by (simp add: wire_defs wire_size_def Let_def decode_field_I64)
next
  case Msg_CancelOrder
  then show ?thesis by (simp add: Let_def)
next
  case Msg_ModifyOrder
  with assms show ?thesis
    by (simp add: wire_defs wire_size_def Let_def decode_field_I64)
qed

lemma numbers_fit_stamp [simp]: "numbers_fit (stamp_message conn seq m) = numbers_fit m"
  by (cases m) simp_all

lemma frame_fits: "frame bs = Some (Some m, r) \<Longrightarrow> numbers_fit m"
  by (auto simp: frame_def Let_def payload_message_def payload_size_def split: if_splits option.splits
      intro!: deserialise_order_fits)

lemma consumes_fits: "consumes ms bs r \<Longrightarrow> Some m \<in> set ms \<Longrightarrow> numbers_fit m"
  by (induction rule: consumes.induct) (auto dest: frame_fits)

lemma stamp_all_fits: "\<forall>m. Some m \<in> set ms \<longrightarrow> numbers_fit m \<Longrightarrow> m' \<in> set (stamp_all conn seq ms) \<Longrightarrow> numbers_fit m'"
  by (induction conn seq ms rule: stamp_all.induct) auto

end
