(* ===== verification/Pipeline.thy ===== *)
theory Pipeline
  imports Engine "HOL-Library.Sublist"
begin

text \<open>
  A producer, a ring buffer and a consumer, as both programs join their threads: the producer ignores
  the result of a push, so an item is lost when a push fails.
\<close>

section \<open>From a producer to a consumer\<close>

text \<open>
  What was consumed, what is queued and what is still to be pushed is a subsequence of what was
  produced, and all of it unless a push has failed.
\<close>

definition flows :: "bool \<Rightarrow> 'a list \<Rightarrow> 'a list \<Rightarrow> 'a list \<Rightarrow> 'a list \<Rightarrow> bool" where
  "flows lost consumed queued waiting produced \<longleftrightarrow> subseq (consumed @ queued @ waiting) produced \<and>
     (\<not> lost \<longrightarrow> consumed @ queued @ waiting = produced)"

lemma flows_Nil [simp]: "flows lost [] [] [] []"
  by (simp add: flows_def)

lemma flows_produce:
  assumes "flows lost consumed queued [] produced"
  shows "flows lost consumed queued xs (produced @ xs)"
  using assms list_emb_append_mono[of "(=)" "consumed @ queued" produced xs xs] by (simp add: flows_def)

lemma flows_pushed:
  "flows lost consumed queued (x # xs) produced \<Longrightarrow>
   flows lost consumed (queued @ [x]) xs produced"
  by (simp add: flows_def)

lemma flows_dropped:
  assumes "flows lost consumed queued (x # xs) produced" shows "flows True consumed queued xs produced"
proof -
  have "subseq (consumed @ queued @ xs) (consumed @ queued @ x # xs)"
    by (intro list_emb_append_mono subseq_order.refl list_emb_Cons)
  also have "subseq \<dots> produced" using assms by (simp add: flows_def)
  finally show ?thesis by (simp add: flows_def)
qed

lemma flows_weaken: "flows lost consumed queued waiting produced \<Longrightarrow> (lost \<Longrightarrow> lost') \<Longrightarrow>
  flows lost' consumed queued waiting produced"
  by (auto simp: flows_def)

lemma flows_pop:
  "flows lost consumed queued waiting produced \<Longrightarrow>
   flows lost (consumed @ take n queued) (drop n queued) waiting produced"
  by (simp add: flows_def append_assoc[symmetric] del: append_assoc) (simp add: append_assoc)

text \<open>A push into a sink, whether it fits or not.\<close>

lemma flows_push:
  assumes sink: "sink_ok C block_mode q" and push: "rb_push C x q = (ok, q')"
    and flow: "flows lost consumed (rb_items C q) (x # xs) produced"
  shows "sink_ok C block_mode q'" and "flows (lost \<or> \<not> ok) consumed (rb_items C q') xs produced"
proof -
  show "sink_ok C block_mode q'" using sink.push_inv[OF sink, of x] push by simp
  show "flows (lost \<or> \<not> ok) consumed (rb_items C q') xs produced"
  proof (cases "length (rb_items C q) < unat C - 1")
    case True
    with sink.push_room[OF sink, of x] push show ?thesis by (auto intro: flows_pushed[OF flow])
  next
    case False
    then have "length (rb_items C q) = unat C - 1" using sink.bounded[OF sink] by simp
    with sink.push_full[OF sink, of x] push show ?thesis by (auto intro: flows_dropped[OF flow])
  qed
qed

text \<open>A new buffer is a sink that can be used.\<close>

lemma new_sink_ok:
  assumes "cap_ok C" shows "sink_ok C block_mode (new_RingBuffer C d)"
  using new_RingBuffer_ok[OF assms, of d] rb_items_Nil[of C "new_RingBuffer C d"]
  by (simp add: sink_ok_def rb_blocking_ok_def) (simp add: new_RingBuffer_def)

end
