(* ===== verification/Exchange.thy ===== *)
theory Exchange
  imports Server_Results Event_Sender Book_Events Pipeline
begin

text \<open>
  The server program as its three threads run together (\<^verbatim>\<open>server/multi_server_kqueue.cpp\<close>): the network
  thread parses messages into one ring buffer, the engine thread takes them from it and pushes the
  book's events into another, and the sender thread delivers these. A step is one event of the network
  loop, one iteration of the engine or of the sender, or one push into a ring buffer, in any order; a
  thread that still has something to push does not begin anything else. A push may also fail although
  there is room, when the producer reads an old tail (\<open>Ring_Threads\<close>); how old it may be is not tracked.
  A pop that reads an old head finds nothing, which is no step.
\<close>

section \<open>The program\<close>

text \<open>
  \<open>x_parsed\<close> and \<open>x_raised\<close> are what the network thread and the engine thread still have to push.
  \<open>x_left\<close> is the descriptor that the last event of the network has closed, if it has closed one: until
  it is removed from the map, which is later and under the mutex, the sender still finds it there. The
  last fields are ghosts: the history of the connections, the messages the engine has processed, the
  events the sender has taken and the descriptors each of them found, the environment at the start,
  whether a push into a ring buffer has failed, and whether the sender has reported a failure.
\<close>

record 's Exchange =
  x_server :: "'s Server"
  x_left :: "int set"
  x_parsed :: "Message list"
  x_messages :: "Message RingBuffer"
  x_book :: OrderBook
  x_raised :: "Event list"
  x_events :: "Event RingBuffer"
  x_history :: history
  x_done :: "Message list"
  x_sent :: "Event list"
  x_found :: "int list list"
  x_start :: 's
  x_lost :: bool
  x_failed :: bool

definition new_Exchange :: "BufSize \<Rightarrow> Message \<Rightarrow> Event \<Rightarrow> 's \<Rightarrow> 's Exchange" where
  "new_Exchange C m ev s =
     \<lparr>x_server = new_Server s, x_left = {}, x_parsed = [], x_messages = new_RingBuffer C m, x_book = new_OrderBook,
      x_raised = [], x_events = new_RingBuffer C ev, x_history = (\<lambda>_. (0, [])), x_done = [],
      x_sent = [], x_found = [], x_start = s, x_lost = False, x_failed = False\<rparr>"

inductive exchange_step ::
  "BufSize \<Rightarrow> bool \<Rightarrow> 's system \<Rightarrow> int \<Rightarrow> 's Exchange \<Rightarrow> 's Exchange \<Rightarrow> bool"
  for C block_mode sys socket_fd
where
  network: "\<lbrakk> x_parsed x = []; serving_step sys socket_fd (x_server x) (x_history x) srv h;
     server_sink srv = server_sink (x_server x) @ ms \<rbrakk>
   \<Longrightarrow> exchange_step C block_mode sys socket_fd x
     (x\<lparr>x_server := srv, x_left := dom (fd_to_state (x_server x)) - dom (fd_to_state srv),
        x_history := h, x_parsed := ms\<rparr>)"
| push_message: "\<lbrakk> x_parsed x = m # ms; rb_push C m (x_messages x) = (ok, rb) \<rbrakk>
   \<Longrightarrow> exchange_step C block_mode sys socket_fd x
     (x\<lparr>x_parsed := ms, x_messages := rb, x_lost := x_lost x \<or> \<not> ok\<rparr>)"
| stale_message: "x_parsed x = m # ms \<Longrightarrow>
     exchange_step C block_mode sys socket_fd x (x\<lparr>x_parsed := ms, x_lost := True\<rparr>)"
| engine: "\<lbrakk> x_raised x = []; consume_messages C block_mode [True] (x_messages x) (x_book x) = Inr (rb, book);
     event_sink book = event_sink (x_book x) @ evs \<rbrakk>
   \<Longrightarrow> exchange_step C block_mode sys socket_fd x
     (x\<lparr>x_messages := rb, x_book := book, x_raised := evs,
        x_done := x_done x @ take 1 (rb_items C (x_messages x))\<rparr>)"
| push_event: "\<lbrakk> x_raised x = ev # evs; rb_push C ev (x_events x) = (ok, rb) \<rbrakk>
   \<Longrightarrow> exchange_step C block_mode sys socket_fd x
     (x\<lparr>x_raised := evs, x_events := rb, x_lost := x_lost x \<or> \<not> ok\<rparr>)"
| stale_event: "x_raised x = ev # evs \<Longrightarrow>
     exchange_step C block_mode sys socket_fd x (x\<lparr>x_raised := evs, x_lost := True\<rparr>)"
| sender: "\<lbrakk> set fds \<in> {dom (fd_to_state (x_server x)), dom (fd_to_state (x_server x)) \<union> x_left x}; distinct fds;
     run_sender C block_mode (sys_send sys) [(True, fds)] (x_events x) (env (x_server x)) = Some (oks, rb, s);
     taken = take 1 (rb_items C (x_events x)) \<rbrakk>
   \<Longrightarrow> exchange_step C block_mode sys socket_fd x
     (x\<lparr>x_server := (x_server x)\<lparr>env := s\<rparr>, x_events := rb, x_sent := x_sent x @ taken,
        x_found := x_found x @ map (\<lambda>_. fds) taken, x_failed := x_failed x \<or> False \<in> set oks\<rparr>)"

inductive exchange_reachable ::
  "BufSize \<Rightarrow> bool \<Rightarrow> 's system \<Rightarrow> int \<Rightarrow> 's Exchange \<Rightarrow> bool" for C block_mode sys socket_fd
where
  initial: "exchange_reachable C block_mode sys socket_fd (new_Exchange C m ev s)"
| stepped: "\<lbrakk> exchange_reachable C block_mode sys socket_fd x;
     exchange_step C block_mode sys socket_fd x y \<rbrakk>
   \<Longrightarrow> exchange_reachable C block_mode sys socket_fd y"

section \<open>What goes out\<close>

text \<open>
  \<open>outgoing s fd\<close> is everything that was ever sent on a descriptor; only \<open>send\<close> adds to it.
\<close>

definition quiet_law :: "'s system \<Rightarrow> ('s \<Rightarrow> int \<Rightarrow> Byte list) \<Rightarrow> bool" where
  "quiet_law sys outgoing \<longleftrightarrow>
     (\<forall>s. outgoing (snd (sys_accept sys s)) = outgoing s) \<and>
     (\<forall>s fd n. outgoing (snd (sys_recv sys s fd n)) = outgoing s) \<and>
     (\<forall>s fd. outgoing (sys_close sys s fd) = outgoing s)"

lemma handle_event_quiet:
  assumes quiet: "quiet_law sys outgoing" and ev: "handle_event sys socket_fd ident srv = Some srv'"
  shows "outgoing (env srv') = outgoing (env srv)"
proof (cases "ident = socket_fd")
  case True
  have "outgoing (snd (sys_accept sys (env srv))) = outgoing (env srv)"
    using quiet by (simp add: quiet_law_def)
  with True ev show ?thesis
    by (cases "sys_accept sys (env srv)") (auto simp: handle_event_def handle_accept_def split: if_splits)
next
  case False
  with ev obtain st where st: "fd_to_state srv ident = Some st"
    and read: "handle_readable sys ident srv = Some srv'"
    by (auto simp: handle_event_def handle_readable_def split: option.splits)
  obtain got bs s where call:
    "recv_nb_til_limit (sys_recv sys) ident (read_budget (pre_check st)) (env srv) = (got, bs, s)"
    by (metis prod_cases3)
  have "outgoing s = outgoing (env srv)"
    using recv_nb_loop_quiet[OF call[unfolded recv_nb_til_limit_def], of outgoing] quiet
    by (simp add: quiet_law_def)
  moreover have "env srv' = s \<or> env srv' = sys_close sys s ident"
    using read st call by (auto simp: handle_readable_def Let_def split: if_splits)
  ultimately show ?thesis using quiet by (auto simp: quiet_law_def)
qed

lemma serving_step_quiet:
  assumes "quiet_law sys outgoing" and "serving_step sys socket_fd srv h srv' h'"
  shows "outgoing (env srv') = outgoing (env srv)"
  using assms(2) by (cases rule: serving_step.cases) (auto intro: handle_event_quiet[OF assms(1)])

lemma seen_by_append:
  "length sched = length evs \<Longrightarrow>
   seen_by fd (sched @ sched') (evs @ evs') = seen_by fd sched evs @ seen_by fd sched' evs'"
  by (induction sched evs rule: list_induct2) simp_all

text \<open>What a server has sent on every descriptor, when no send has failed.\<close>

definition delivered :: "('s \<Rightarrow> int \<Rightarrow> Byte list) \<Rightarrow> 's Exchange \<Rightarrow> bool" where
  "delivered outgoing x \<longleftrightarrow> length (x_found x) = length (x_sent x) \<and>
     (\<not> x_failed x \<longrightarrow> (\<forall>fd. outgoing (env (x_server x)) fd = outgoing (x_start x) fd @
        concat (map serialise_event (seen_by fd (x_found x) (x_sent x)))))"

lemma delivered_sender:
  assumes law: "send_law (sys_send sys) outgoing" and sink: "sink_ok C block_mode (x_events x)"
    and "distinct fds"
    and run: "run_sender C block_mode (sys_send sys) [(True, fds)] (x_events x) (env (x_server x)) = Some (oks, rb, s)"
    and del: "delivered outgoing x" and taken: "taken = take 1 (rb_items C (x_events x))"
  shows "delivered outgoing (x\<lparr>x_server := (x_server x)\<lparr>env := s\<rparr>, x_events := rb,
    x_sent := x_sent x @ taken, x_found := x_found x @ map (\<lambda>_. fds) taken,
    x_failed := x_failed x \<or> False \<in> set oks\<rparr>)"
proof -
  have "seen_by fd [fds] (rb_items C (x_events x)) = seen_by fd (map (\<lambda>_. fds) taken) taken" for fd
    by (cases "rb_items C (x_events x)") (simp_all add: taken)
  moreover have "\<forall>ok \<in> set oks. ok" if "False \<notin> set oks" using that by (metis (full_types))
  ultimately have "outgoing s fd = outgoing (env (x_server x)) fd @
      concat (map serialise_event (seen_by fd (map (\<lambda>_. fds) taken) taken))" if "False \<notin> set oks" for fd
    using run_sender_spec[OF law sink, of "[(True, fds)]" "env (x_server x)"] \<open>distinct fds\<close> run that by auto
  with del show ?thesis by (simp add: delivered_def seen_by_append)
qed

section \<open>The invariant\<close>

definition exchange_inv :: "BufSize \<Rightarrow> bool \<Rightarrow> 's Exchange \<Rightarrow> bool" where
  "exchange_inv C block_mode x \<longleftrightarrow>
     serving_inv (x_server x) (x_history x) \<and>
     sink_ok C block_mode (x_messages x) \<and> sink_ok C block_mode (x_events x) \<and>
     process_all (x_done x) new_OrderBook = Inr (x_book x) \<and>
     flows (x_lost x) (x_done x) (rb_items C (x_messages x)) (x_parsed x) (server_sink (x_server x)) \<and>
     flows (x_lost x) (x_sent x) (rb_items C (x_events x)) (x_raised x) (event_sink (x_book x))"

lemma new_Exchange_inv:
  assumes "cap_ok C" shows "exchange_inv C block_mode (new_Exchange C m ev s)"
  using new_RingBuffer_ok(2)[OF assms, of m] new_RingBuffer_ok(2)[OF assms, of ev] new_Server_inv[of s]
    new_sink_ok[OF assms, of block_mode m] new_sink_ok[OF assms, of block_mode ev]
  by (simp add: exchange_inv_def new_Exchange_def new_Server_def new_OrderBook_def)

lemma exchange_step_inv:
  assumes recv: "recv_law (sys_recv sys) incoming" and send: "send_law (sys_send sys) outgoing"
    and inv: "exchange_inv C block_mode x" and step: "exchange_step C block_mode sys socket_fd x y"
  shows "exchange_inv C block_mode y"
  using step
proof (cases rule: exchange_step.cases)
  case (network srv h ms)
  have "serving_inv (x_server x) (x_history x)" using inv by (simp add: exchange_inv_def)
  from serving_step_inv[OF recv this network(3)]
    flows_produce[of "x_lost x" "x_done x" "rb_items C (x_messages x)" "server_sink (x_server x)" ms] inv network
  show ?thesis by (simp add: exchange_inv_def)
next
  case (push_message m ms ok rb)
  with inv flows_push[of C block_mode "x_messages x" m ok rb "x_lost x" "x_done x" ms]
  show ?thesis by (auto simp: exchange_inv_def intro: flows_weaken)
next
  case (stale_message m ms)
  with inv flows_dropped[of "x_lost x" "x_done x" "rb_items C (x_messages x)" m ms]
  show ?thesis by (auto simp: exchange_inv_def intro: flows_weaken)
next
  case (stale_event ev evs)
  with inv flows_dropped[of "x_lost x" "x_sent x" "rb_items C (x_events x)" ev evs]
  show ?thesis by (auto simp: exchange_inv_def intro: flows_weaken)
next
  case (engine rb book evs)
  have ok: "sink_ok C block_mode (x_messages x)" using inv by (simp add: exchange_inv_def)
  note spec = consume_messages_spec[OF ok, of "[True]" "x_book x"]
  have proc: "process_all (take 1 (rb_items C (x_messages x))) (x_book x) = Inr book"
    and rb: "sink_ok C block_mode rb" "rb_items C rb = drop 1 (rb_items C (x_messages x))"
    using spec engine(3) by (auto split: sum.splits)
  have "process_all (x_done x @ take 1 (rb_items C (x_messages x))) new_OrderBook = Inr book"
    using inv proc by (simp add: exchange_inv_def process_all_append)
  with inv rb engine show ?thesis
    using flows_pop[of "x_lost x" "x_done x" "rb_items C (x_messages x)" "x_parsed x" _ 1]
      flows_produce[of "x_lost x" "x_sent x" "rb_items C (x_events x)" "event_sink (x_book x)" evs]
    by (simp add: exchange_inv_def)
next
  case (push_event ev evs ok rb)
  with inv flows_push[of C block_mode "x_events x" ev ok rb "x_lost x" "x_sent x" evs]
  show ?thesis by (auto simp: exchange_inv_def intro: flows_weaken)
next
  case (sender fds oks rb s taken)
  have ok: "sink_ok C block_mode (x_events x)" using inv by (simp add: exchange_inv_def)
  have "sink_ok C block_mode rb" "rb_items C rb = drop 1 (rb_items C (x_events x))"
    using run_sender_spec[OF send ok, of "[(True, fds)]" "env (x_server x)"] sender(3,4) by auto
  with inv sender(5) show ?thesis
    using flows_pop[of "x_lost x" "x_sent x" "rb_items C (x_events x)" "x_raised x" _ 1]
    by (simp add: exchange_inv_def sender(1) serving_inv_def)
qed

text \<open>
  The premises of the steps that name what is to be pushed always hold: the server (\<open>serving_step_sink\<close>)
  and the book only append to their sinks.
\<close>

lemma engine_appends:
  assumes "sink_ok C block_mode rb" and "consume_messages C block_mode [True] rb book = Inr (rb', book')"
  shows "\<exists>evs. event_sink book' = event_sink book @ evs"
proof -
  have "process_all (take 1 (rb_items C rb)) book = Inr book'"
    using consume_messages_spec[OF assms(1), of "[True]" book] assms(2) by (auto split: sum.splits)
  then have "appends book book'"
    using process_appends by (cases "rb_items C rb") (auto simp: rbind_eq_Inr_iff)
  then show ?thesis by (auto simp: appends_def prefix_def)
qed

lemma exchange_invariant:
  assumes "cap_ok C" "recv_law (sys_recv sys) incoming" "send_law (sys_send sys) outgoing"
    and "exchange_reachable C block_mode sys socket_fd x"
  shows "exchange_inv C block_mode x"
  using assms(4)
proof (induction rule: exchange_reachable.induct)
  case (initial m ev s)
  show ?case by (rule new_Exchange_inv[OF assms(1)])
next
  case (stepped x y)
  show ?case by (rule exchange_step_inv[OF assms(2,3) stepped.IH stepped.hyps(2)])
qed

lemma exchange_delivered:
  assumes "cap_ok C" "recv_law (sys_recv sys) incoming" and send: "send_law (sys_send sys) outgoing"
    and quiet: "quiet_law sys outgoing" and "exchange_reachable C block_mode sys socket_fd x"
  shows "delivered outgoing x"
  using assms(5)
proof (induction rule: exchange_reachable.induct)
  case (initial m ev s)
  show ?case by (simp add: delivered_def new_Exchange_def new_Server_def)
next
  case (stepped x y)
  have sink: "sink_ok C block_mode (x_events x)"
    using exchange_invariant[OF assms(1-3) stepped.hyps(1)] by (simp add: exchange_inv_def)
  show ?case using stepped.hyps(2)
  proof (cases rule: exchange_step.cases)
    case (network srv h ms)
    with stepped.IH serving_step_quiet[OF quiet network(3)] show ?thesis by (simp add: delivered_def)
  next
    case (sender fds oks rb s taken)
    show ?thesis unfolding sender(1) by (rule delivered_sender[OF send sink sender(3,4) stepped.IH sender(5)])
  qed (use stepped.IH in \<open>simp_all add: delivered_def\<close>)
qed

section \<open>What fits the wire\<close>

text \<open>
  The numbers of every parsed message fit 64 bits, whatever the bytes were, so every event of the book
  can be serialised and read back.
\<close>

lemma serving_step_fits:
  assumes "recv_law (sys_recv sys) incoming" and inv: "serving_inv srv h"
    and step: "serving_step sys socket_fd srv h srv' h'"
    and fits: "\<forall>m \<in> set (server_sink srv). numbers_fit m"
  shows "\<forall>m \<in> set (server_sink srv'). numbers_fit m"
  using step
proof (cases rule: serving_step.cases)
  case (accepted fd)
  with fits show ?thesis
    by (auto simp: handle_event_def handle_accept_def split: prod.splits if_splits)
next
  case (readable fd st got bs s)
  obtain srv1 where srv1: "handle_readable sys fd srv = Some srv1"
    "if got = -1 \<or> got = -2 then dropped_event fd srv srv1 \<and> env srv1 = sys_close sys s fd
     else got = int (length bs) \<and> env srv1 = s \<and> (\<exists>ms. parsed_event fd bs ms srv srv1)"
    using handle_readable_spec[OF serving_inv_clients[OF inv] assms(1) readable(3,4)] .
  have "srv' = srv1" using readable(1,2) srv1(1) by (simp add: handle_event_def)
  with srv1(2) have "server_sink srv' = server_sink srv \<or>
      (\<exists>ms bs r. consumes ms bs r \<and> server_sink srv' = server_sink srv @ stamp_all fd (server_seq srv) ms)"
    by (auto simp: dropped_event_def parsed_event_def split: if_splits)
  with fits consumes_fits stamp_all_fits show ?thesis by fastforce
qed

lemma exchange_fits:
  assumes "cap_ok C" and recv: "recv_law (sys_recv sys) incoming" and "send_law (sys_send sys) outgoing"
    and "exchange_reachable C block_mode sys socket_fd x"
  shows "\<forall>m \<in> set (server_sink (x_server x)). numbers_fit m"
  using assms(4)
proof (induction rule: exchange_reachable.induct)
  case (initial m ev s)
  show ?case by (simp add: new_Exchange_def new_Server_def)
next
  case (stepped x y)
  have inv: "serving_inv (x_server x) (x_history x)"
    using exchange_invariant[OF assms(1-3) stepped.hyps(1)] by (simp add: exchange_inv_def)
  show ?case using stepped.hyps(2)
  proof (cases rule: exchange_step.cases)
    case (network srv h ms)
    with serving_step_fits[OF recv inv network(3) stepped.IH] show ?thesis by simp
  qed (use stepped.IH in simp_all)
qed

lemma exchange_messages:
  assumes "cap_ok C" and "recv_law (sys_recv sys) incoming" and "send_law (sys_send sys) outgoing"
    and "exchange_reachable C block_mode sys socket_fd x"
  shows "process_all (x_done x) new_OrderBook = Inr (x_book x)"
    and "\<forall>m \<in> set (x_done x @ rb_items C (x_messages x)). numbers_fit m"
proof -
  have inv: "exchange_inv C block_mode x" by (rule exchange_invariant[OF assms])
  then show "process_all (x_done x) new_OrderBook = Inr (x_book x)" by (simp add: exchange_inv_def)
  have "subseq (x_done x @ rb_items C (x_messages x) @ x_parsed x) (server_sink (x_server x))"
    using inv by (simp add: exchange_inv_def flows_def)
  then have "set (x_done x @ rb_items C (x_messages x)) \<subseteq> set (server_sink (x_server x))"
    by (auto dest: list_emb_set)
  with exchange_fits[OF assms] show "\<forall>m \<in> set (x_done x @ rb_items C (x_messages x)). numbers_fit m"
    by blast
qed

lemma exchange_events_fit:
  assumes "cap_ok C" and "recv_law (sys_recv sys) incoming" and "send_law (sys_send sys) outgoing"
    and "exchange_reachable C block_mode sys socket_fd x"
  shows "\<forall>ev \<in> set (event_sink (x_book x)). event_wire_ok ev"
proof -
  have "\<forall>m \<in> set (x_done x). numbers_fit m" using exchange_messages(2)[OF assms(1-4)] by simp
  with exchange_messages(1)[OF assms(1-4)] have "book_range (x_book x)" by (auto dest: process_all_range)
  then show ?thesis by (simp add: book_range_def events_range_def)
qed

text \<open>Whatever bytes the clients send, the book is a reachable one: the engine fails on every other message.\<close>

lemma exchange_book_reachable:
  assumes "cap_ok C" and "recv_law (sys_recv sys) incoming" and "send_law (sys_send sys) outgoing"
    and "exchange_reachable C block_mode sys socket_fd x" and "length (x_done x) < 2 ^ 64 - 2"
  shows "reachable (x_done x) (x_book x)"
    and "m \<in> set (rb_items C (x_messages x)) \<Longrightarrow> quantity_in_type m" and "id_room (x_book x)"
proof -
  have fits: "\<forall>m \<in> set (x_done x @ rb_items C (x_messages x)). quantity_in_type m"
    using exchange_messages(2)[OF assms(1-4)] numbers_fit_quantity by blast
  then show "m \<in> set (rb_items C (x_messages x)) \<Longrightarrow> quantity_in_type m" by simp
  have run: "reachable (x_done x) (x_book x) \<and> unat (next_order_id (x_book x)) \<le> length (x_done x) + 1"
    by (rule process_all_reachable[OF exchange_messages(1)[OF assms(1-4)]]) (use fits assms(5) in simp_all)
  then show "reachable (x_done x) (x_book x)" by blast
  show "id_room (x_book x)" by (rule id_roomI) (use run assms(5) in linarith)
qed

section \<open>The orders of one client\<close>

text \<open>The messages of a list that a descriptor sent, as the wire carried them.\<close>

definition of_connection :: "int \<Rightarrow> Message list \<Rightarrow> Message list" where
  "of_connection fd ms = map unstamped (filter (\<lambda>m. message_connection m = fd) ms)"

lemma of_connection_append [simp]: "of_connection fd (ms @ ms') = of_connection fd ms @ of_connection fd ms'"
  by (simp add: of_connection_def)

lemma of_connection_subseq: "subseq ms ms' \<Longrightarrow> subseq (of_connection fd ms) (of_connection fd ms')"
  by (simp add: of_connection_def subseq_filter subseq_map)

lemma of_connection_since: "map unstamped (pushed_by fd mark ms) = of_connection fd (drop mark ms)"
  by (simp add: of_connection_def pushed_by_def)

lemma order_stream_Nil: "order_stream ms = [] \<longleftrightarrow> ms = []"
proof -
  have "serialise_order m \<noteq> []" for m
    by (simp add: serialise_put put_msg_def) (simp add: wire_defs encode_field_def numeral_2_eq_2)
  then show ?thesis by (cases ms) (simp_all add: order_stream_def)
qed

text \<open>
  Where they are: the bytes received are those of the first \<open>k\<close> orders and what waits in the buffer of the
  connection, and these orders are processed, queued or about to be pushed, unless a push has failed.
\<close>

lemma orders_on_the_way:
  assumes inv: "exchange_inv C block_mode x" and st: "fd_to_state (x_server x) fd = Some st"
    and sent: "snd (x_history x fd) @ rest = order_stream ms" and ok: "\<forall>m \<in> set ms. order_wire_ok m"
    and way: "way = x_done x @ rb_items C (x_messages x) @ x_parsed x"
  obtains k where "k \<le> length ms" and "snd (x_history x fd) = order_stream (take k ms) @ pending_bytes st"
    and "subseq (of_connection fd way)
      (of_connection fd (take (fst (x_history x fd)) (server_sink (x_server x))) @ map unstamped (take k ms))"
    and "\<not> x_lost x \<Longrightarrow> of_connection fd (drop (fst (x_history x fd)) way) = map unstamped (take k ms)"
    and "rest = [] \<Longrightarrow> pending_bytes st = [] \<Longrightarrow> k = length ms"
proof -
  let ?mark = "fst (x_history x fd)" and ?sink = "server_sink (x_server x)"
  have flow: "subseq way ?sink" "\<not> x_lost x \<Longrightarrow> way = ?sink"
    using inv by (simp_all add: exchange_inv_def flows_def way)
  have "tracks ?sink (x_history x fd) fd st"
    using inv st by (simp add: exchange_inv_def serving_inv_def)
  from tracks_orders[OF this sent ok] obtain k where k: "k \<le> length ms"
    "of_connection fd (drop ?mark ?sink) = map unstamped (take k ms)"
    "snd (x_history x fd) = order_stream (take k ms) @ pending_bytes st"
    unfolding of_connection_since by blast
  have "of_connection fd ?sink = of_connection fd (take ?mark ?sink) @ map unstamped (take k ms)"
    unfolding k(2)[symmetric] of_connection_append[symmetric] by simp
  with of_connection_subseq[OF flow(1), of fd]
  have "subseq (of_connection fd way) (of_connection fd (take ?mark ?sink) @ map unstamped (take k ms))" by simp
  moreover have "k = length ms" if "rest = []" "pending_bytes st = []"
  proof -
    have "order_stream (drop k ms) = []" using that k(3) sent order_stream_split[of ms k] by simp
    with k(1) show ?thesis by (simp add: order_stream_Nil)
  qed
  ultimately show thesis using that[OF k(1,3)] k(2) flow(2) by simp
qed

end
