(* ===== verification/Event_Parser.thy ===== *)
theory Event_Parser
  imports Event_Sender
begin

text \<open>
  The client's receiving thread (\<^verbatim>\<open>networking/event_parser.cpp\<close>): a blocking loop that reads a header,
  then the payload its type has, and pushes the event. An unknown type is reported, and its payload is
  left in the stream.
\<close>

section \<open>The loop\<close>

definition recv_payload :: "'s recv \<Rightarrow> MsgType \<Rightarrow> int \<Rightarrow> 's \<Rightarrow> Event option \<times> 's" where
  "recv_payload recv t fd s =
     (case recv_all recv fd (wire_size (wire_of_event t)) s of
        (got, bs, s') \<Rightarrow> (if got \<le> 0 then None else Some (deserialise_event t bs), s'))"

text \<open>How an iteration ends: with \<open>break\<close> on an error, with \<open>running = false\<close>, or in the next one.\<close>

datatype parse_result = Recv_failed | Closed | Parsed "Event option"

definition parse_event :: "'s recv \<Rightarrow> int \<Rightarrow> 's \<Rightarrow> parse_result \<times> 's" where
  "parse_event recv fd s =
     (case recv_all recv fd (wire_size MsgHeader) s of
        (got, bs, s') \<Rightarrow>
          if got = -1 then (Recv_failed, s')
          else if got = 0 then (Closed, s')
          else case MsgType_of (unpack MsgHeader bs ! 0) of
              None \<Rightarrow> (Parsed None, s')
            | Some t \<Rightarrow> (case recv_payload recv t fd s' of (ev, s'') \<Rightarrow> (Parsed ev, s'')))"

text \<open>
  At most \<open>n\<close> iterations; the results are \<open>running\<close>, the events pushed to the sink, the environment.
\<close>

fun run_parser :: "nat \<Rightarrow> 's recv \<Rightarrow> int \<Rightarrow> bool \<Rightarrow> 's \<Rightarrow> bool \<times> Event list \<times> 's" where
  "run_parser 0 recv fd running s = (running, [], s)"
| "run_parser (Suc n) recv fd running s =
     (if \<not> running then (running, [], s)
      else case parse_event recv fd s of
          (Recv_failed, s') \<Rightarrow> (running, [], s')
        | (Closed, s') \<Rightarrow> (False, [], s')
        | (Parsed e, s') \<Rightarrow>
            (case run_parser n recv fd running s' of
               (running', evs, s'') \<Rightarrow>
                 (running', (case e of None \<Rightarrow> evs | Some ev \<Rightarrow> ev # evs), s'')))"

section \<open>Receiving everything that is sent\<close>

lemma recv_all_loop_blocks:
  assumes blocks: "recv_blocks recv incoming" and "length buf \<le> len"
    and "len - length buf \<le> length (incoming s fd)"
  shows "\<exists>s'. recv_all_loop recv fd len buf s =
      (int len, buf @ take (len - length buf) (incoming s fd), s') \<and>
    incoming s' fd = drop (len - length buf) (incoming s fd)"
  using assms(2,3)
proof (induction "len - length buf" arbitrary: buf s rule: less_induct)
  case less
  show ?case
  proof (cases "length buf < len")
    case False
    with less.prems show ?thesis by (subst recv_all_loop.simps) simp
  next
    case True
    obtain r s1 where call: "recv s fd (len - length buf) = (r, s1)" by fastforce
    have law: "recv_law recv incoming" using blocks by (simp add: recv_blocks_def)
    have "case recv s fd (len - length buf) of
        (Received bs, _) \<Rightarrow> bs = [] \<longleftrightarrow> incoming s fd = [] | _ \<Rightarrow> False"
      using blocks True by (simp add: recv_blocks_def)
    with call less.prems True obtain bs where r: "r = Received bs" "bs \<noteq> []"
      by (cases r) auto
    have bs: "length bs \<le> len - length buf" "incoming s fd = bs @ incoming s1 fd"
      using recv_law_cases[OF law call] r(1) by simp_all
    have "0 < length bs" using r(2) by simp
    then have smaller: "len - length (buf @ bs) < len - length buf" "length (buf @ bs) \<le> len"
      "len - length (buf @ bs) \<le> length (incoming s1 fd)"
      using bs less.prems True by (simp_all del: length_greater_0_conv)
    from less.hyps[OF this] obtain s' where s':
      "recv_all_loop recv fd len (buf @ bs) s1 =
         (int len, (buf @ bs) @ take (len - length (buf @ bs)) (incoming s1 fd), s')"
      "incoming s' fd = drop (len - length (buf @ bs)) (incoming s1 fd)"
      by blast
    have "recv_all_loop recv fd len buf s = recv_all_loop recv fd len (buf @ bs) s1"
      using True call r by (subst recv_all_loop.simps) simp
    with s' bs show ?thesis by simp
  qed
qed

lemma recv_all_blocks:
  assumes "recv_blocks recv incoming" and "len \<le> length (incoming s fd)"
  obtains s' where "recv_all recv fd len s = (int len, take len (incoming s fd), s')"
    and "incoming s' fd = drop len (incoming s fd)"
  using recv_all_loop_blocks[OF assms(1), of "[]" len s fd] assms(2) by (auto simp: recv_all_def)

lemma recv_all_closed:
  assumes "recv_blocks recv incoming" and "incoming s fd = []" and "0 < len"
  obtains s' where "recv_all recv fd len s = (0, [], s')"
proof -
  have "case recv s fd len of
      (Received bs, _) \<Rightarrow> bs = [] \<longleftrightarrow> incoming s fd = [] | _ \<Rightarrow> False"
    using assms(1,3) by (simp add: recv_blocks_def)
  then obtain s' where "recv s fd len = (Received [], s')"
    using assms(2) by (cases "recv s fd len") (auto split: recv_result.splits)
  then have "recv_all recv fd len s = (0, [], s')"
    using assms(3) by (simp add: recv_all_def recv_all_loop.simps)
  then show thesis by (rule that)
qed

text \<open>One iteration is one step of the reference decoder.\<close>

lemma parse_event_decodes:
  assumes blocks: "recv_blocks recv incoming" and dec: "decode_event (incoming s fd) = Some (ev, rest)"
  shows "\<exists>s'. parse_event recv fd s = (Parsed (Some ev), s') \<and> incoming s' fd = rest"
proof -
  obtain t where t: "3 \<le> length (incoming s fd)" "MsgType_of (unpack MsgHeader (incoming s fd) ! 0) = Some t"
    and pay: "wire_size (wire_of_event t) \<le> length (drop 3 (incoming s fd))"
    "ev = deserialise_event t (take (wire_size (wire_of_event t)) (drop 3 (incoming s fd)))"
    "rest = drop (wire_size (wire_of_event t)) (drop 3 (incoming s fd))"
    using dec by (auto simp: decode_event_def Let_def split: if_splits option.splits)
  obtain s1 where s1: "recv_all recv fd 3 s = (3, take 3 (incoming s fd), s1)"
    "incoming s1 fd = drop 3 (incoming s fd)"
    using recv_all_blocks[OF blocks t(1)] by auto
  have pay1: "wire_size (wire_of_event t) \<le> length (incoming s1 fd)" using pay(1) s1(2) by simp
  obtain s2 where s2: "recv_all recv fd (wire_size (wire_of_event t)) s1 =
      (int (wire_size (wire_of_event t)), take (wire_size (wire_of_event t)) (incoming s1 fd), s2)"
    "incoming s2 fd = drop (wire_size (wire_of_event t)) (incoming s1 fd)"
    using recv_all_blocks[OF blocks pay1] by blast
  have "0 < wire_size (wire_of_event t)" by (cases t) (simp_all add: wire_defs wire_size_def)
  with s1 s2 t pay show ?thesis by (simp add: parse_event_def recv_payload_def unpack_header_take)
qed

text \<open>The loop delivers a stream of events and stops at its end.\<close>

lemma run_parser_events:
  assumes blocks: "recv_blocks recv incoming"
  shows "\<lbrakk> incoming s fd = concat (map serialise_event evs); \<forall>ev \<in> set evs. event_wire_ok ev;
      length evs < n \<rbrakk> \<Longrightarrow>
    \<exists>s'. run_parser n recv fd True s = (False, map received evs, s')"
proof (induction evs arbitrary: n s)
  case Nil
  obtain m where n: "n = Suc m" using Nil.prems(3) by (cases n) auto
  obtain s' where "recv_all recv fd 3 s = (0, [], s')"
    using recv_all_closed[OF blocks, of s fd 3] Nil.prems(1) by auto
  then show ?case by (simp add: n parse_event_def)
next
  case (Cons ev evs)
  obtain m where n: "n = Suc m" "length evs < m" using Cons.prems(3) by (cases n) auto
  have "decode_event (incoming s fd) = Some (received ev, concat (map serialise_event evs))"
    using Cons.prems(1,2) decode_event_serialise[of ev "concat (map serialise_event evs)"] by simp
  from parse_event_decodes[OF blocks this] obtain s1 where s1:
    "parse_event recv fd s = (Parsed (Some (received ev)), s1)"
    "incoming s1 fd = concat (map serialise_event evs)"
    by blast
  with Cons.IH[OF s1(2) _ n(2)] Cons.prems(2) show ?case by (auto simp: n(1))
qed

end
