(* ===== verification/Delivery_Properties.thy ===== *)
theory Delivery_Properties
  imports Event_Parser Demo_Net
begin

text \<open>
  The properties of the consumers of the sinks: the engine thread, the event sender and, at the other
  end of the connection, the client's receiving thread.
\<close>

section \<open>Concrete sinks for the witnesses\<close>

definition demo_events :: "Event list" where
  "demo_events = [Routed 5 (OrderCanceled 7), Public (BookUpdate Buy 10 0), Routed 6 (OrderFilled 1 2)]"

definition demo_event_sink :: "Event RingBuffer" where
  "demo_event_sink = fold (\<lambda>ev sink. snd (rb_push 8 ev sink)) demo_events
     (new_RingBuffer 8 (Routed 0 (OrderCanceled 0)))"

lemma demo_event_sink_push_all:
  "demo_event_sink = ring.push_all 8 demo_events (new_RingBuffer 8 (Routed 0 (OrderCanceled 0)))"
  by (simp add: demo_event_sink_def ring.push_all_def)

lemma cap_8: "cap_ok 8"
  by (simp add: cap_ok_def)

lemma demo_event_sink_ok: "sink_ok 8 False demo_event_sink" "rb_items 8 demo_event_sink = demo_events"
proof -
  note new = new_RingBuffer_ok[OF cap_8, of "Routed 0 (OrderCanceled 0)"]
  show "sink_ok 8 False demo_event_sink"
    using ring.push_all_inv[OF new(1), of demo_events] by (simp add: demo_event_sink_push_all sink_ok_def)
  show "rb_items 8 demo_event_sink = demo_events"
    using ring.push_all_fits[OF new(1), of demo_events] new(2)
    by (simp add: demo_event_sink_push_all demo_events_def)
qed

text \<open>The client reads the bytes it is sent as a blocking stream.\<close>

definition stream_recv :: "(Byte list) recv" where
  "stream_recv s fd n = (Received (take n s), drop n s)"

lemma stream_recv_blocks: "recv_blocks stream_recv (\<lambda>s fd. s)"
  by (simp add: recv_blocks_def recv_law_def stream_recv_def)

definition demo_bytes :: "Byte list" where
  "demo_bytes = serialise_event (Routed 5 (OrderCanceled 7)) @ serialise_event (Public (BookUpdate Buy 10 0))"

lemma demo_sender_code:
  "case run_sender 8 False (sys_send net_system) [(True, [5, 6]), (True, [6, 5]), (True, [5])] demo_event_sink demo_net of
     None \<Rightarrow> False
   | Some (oks, sink', s') \<Rightarrow> oks = [True, True, True] \<and> net_out s' 5 = demo_bytes"
  by code_simp

lemma demo_sender_run:
  "\<exists>sink' s'. run_sender 8 False (sys_send net_system) [(True, [5, 6]), (True, [6, 5]), (True, [5])] demo_event_sink demo_net =
     Some ([True, True, True], sink', s') \<and> net_out s' 5 = demo_bytes"
  using demo_sender_code by (auto split: option.splits prod.splits simp del: run_sender.simps)

section \<open>The engine\<close>

text \<open>The engine thread does to the book exactly what the queued messages do one after the other:
  in as many iterations as it is given it takes that many messages in order, leaves the rest, idles
  when there are none, and stops at the first exception, in both wait modes. Once \<open>running\<close> is false
  it returns when it has taken them all.\<close>

theorem engine_processes_queue:
  assumes "sink_ok C block_mode sink"
  shows "case process_all (take (length flags) (rb_items C sink)) book of
      Inl e \<Rightarrow> consume_messages C block_mode flags sink book = Inl e
    | Inr book' \<Rightarrow> \<exists>sink'. consume_messages C block_mode flags sink book = Inr (sink', book') \<and>
        sink_ok C block_mode sink' \<and> rb_items C sink' = drop (length flags) (rb_items C sink) \<and>
        loop_test False sink' = (length flags < length (rb_items C sink))"
  using consume_messages_spec[OF assms, of flags book] by (auto simp: loop_test_iff split: sum.splits)

definition demo_message_sink :: "Message RingBuffer" where
  "demo_message_sink = ring.push_all 8 [demo_cancel] (new_RingBuffer 8 demo_cancel)"

theorem engine_processes_queue_witness:
  "\<exists>sink' book'. consume_messages 8 False [True, False, False] demo_message_sink new_OrderBook = Inr (sink', book') \<and>
     event_sink book' = [Routed (-1) (CancelRejected 7 InvalidOrderId)] \<and> rb_items 8 sink' = []"
proof -
  note new = new_RingBuffer_ok[OF cap_8, of demo_cancel]
  have ok: "sink_ok 8 False demo_message_sink" "rb_items 8 demo_message_sink = [demo_cancel]"
    using ring.push_all_inv[OF new(1), of "[demo_cancel]"] ring.push_all_fits[OF new(1), of "[demo_cancel]"] new(2)
    by (simp_all add: demo_message_sink_def sink_ok_def)
  have "process_all [demo_cancel] new_OrderBook =
      Inr (new_OrderBook\<lparr>event_sink := [Routed (-1) (CancelRejected 7 InvalidOrderId)]\<rparr>)"
    by code_simp
  with engine_processes_queue[OF ok(1), of "[True, False, False]" new_OrderBook] ok(2) show ?thesis
    by (auto simp del: consume_messages.simps)
qed

section \<open>The sender\<close>

text \<open>C35: One event is always dealt with, and reaches those it is for: a private event only the
  connection it is routed to, a public one every connected client. A connection it is not for is sent
  nothing; one it is for is sent its whole frame, or, only when the sender reports a failure, a
  beginning of it.\<close>

theorem event_delivery:
  assumes "send_law send outgoing" and "distinct fds"
  shows "\<exists>ok s'. send_event send fds ev s = Some (ok, s') \<and>
    (\<forall>fd. if visible fd fds ev
      then \<exists>n. outgoing s' fd = outgoing s fd @ take n (serialise_event ev) \<and>
             (ok \<longrightarrow> outgoing s' fd = outgoing s fd @ serialise_event ev)
      else outgoing s' fd = outgoing s fd)"
proof -
  obtain ok s' where *: "send_event send fds ev s = Some (ok, s')"
    "\<And>fd. appended (if visible fd fds ev then serialise_event ev else []) ok (outgoing s fd) (outgoing s' fd)"
    using send_event_spec[OF assms, of ev s] by blast
  have "if visible fd fds ev
      then \<exists>n. outgoing s' fd = outgoing s fd @ take n (serialise_event ev) \<and>
             (ok \<longrightarrow> outgoing s' fd = outgoing s fd @ serialise_event ev)
      else outgoing s' fd = outgoing s fd" for fd
    using *(2)[of fd] by (auto simp: appended_def split: if_splits)
  with *(1) show ?thesis by blast
qed

theorem event_delivery_witness:
  "\<exists>ok s'. send_event (sys_send net_system) [5, 6] (Routed 5 (OrderCanceled 7)) demo_net = Some (ok, s') \<and>
     net_out s' 6 = net_out demo_net 6 \<and>
     (ok \<longrightarrow> net_out s' 5 = net_out demo_net 5 @ serialise_private (OrderCanceled 7))"
proof -
  have "distinct [5, 6 :: int]" by simp
  from event_delivery[OF net_send_law this, of "Routed 5 (OrderCanceled 7)" demo_net]
  obtain ok s' where *: "send_event (sys_send net_system) [5, 6] (Routed 5 (OrderCanceled 7)) demo_net = Some (ok, s')"
    "\<And>fd. if visible fd [5, 6] (Routed 5 (OrderCanceled 7))
      then \<exists>n. net_out s' fd = net_out demo_net fd @ take n (serialise_event (Routed 5 (OrderCanceled 7))) \<and>
             (ok \<longrightarrow> net_out s' fd = net_out demo_net fd @ serialise_event (Routed 5 (OrderCanceled 7)))
      else net_out s' fd = net_out demo_net fd"
    by blast
  then show ?thesis using *(2)[of 5] *(2)[of 6]
    by (simp add: visible_def del: serialise_private.simps send_event.simps)
qed

text \<open>The events of the book arrive: when the sender reports no failure, what the client's
  receiving thread pushes, reading the connection to its end, is exactly the events that were for this
  connection in the order the book pushed them: its own private events, with the routing removed, and
  the public events sent while it was connected.\<close>

theorem events_reach_client:
  assumes "send_law send outgoing" and "sink_ok C block_mode sink" and "\<forall>fds \<in> set (map snd sched). distinct fds"
    and "run_sender C block_mode send sched sink s = Some (oks, sink', s')" and "\<forall>ok \<in> set oks. ok"
    and "\<forall>ev \<in> set (seen_by fd (map snd sched) (rb_items C sink)). event_wire_ok ev"
    and "recv_blocks recv incoming" and "outgoing s' fd = outgoing s fd @ incoming c cfd"
    and "length (seen_by fd (map snd sched) (rb_items C sink)) < n"
  shows "\<exists>c'. run_parser n recv cfd True c =
    (False, map received (seen_by fd (map snd sched) (rb_items C sink)), c')"
proof -
  have "outgoing s' fd = outgoing s fd @ concat (map serialise_event (seen_by fd (map snd sched) (rb_items C sink)))"
    using run_sender_spec[OF assms(1-3), of s] assms(4,5) by auto
  then have "incoming c cfd = concat (map serialise_event (seen_by fd (map snd sched) (rb_items C sink)))"
    using assms(8) by simp
  from run_parser_events[OF assms(7) this assms(6,9)] show ?thesis .
qed

theorem events_reach_client_witness:
  "\<exists>c'. run_parser 3 stream_recv 0 True demo_bytes =
     (False, [Routed (-1) (OrderCanceled 7), Public (BookUpdate Buy 10 0)], c')"
proof -
  let ?sched = "[(True, [5, 6]), (True, [6, 5]), (True, [5])] :: (bool \<times> int list) list"
  obtain sink' s' where run: "run_sender 8 False (sys_send net_system) ?sched demo_event_sink demo_net =
      Some ([True, True, True], sink', s')" "net_out s' 5 = demo_bytes"
    using demo_sender_run by blast
  have seen: "seen_by 5 (map snd ?sched) (rb_items 8 demo_event_sink) =
      [Routed 5 (OrderCanceled 7), Public (BookUpdate Buy 10 0)]"
    by (simp add: demo_event_sink_ok(2) demo_events_def visible_def)
  have wire: "\<forall>ev \<in> set [Routed 5 (OrderCanceled 7), Public (BookUpdate Buy 10 0)]. event_wire_ok ev"
    by (simp add: Side_valid_def in_i64_def i64_min_def i64_max_def)
  have sent: "net_out s' 5 = net_out demo_net 5 @ demo_bytes" using run(2) by (simp add: demo_net_def)
  have "\<forall>fds \<in> set (map snd ?sched). distinct fds" "\<forall>ok \<in> set [True, True, True]. ok" by simp_all
  from events_reach_client[OF net_send_law demo_event_sink_ok(1) this(1) run(1) this(2) _ stream_recv_blocks sent,
      of 3, unfolded seen, OF wire] show ?thesis by simp
qed

text \<open>A run of the sender always ends: with one iteration per element of the schedule it handles as
  many events as there are, in order, and keeps the rest, whatever the connections do; once \<open>running\<close>
  is false it returns when it has handled them all.\<close>

theorem sender_drains:
  assumes "send_law send outgoing" and "sink_ok C block_mode sink" and "\<forall>fds \<in> set (map snd sched). distinct fds"
  shows "\<exists>oks sink' s'. run_sender C block_mode send sched sink s = Some (oks, sink', s') \<and>
    length oks = min (length sched) (length (rb_items C sink)) \<and>
    rb_items C sink' = drop (length sched) (rb_items C sink) \<and>
    loop_test False sink' = (length sched < length (rb_items C sink))"
  using run_sender_spec[OF assms, of s] by (auto simp: loop_test_iff)

theorem sender_drains_witness:
  "\<exists>oks sink' s'. run_sender 8 False (sys_send net_system) [(True, [5]), (False, [5, 6])] demo_event_sink demo_net =
      Some (oks, sink', s') \<and> length oks = 2 \<and> rb_items 8 sink' = [Routed 6 (OrderFilled 1 2)]"
  using sender_drains[OF net_send_law demo_event_sink_ok(1), of "[(True, [5]), (False, [5, 6])]" demo_net]
  by (simp only: demo_event_sink_ok(2)) (auto simp: demo_events_def numeral_2_eq_2 simp del: run_sender.simps)

end
