(* ===== verification/Demo_Exchange.thy ===== *)
theory Demo_Exchange
  imports Exchange Delivery_Properties Examples
begin

text \<open>
  A concrete run of the whole server, on which the hypotheses of its properties hold: one client
  inserts a sell order, which is accepted, read, processed, answered and sent.
\<close>

section \<open>The network\<close>

definition sell_msg :: Message where
  "sell_msg = Add_msg (gtc_add Sell 100 5)"

definition sell_net :: Net where
  "sell_net = demo_net\<lparr>net_in := (\<lambda>fd. if fd = 5 then [take 4 (serialise_order sell_msg), drop 4 (serialise_order sell_msg)]
     else [])\<rparr>"

definition sell_accepted :: "Net Server" where
  "sell_accepted = handle_accept net_system (new_Server sell_net)"

definition sell_served :: "Net Server" where
  "sell_served = the (handle_readable net_system 5 sell_accepted)"

definition sell_history :: history where
  "sell_history = (\<lambda>_. (0, []))(5 := (0, serialise_order sell_msg))"

definition sell_book :: OrderBook where
  "sell_book = (case process sell_msg new_OrderBook of Inr b \<Rightarrow> b | Inl _ \<Rightarrow> new_OrderBook)"

definition sell_events :: "Event list" where
  "sell_events = [Public (BookUpdate Sell 100 5), Routed 5 (OrderRested 1 7 5)]"

lemmas sell_defs = sell_accepted_def sell_served_def sell_net_def sell_msg_def gtc_add_def

lemma sell_client: "fd_to_state sell_accepted 5 = Some (new_ClientState 5)"
  by (simp add: sell_defs demo_net_defs handle_accept_def net_accept_def insert_client_def)

lemma sell_recv:
  "\<exists>s. recv_nb_til_limit (sys_recv net_system) 5 256 (env sell_accepted) = (30, serialise_order sell_msg, s)"
proof -
  have "(case recv_nb_til_limit (sys_recv net_system) 5 256 (env sell_accepted) of
      (got, bs, s) \<Rightarrow> got = 30 \<and> bs = serialise_order sell_msg)"
    by code_simp
  then show ?thesis by (auto split: prod.splits)
qed

lemma handle_readable_own:
  assumes "handle_readable sys fd srv = Some srv'"
  shows "\<exists>c. fd_to_state srv' = (fd_to_state srv)(fd := c)"
proof -
  obtain st where st: "fd_to_state srv fd = Some st"
    using assms by (cases "fd_to_state srv fd") (simp_all add: handle_readable_def)
  obtain got bs s where "recv_nb_til_limit (sys_recv sys) fd (read_budget (pre_check st)) (env srv) = (got, bs, s)"
    by (metis prod_cases3)
  with st assms have "(if got = -1 \<or> got = -2
      then Some (srv\<lparr>fd_to_state := (fd_to_state srv)(fd := None), env := sys_close sys s fd\<rparr>)
      else let p = snd (parse_ready_client fd \<lparr>client = cs_received bs (pre_check st),
          msg_sink = server_sink srv, next_seq = server_seq srv\<rparr>)
        in Some (srv\<lparr>fd_to_state := (fd_to_state srv)(fd \<mapsto> client p), server_sink := msg_sink p,
             server_seq := next_seq p, env := s\<rparr>)) = Some srv'"
    by (simp add: handle_readable_def Let_def)
  then have "fd_to_state (the (Some srv')) \<in> range (\<lambda>c. (fd_to_state srv)(fd := c))"
    by (rule subst) (simp add: Let_def)
  then show ?thesis by auto
qed

lemma sell_pushed:
  "handle_readable net_system 5 sell_accepted = Some sell_served"
  "server_sink sell_served = [sell_msg]" "server_sink sell_accepted = []"
  "fd_to_state sell_served = [5 \<mapsto> the (fd_to_state sell_served 5)]"
  "pending_bytes (the (fd_to_state sell_served 5)) = []"
proof -
  have "\<not> Option.is_none (handle_readable net_system 5 sell_accepted)" by code_simp
  then show *: "handle_readable net_system 5 sell_accepted = Some sell_served"
    by (auto simp: sell_served_def Option.is_none_def)
  show "server_sink sell_served = [sell_msg]" "server_sink sell_accepted = []"
    by code_simp+
  have acc: "fd_to_state sell_accepted = [5 \<mapsto> new_ClientState 5]"
    by (simp add: sell_defs demo_net_defs handle_accept_def net_accept_def insert_client_def)
  obtain c where c: "fd_to_state sell_served = Map.empty(5 := c)"
    using handle_readable_own[OF *] unfolding acc by auto
  have "\<not> Option.is_none (fd_to_state sell_served 5)" by code_simp
  then show "fd_to_state sell_served = [5 \<mapsto> the (fd_to_state sell_served 5)]"
    unfolding c by (simp add: Option.is_none_def)
  show "pending_bytes (the (fd_to_state sell_served 5)) = []" by code_simp
qed

lemma sell_accepts:
  "serving_step net_system 3 (new_Server sell_net) (\<lambda>_. (0, [])) sell_accepted (\<lambda>_. (0, []))"
  by (rule serving_step.accepted) (auto simp: handle_event_def sell_defs demo_net_defs net_accept_def)

lemma sell_reads: "serving_step net_system 3 sell_accepted (\<lambda>_. (0, [])) sell_served sell_history"
proof -
  obtain s where recv: "recv_nb_til_limit (sys_recv net_system) 5 256 (env sell_accepted) =
      (30, serialise_order sell_msg, s)"
    using sell_recv by blast
  show ?thesis
    by (rule serving_step.readable[of 5 _ _ _ _ "new_ClientState 5" 30 "serialise_order sell_msg" s])
       (use recv sell_client demo_budget sell_pushed(1) in
         \<open>simp_all add: handle_event_def sell_history_def del: serialise_order.simps\<close>)
qed

lemma sell_process:
  "process sell_msg new_OrderBook = Inr sell_book" "event_sink sell_book = sell_events"
proof -
  have "\<exists>b. process sell_msg new_OrderBook = Inr b \<and> event_sink b = sell_events"
    by (simp add: sell_msg_def sell_events_def demo_defs book_code)
  then show "process sell_msg new_OrderBook = Inr sell_book" "event_sink sell_book = sell_events"
    by (auto simp: sell_book_def)
qed

section \<open>The run\<close>

text \<open>A reachable state in which nothing was lost and nothing waits, by what matters of it.\<close>

record Summary =
  s_server :: "Net Server"
  s_history :: history
  s_queued :: "Message list"
  s_done :: "Message list"
  s_book :: OrderBook
  s_events :: "Event list"
  s_sent :: "Event list"
  s_found :: "int list list"

definition summary :: "Net Exchange \<Rightarrow> Summary" where
  "summary x = \<lparr>s_server = x_server x, s_history = x_history x, s_queued = rb_items 8 (x_messages x),
     s_done = x_done x, s_book = x_book x, s_events = rb_items 8 (x_events x), s_sent = x_sent x,
     s_found = x_found x\<rparr>"

definition reaches :: "Summary \<Rightarrow> Message list \<Rightarrow> Event list \<Rightarrow> bool" where
  "reaches sm ms evs \<longleftrightarrow> (\<exists>x. exchange_reachable 8 False net_system 3 x \<and> summary x = sm \<and>
     x_parsed x = ms \<and> x_raised x = evs \<and> x_start x = sell_net \<and> \<not> x_lost x \<and> \<not> x_failed x)"

lemma reachesI:
  assumes "exchange_reachable 8 False net_system 3 x" "summary x = sm" "x_parsed x = ms" "x_raised x = evs"
    "x_start x = sell_net" "\<not> x_lost x" "\<not> x_failed x"
  shows "reaches sm ms evs"
  using assms unfolding reaches_def by blast

lemma reachesE:
  assumes "reaches sm ms evs"
  obtains x where "exchange_reachable 8 False net_system 3 x" "summary x = sm" "x_parsed x = ms"
    "x_raised x = evs" "x_start x = sell_net" "\<not> x_lost x" "\<not> x_failed x"
  using assms unfolding reaches_def by blast

lemma reachable_sinks:
  assumes "exchange_reachable 8 False net_system 3 x"
  shows "sink_ok 8 False (x_messages x)" and "sink_ok 8 False (x_events x)"
  using exchange_invariant[OF cap_8 net_recv_law net_send_law assms] by (simp_all add: exchange_inv_def)

lemma reaches_initial:
  "reaches \<lparr>s_server = new_Server sell_net, s_history = (\<lambda>_. (0, [])), s_queued = [], s_done = [],
     s_book = new_OrderBook, s_events = [], s_sent = [], s_found = []\<rparr> [] []"
  unfolding reaches_def summary_def
  by (rule exI[of _ "new_Exchange 8 sell_msg (Public (BookUpdate Buy 1 1)) sell_net"])
     (simp add: exchange_reachable.initial, simp add: new_Exchange_def new_RingBuffer_ok(2)[OF cap_8])

lemma reaches_network:
  assumes "reaches sm [] evs" and "serving_step net_system 3 (s_server sm) (s_history sm) srv h"
    and "server_sink srv = server_sink (s_server sm) @ ms"
  shows "reaches (sm\<lparr>s_server := srv, s_history := h\<rparr>) ms evs"
proof (rule reachesE[OF assms(1)])
  fix x
  assume x: "exchange_reachable 8 False net_system 3 x" "summary x = sm" "x_parsed x = []"
    "x_raised x = evs" "x_start x = sell_net" "\<not> x_lost x" "\<not> x_failed x"
  have "exchange_step 8 False net_system 3 x (x\<lparr>x_server := srv,
      x_left := dom (fd_to_state (x_server x)) - dom (fd_to_state srv), x_history := h, x_parsed := ms\<rparr>)"
    using assms(2,3) x(2,3) by (intro exchange_step.network) (auto simp: summary_def)
  from exchange_reachable.stepped[OF x(1) this] show ?thesis
    by (rule reachesI) (use x(2-) in \<open>auto simp: summary_def\<close>)
qed

lemma reaches_push_message:
  assumes "reaches sm (m # ms) evs" and "length (s_queued sm) < 7"
  shows "reaches (sm\<lparr>s_queued := s_queued sm @ [m]\<rparr>) ms evs"
proof (rule reachesE[OF assms(1)])
  fix x
  assume x: "exchange_reachable 8 False net_system 3 x" "summary x = sm" "x_parsed x = m # ms"
    "x_raised x = evs" "x_start x = sell_net" "\<not> x_lost x" "\<not> x_failed x"
  have "length (rb_items 8 (x_messages x)) < unat (8 :: BufSize) - 1"
    using assms(2) x(2) by (auto simp: summary_def)
  from sink.push_room[OF reachable_sinks(1)[OF x(1)] this, of m] obtain rb where
    rb: "rb_push 8 m (x_messages x) = (True, rb)" "rb_items 8 rb = rb_items 8 (x_messages x) @ [m]"
    by blast
  from exchange_reachable.stepped[OF x(1) exchange_step.push_message[OF x(3) rb(1)]]
  show ?thesis by (rule reachesI) (use rb(2) x(2-) in \<open>auto simp: summary_def\<close>)
qed

lemma reaches_engine:
  assumes "reaches sm ms []" and "s_queued sm = m # queued" and "process m (s_book sm) = Inr book"
    and "event_sink book = event_sink (s_book sm) @ evs"
  shows "reaches (sm\<lparr>s_queued := queued, s_done := s_done sm @ [m], s_book := book\<rparr>) ms evs"
proof (rule reachesE[OF assms(1)])
  fix x
  assume x: "exchange_reachable 8 False net_system 3 x" "summary x = sm" "x_parsed x = ms"
    "x_raised x = []" "x_start x = sell_net" "\<not> x_lost x" "\<not> x_failed x"
  have items: "rb_items 8 (x_messages x) = m # queued" "x_book x = s_book sm"
    using x(2) assms(2) by (auto simp: summary_def)
  obtain rb where rb: "consume_messages 8 False [True] (x_messages x) (x_book x) = Inr (rb, book)"
    "rb_items 8 rb = queued"
    using consume_messages_spec[OF reachable_sinks(1)[OF x(1)], of "[True]" "x_book x"] items assms(3) by auto
  have "event_sink book = event_sink (x_book x) @ evs" using items(2) assms(4) by simp
  from exchange_reachable.stepped[OF x(1) exchange_step.engine[OF x(4) rb(1) this]]
  show ?thesis by (rule reachesI) (use rb(2) x(2-) items(1) in \<open>auto simp: summary_def\<close>)
qed

lemma reaches_push_event:
  assumes "reaches sm ms (ev # evs)" and "length (s_events sm) < 7"
  shows "reaches (sm\<lparr>s_events := s_events sm @ [ev]\<rparr>) ms evs"
proof (rule reachesE[OF assms(1)])
  fix x
  assume x: "exchange_reachable 8 False net_system 3 x" "summary x = sm" "x_parsed x = ms"
    "x_raised x = ev # evs" "x_start x = sell_net" "\<not> x_lost x" "\<not> x_failed x"
  have "length (rb_items 8 (x_events x)) < unat (8 :: BufSize) - 1"
    using assms(2) x(2) by (auto simp: summary_def)
  from sink.push_room[OF reachable_sinks(2)[OF x(1)] this, of ev] obtain rb where
    rb: "rb_push 8 ev (x_events x) = (True, rb)" "rb_items 8 rb = rb_items 8 (x_events x) @ [ev]"
    by blast
  from exchange_reachable.stepped[OF x(1) exchange_step.push_event[OF x(4) rb(1)]]
  show ?thesis by (rule reachesI) (use rb(2) x(2-) in \<open>auto simp: summary_def\<close>)
qed

lemma reaches_sender:
  assumes "reaches sm ms evs" and "s_events sm = ev # queued"
    and "dom (fd_to_state (s_server sm)) = set fds" and "distinct fds"
    and "send_event (sys_send net_system) fds ev (env (s_server sm)) = Some (True, s)"
  shows "reaches (sm\<lparr>s_server := (s_server sm)\<lparr>env := s\<rparr>, s_events := queued, s_sent := s_sent sm @ [ev],
    s_found := s_found sm @ [fds]\<rparr>) ms evs"
proof (rule reachesE[OF assms(1)])
  fix x
  assume x: "exchange_reachable 8 False net_system 3 x" "summary x = sm" "x_parsed x = ms"
    "x_raised x = evs" "x_start x = sell_net" "\<not> x_lost x" "\<not> x_failed x"
  have items: "rb_items 8 (x_events x) = ev # queued" "x_server x = s_server sm"
    using x(2) assms(2) by (auto simp: summary_def)
  obtain rb where rb: "sink_pop 8 False (x_events x) = (Some ev, rb)" "rb_items 8 rb = queued"
    using sink.pop_some[OF reachable_sinks(2)[OF x(1)] items(1)] by blast
  have run: "run_sender 8 False (sys_send net_system) [(True, fds)] (x_events x) (env (x_server x)) =
      Some ([True], rb, s)"
    using rb(1) assms(5) items by (simp add: loop_test_iff[OF reachable_sinks(2)[OF x(1)]])
  have fds: "set fds \<in> {dom (fd_to_state (x_server x)), dom (fd_to_state (x_server x)) \<union> x_left x}" "[ev] = take 1 (rb_items 8 (x_events x))"
    using assms(3) items by simp_all
  from exchange_reachable.stepped[OF x(1) exchange_step.sender[OF fds(1) assms(4) run fds(2)]]
  show ?thesis by (rule reachesI) (use rb(2) x(2-) items(1) in \<open>auto simp: summary_def\<close>)
qed

definition sell_state :: "Net Server \<Rightarrow> Event list \<Rightarrow> Event list \<Rightarrow> int list list \<Rightarrow> Summary" where
  "sell_state srv queued sent found =
     \<lparr>s_server = srv, s_history = sell_history, s_queued = [], s_done = [sell_msg], s_book = sell_book,
      s_events = queued, s_sent = sent, s_found = found\<rparr>"

lemma sell_processed: "reaches (sell_state sell_served sell_events [] []) [] []"
proof -
  have sink0: "server_sink (new_Server sell_net) = []" "event_sink new_OrderBook = []"
    by (simp_all add: new_Server_def new_OrderBook_def)
  note start = reaches_network[OF reaches_initial, of sell_accepted "\<lambda>_. (0, [])" "[]"]
  note accepted = reaches_network[OF start, of sell_served sell_history "[sell_msg]"]
  note pushed = reaches_push_message[OF accepted]
  note processed = reaches_engine[OF pushed, of sell_msg "[]" sell_book sell_events]
  have "reaches (sell_state sell_served [] [] []) [] sell_events"
    using processed sink0 sell_accepts sell_reads sell_pushed(2,3) sell_process by (simp add: sell_state_def)
  note events = this[unfolded sell_events_def]
  from reaches_push_event[OF reaches_push_event[OF events]] show ?thesis
    by (simp add: sell_state_def sell_events_def)
qed

text \<open>The bytes the client is sent.\<close>

definition sell_sent :: "Net \<times> Net" where
  "sell_sent = (case send_event (sys_send net_system) [5] (Public (BookUpdate Sell 100 5)) (env sell_served) of
     None \<Rightarrow> (sell_net, sell_net)
   | Some (_, s) \<Rightarrow> (s,
       case send_event (sys_send net_system) [5] (Routed 5 (OrderRested 1 7 5)) s of
         None \<Rightarrow> sell_net | Some (_, s') \<Rightarrow> s'))"

lemma sell_sends:
  "send_event (sys_send net_system) [5] (Public (BookUpdate Sell 100 5)) (env sell_served) =
     Some (True, fst sell_sent)"
  "send_event (sys_send net_system) [5] (Routed 5 (OrderRested 1 7 5)) (fst sell_sent) =
     Some (True, snd sell_sent)"
  "net_out (snd sell_sent) 5 = concat (map serialise_event sell_events)"
proof -
  have "(case send_event (sys_send net_system) [5] (Public (BookUpdate Sell 100 5)) (env sell_served) of
      None \<Rightarrow> False | Some (ok, s) \<Rightarrow> ok)"
    by code_simp
  then show 1: "send_event (sys_send net_system) [5] (Public (BookUpdate Sell 100 5)) (env sell_served) =
     Some (True, fst sell_sent)"
    by (auto simp: sell_sent_def split: option.splits simp del: send_event.simps)
  have "(case send_event (sys_send net_system) [5] (Routed 5 (OrderRested 1 7 5)) (fst sell_sent) of
      None \<Rightarrow> False | Some (ok, s) \<Rightarrow> ok)"
    by code_simp
  with 1 show "send_event (sys_send net_system) [5] (Routed 5 (OrderRested 1 7 5)) (fst sell_sent) =
     Some (True, snd sell_sent)"
    by (auto simp: sell_sent_def split: option.splits simp del: send_event.simps)
  show "net_out (snd sell_sent) 5 = concat (map serialise_event sell_events)" by code_simp
qed

lemma sell_delivered:
  "reaches (sell_state (sell_served\<lparr>env := snd sell_sent\<rparr>) [] sell_events [[5], [5]]) [] []"
proof -
  have dom: "dom (fd_to_state sell_served) = set [5]" by (subst sell_pushed(4)) simp
  note first = reaches_sender[OF sell_processed, of "Public (BookUpdate Sell 100 5)"
      "[Routed 5 (OrderRested 1 7 5)]" "[5]" "fst sell_sent"]
  have "reaches (sell_state (sell_served\<lparr>env := fst sell_sent\<rparr>) [Routed 5 (OrderRested 1 7 5)]
      [Public (BookUpdate Sell 100 5)] [[5]]) [] []"
    using first dom sell_sends(1) by (simp add: sell_state_def sell_events_def del: send_event.simps)
  from reaches_sender[OF this, of "Routed 5 (OrderRested 1 7 5)" "[]" "[5]" "snd sell_sent"]
  show ?thesis
    using dom sell_sends(2) by (simp add: sell_state_def sell_events_def del: send_event.simps)
qed

section \<open>A message that ends the server\<close>

text \<open>A client is accepted and sends one order.\<close>

lemma exchange_receives:
  assumes "serving_step net_system 3 (new_Server s) (\<lambda>_. (0, [])) srv1 h1" and "server_sink srv1 = []"
    and "serving_step net_system 3 srv1 h1 srv2 h2" and "server_sink srv2 = [m]"
  obtains x where "exchange_reachable 8 False net_system 3 x" and "rb_items 8 (x_messages x) = [m]"
    and "x_book x = new_OrderBook" and "x_done x = []" and "x_parsed x = []"
proof -
  let ?x0 = "new_Exchange 8 sell_msg (Public (BookUpdate Buy 1 1)) s"
  let ?x1 = "?x0\<lparr>x_server := srv1, x_left := dom (fd_to_state (x_server ?x0)) - dom (fd_to_state srv1),
      x_history := h1, x_parsed := []\<rparr>"
  let ?x2 = "?x1\<lparr>x_server := srv2, x_left := dom (fd_to_state (x_server ?x1)) - dom (fd_to_state srv2),
      x_history := h2, x_parsed := [m]\<rparr>"
  have "exchange_step 8 False net_system 3 ?x0 ?x1"
    using assms(1,2) by (intro exchange_step.network) (simp_all add: new_Exchange_def new_Server_def)
  moreover have "exchange_step 8 False net_system 3 ?x1 ?x2"
    by (rule exchange_step.network) (use assms(2-4) in simp_all)
  ultimately have x2: "exchange_reachable 8 False net_system 3 ?x2"
    by (blast intro: exchange_reachable.initial exchange_reachable.stepped)
  have queue: "rb_items 8 (x_messages ?x2) = []"
    by (simp add: new_Exchange_def new_RingBuffer_ok(2)[OF cap_8])
  obtain rb where rb: "rb_push 8 m (x_messages ?x2) = (True, rb)" "rb_items 8 rb = [m]"
  proof -
    have "length (rb_items 8 (x_messages ?x2)) < unat (8 :: BufSize) - 1" unfolding queue by simp
    from sink.push_room[OF reachable_sinks(1)[OF x2] this, of m] show thesis
      using that unfolding queue by auto
  qed
  have "exchange_step 8 False net_system 3 ?x2 (?x2\<lparr>x_parsed := [], x_messages := rb,
      x_lost := x_lost ?x2 \<or> \<not> True\<rparr>)"
    by (rule exchange_step.push_message[OF _ rb(1)]) simp
  from that[OF exchange_reachable.stepped[OF x2 this]] rb(2) show thesis
    by (simp add: new_Exchange_def)
qed

definition zero_msg :: Message where
  "zero_msg = Add_msg (gtc_add Sell 100 0)"

definition zero_net :: Net where
  "zero_net = demo_net\<lparr>net_in := (\<lambda>fd. if fd = 5 then [serialise_order zero_msg] else [])\<rparr>"

definition zero_accepted :: "Net Server" where
  "zero_accepted = handle_accept net_system (new_Server zero_net)"

definition zero_served :: "Net Server" where
  "zero_served = the (handle_readable net_system 5 zero_accepted)"

lemma zero_accepts:
  "serving_step net_system 3 (new_Server zero_net) (\<lambda>_. (0, [])) zero_accepted (\<lambda>_. (0, []))"
  "server_sink zero_accepted = []" "fd_to_state zero_accepted 5 = Some (new_ClientState 5)"
proof -
  note defs = zero_accepted_def zero_net_def demo_net_defs net_accept_def
  show "serving_step net_system 3 (new_Server zero_net) (\<lambda>_. (0, [])) zero_accepted (\<lambda>_. (0, []))"
    by (rule serving_step.accepted) (auto simp: handle_event_def defs)
  show "server_sink zero_accepted = []" "fd_to_state zero_accepted 5 = Some (new_ClientState 5)"
    by (simp_all add: handle_accept_def insert_client_def defs)
qed

lemma zero_reads:
  obtains h where "serving_step net_system 3 zero_accepted (\<lambda>_. (0, [])) zero_served h"
    and "server_sink zero_served = [zero_msg]"
proof -
  have "\<not> Option.is_none (handle_readable net_system 5 zero_accepted)" by code_simp
  then have served: "handle_readable net_system 5 zero_accepted = Some zero_served"
    by (auto simp: zero_served_def Option.is_none_def)
  obtain got bs s where recv:
    "recv_nb_til_limit (sys_recv net_system) 5 (read_budget (pre_check (new_ClientState 5))) (env zero_accepted) =
      (got, bs, s)"
    by (metis prod_cases3)
  have "serving_step net_system 3 zero_accepted (\<lambda>_. (0, [])) zero_served
      ((\<lambda>_. (0, []))(5 := (0, bs)))"
    by (rule serving_step.readable[of 5 _ _ _ _ "new_ClientState 5" got bs s])
       (use recv zero_accepts(3) served in \<open>simp_all add: handle_event_def\<close>)
  moreover have "server_sink zero_served = [zero_msg]" by code_simp
  ultimately show thesis by (rule that)
qed

end
