(* ===== verification/Exchange_Properties.thy ===== *)
theory Exchange_Properties
  imports Demo_Exchange
begin

text \<open>
  The properties of the whole server: what the book is, what was delivered, and what a client makes of
  it, in every state that the three threads can reach.
\<close>

section \<open>The run of the example, once more\<close>

lemma sell_exchange:
  obtains x :: "Net Exchange" where "exchange_reachable 8 False net_system 3 x" and "\<not> x_lost x" and "\<not> x_failed x"
    and "rb_items 8 (x_messages x) = []" and "x_parsed x = []" and "rb_items 8 (x_events x) = []" and "x_raised x = []"
    and "fd_to_state (x_server x) = fd_to_state sell_served" and "x_history x = sell_history"
    and "x_done x = [sell_msg]" and "x_book x = sell_book" and "x_sent x = sell_events" and "x_found x = [[5], [5]]"
    and "net_out (env (x_server x)) 5 = net_out (x_start x) 5 @ concat (map serialise_event sell_events)"
    and "server_sink (x_server x) = [sell_msg]"
proof (rule reachesE[OF sell_delivered])
  fix x :: "Net Exchange"
  assume x: "exchange_reachable 8 False net_system 3 x"
    "summary x = sell_state (sell_served\<lparr>env := snd sell_sent\<rparr>) [] sell_events [[5], [5]]"
    "x_parsed x = []" "x_raised x = []" "x_start x = sell_net" "\<not> x_lost x" "\<not> x_failed x"
  have sm: "x_server x = sell_served\<lparr>env := snd sell_sent\<rparr>" "x_history x = sell_history"
    "rb_items 8 (x_messages x) = []" "x_done x = [sell_msg]" "x_book x = sell_book"
    "rb_items 8 (x_events x) = []" "x_sent x = sell_events" "x_found x = [[5], [5]]"
    using x(2) by (simp_all add: summary_def sell_state_def)
  have "net_out sell_net 5 = []" by (simp add: sell_net_def demo_net_def)
  then show thesis
    using x(3-) sm sell_pushed(2) sell_sends(3) by (intro that[OF x(1)]) simp_all
qed

section \<open>What the book is\<close>

text \<open>C7: In every state that the network thread, the engine thread and the sender thread can reach
  together, the book is the result of processing, one after the other, messages that clients sent:
  those taken so far, those queued and the one being pushed are the messages parsed from the
  connections, in order; and the events taken by the sender, those queued and those being pushed are
  the events of the book, in order. Only a push that fails makes them a proper subsequence.\<close>

theorem exchange_explained:
  assumes "cap_ok C" and "recv_law (sys_recv sys) incoming" and "send_law (sys_send sys) outgoing"
    and "exchange_reachable C block_mode sys socket_fd x"
  shows "process_all (x_done x) new_OrderBook = Inr (x_book x) \<and>
    subseq (x_done x @ rb_items C (x_messages x) @ x_parsed x) (server_sink (x_server x)) \<and>
    subseq (x_sent x @ rb_items C (x_events x) @ x_raised x) (event_sink (x_book x)) \<and>
    (\<not> x_lost x \<longrightarrow>
       x_done x @ rb_items C (x_messages x) @ x_parsed x = server_sink (x_server x) \<and>
       x_sent x @ rb_items C (x_events x) @ x_raised x = event_sink (x_book x))"
  using exchange_invariant[OF assms] by (simp add: exchange_inv_def flows_def)

theorem exchange_explained_witness:
  "\<exists>x :: Net Exchange. x_done x = [sell_msg] \<and> process_all [sell_msg] new_OrderBook = Inr (x_book x) \<and>
     server_sink (x_server x) = [sell_msg] \<and> event_sink (x_book x) = sell_events"
proof (rule sell_exchange)
  fix x :: "Net Exchange"
  assume x: "exchange_reachable 8 False net_system 3 x" "\<not> x_lost x" "rb_items 8 (x_messages x) = []"
    "x_parsed x = []" "rb_items 8 (x_events x) = []" "x_raised x = []" "x_done x = [sell_msg]"
    "x_sent x = sell_events"
  from exchange_explained[OF cap_8 net_recv_law net_send_law x(1)]
  have "process_all [sell_msg] new_OrderBook = Inr (x_book x) \<and> [sell_msg] = server_sink (x_server x) \<and>
      sell_events = event_sink (x_book x)"
    unfolding x(3-) append_Nil append_Nil2 using x(2) by blast
  with x(7) show ?thesis by metis
qed

text \<open>C9: No order is lost silently: in every state that the server can reach, when the bytes received from a
  connection are the start of the serialisation of valid orders, they are the bytes of the first \<open>k\<close> of
  them and of what waits in the buffer of the connection. Of its messages the engine has processed,
  or will take from the buffer or from the network thread, only some of these \<open>k\<close> orders, in order and with
  their fields unchanged, after those of earlier connections of the descriptor; and as long as no push
  has failed, exactly these \<open>k\<close>, each once.\<close>

theorem orders_reach_book:
  assumes "cap_ok C" and "recv_law (sys_recv sys) incoming" and "send_law (sys_send sys) outgoing"
    and "exchange_reachable C block_mode sys socket_fd x" and "fd_to_state (x_server x) fd = Some st"
    and "snd (x_history x fd) @ rest = concat (map serialise_order ms)" and "\<forall>m \<in> set ms. order_wire_ok m"
    and "way = x_done x @ rb_items C (x_messages x) @ x_parsed x"
  shows "process_all (x_done x) new_OrderBook = Inr (x_book x) \<and>
    (\<exists>k \<le> length ms. snd (x_history x fd) = concat (map serialise_order (take k ms)) @ pending_bytes st \<and>
       subseq (of_connection fd way)
         (of_connection fd (take (fst (x_history x fd)) (server_sink (x_server x))) @ map unstamped (take k ms)) \<and>
       (\<not> x_lost x \<longrightarrow> of_connection fd (drop (fst (x_history x fd)) way) = map unstamped (take k ms)) \<and>
       (rest = [] \<and> pending_bytes st = [] \<longrightarrow> k = length ms))"
proof -
  have inv: "exchange_inv C block_mode x" by (rule exchange_invariant[OF assms(1-4)])
  note way = orders_on_the_way[OF inv assms(5) assms(6)[folded order_stream_def] assms(7,8), unfolded order_stream_def]
  show ?thesis using inv by (auto simp: exchange_inv_def intro: way)
qed

theorem orders_reach_book_witness:
  "\<exists>x :: Net Exchange. exchange_reachable 8 False net_system 3 x \<and> x_done x = [sell_msg] \<and>
     process_all (x_done x) new_OrderBook = Inr (x_book x) \<and>
     of_connection 5 (x_done x) = map unstamped [sell_msg]"
proof (rule sell_exchange)
  fix x :: "Net Exchange"
  assume x: "exchange_reachable 8 False net_system 3 x" "\<not> x_lost x" "rb_items 8 (x_messages x) = []"
    "x_parsed x = []" "fd_to_state (x_server x) = fd_to_state sell_served" "x_history x = sell_history"
    "x_done x = [sell_msg]"
  have st: "fd_to_state (x_server x) 5 = Some (the (fd_to_state sell_served 5))"
    unfolding x(5) by (subst (1) sell_pushed(4)) simp
  have sent: "snd (x_history x 5) @ [] = concat (map serialise_order [sell_msg])"
    by (simp add: x(6) sell_history_def del: serialise_order.simps)
  have "\<forall>m \<in> set [sell_msg]. order_wire_ok m"
    by (simp add: sell_msg_def gtc_add_def OrderType_valid_def TimeInForce_valid_def Side_valid_def in_i64_def
        i64_min_def i64_max_def)
  from orders_reach_book[OF cap_8 net_recv_law net_send_law x(1) st sent this refl] x(2-4,6,7) sell_pushed(5)
  show ?thesis using x(1) by (intro exI[of _ x]) (auto simp: sell_history_def)
qed

section \<open>What the clients can do to the server\<close>

text \<open>C8: Whatever bytes the clients send, in every state the server can reach, while the 64 bits of the
  id counter last, the book is one that valid messages produce, so it is well-formed; and the next
  iteration of the engine thread ends the program exactly when the first message of its buffer is one
  that \<open>message_error\<close> describes, and with that error.\<close>

theorem server_fails_exactly:
  assumes "cap_ok C" and "recv_law (sys_recv sys) incoming" and "send_law (sys_send sys) outgoing"
    and "exchange_reachable C block_mode sys socket_fd x" and "length (x_done x) < 2 ^ 64 - 2"
  shows "reachable (x_done x) (x_book x) \<and> book_ok (x_book x) \<and>
    (\<forall>e. consume_messages C block_mode [True] (x_messages x) (x_book x) = Inl e \<longleftrightarrow>
       (\<exists>m ms. rb_items C (x_messages x) = m # ms \<and> message_error m (x_book x) = Some e))"
proof -
  note book = exchange_book_reachable[OF assms]
  have ok: "book_ok (x_book x)" "ids_below (x_book x)" using reachable_inv[OF book(1)] by simp_all
  have sink: "sink_ok C block_mode (x_messages x)"
    using exchange_invariant[OF assms(1-4)] by (simp add: exchange_inv_def)
  have "consume_messages C block_mode [True] (x_messages x) (x_book x) = Inl e \<longleftrightarrow>
      (\<exists>m ms. rb_items C (x_messages x) = m # ms \<and> message_error m (x_book x) = Some e)" for e
  proof (cases "rb_items C (x_messages x)")
    case Nil
    then show ?thesis using consume_empty[OF sink Nil, of "[True]"] by simp
  next
    case (Cons m ms)
    have "process m (x_book x) = Inl e \<longleftrightarrow> message_error m (x_book x) = Some e"
      by (rule process_decided[OF ok book(3) book(2)]) (simp add: Cons)
    then show ?thesis
      using consume_messages_spec[OF sink, of "[True]" "x_book x"] Cons
      by (cases "process m (x_book x)") (auto split: sum.splits)
  qed
  with book(1) ok(1) show ?thesis by blast
qed

theorem server_fails_exactly_witness:
  "\<exists>x :: Net Exchange. exchange_reachable 8 False net_system 3 x \<and> book_ok (x_book x) \<and>
     rb_items 8 (x_messages x) = [zero_msg] \<and>
     consume_messages 8 False [True] (x_messages x) (x_book x) = Inl Quantity_not_positive"
proof -
  obtain h where read: "serving_step net_system 3 zero_accepted (\<lambda>_. (0, [])) zero_served h"
    "server_sink zero_served = [zero_msg]"
    by (rule zero_reads)
  obtain x where x: "exchange_reachable 8 False net_system 3 x" "rb_items 8 (x_messages x) = [zero_msg]"
    "x_book x = new_OrderBook" "x_done x = []"
    by (rule exchange_receives[OF zero_accepts(1,2) read])
  have "message_error zero_msg (x_book x) = Some Quantity_not_positive"
    by (simp add: zero_msg_def gtc_add_def add_error_def)
  moreover have "length (x_done x) < 2 ^ 64 - 2" by (simp add: x(4))
  note exact = server_fails_exactly[OF cap_8 net_recv_law net_send_law x(1) this]
  ultimately have "consume_messages 8 False [True] (x_messages x) (x_book x) = Inl Quantity_not_positive"
    using x(2) by blast
  with exact x(1,2) show ?thesis by blast
qed

section \<open>What a client sees\<close>

definition for_client :: "int \<Rightarrow> Event \<Rightarrow> bool" where
  "for_client fd ev \<longleftrightarrow> (case ev of Routed conn _ \<Rightarrow> conn = fd | Public _ \<Rightarrow> True)"

text \<open>The events of the book that are for a client: its own private events and all public ones.\<close>

definition events_for :: "int \<Rightarrow> OrderBook \<Rightarrow> Event list" where
  "events_for fd b = filter (for_client fd) (event_sink b)"

text \<open>
  The sender found the client whenever it took an event; and nothing was lost, no send has failed, and
  no event is on its way.
\<close>

definition always_connected :: "int \<Rightarrow> 's Exchange \<Rightarrow> bool" where
  "always_connected fd x \<longleftrightarrow> (\<forall>fds \<in> set (x_found x). fd \<in> set fds)"

definition settled :: "BufSize \<Rightarrow> 's Exchange \<Rightarrow> bool" where
  "settled C x \<longleftrightarrow> \<not> x_lost x \<and> \<not> x_failed x \<and> rb_items C (x_events x) = [] \<and> x_raised x = []"

lemma seen_by_connected:
  "\<lbrakk> length sched = length evs; \<forall>fds \<in> set sched. fd \<in> set fds \<rbrakk> \<Longrightarrow>
   seen_by fd sched evs = filter (for_client fd) evs"
  by (induction sched evs rule: list_induct2) (auto simp: visible_def for_client_def split: Event.split)

lemma seen_by_subseq: "subseq (seen_by fd sched evs) (filter (for_client fd) evs)"
  by (induction fd sched evs rule: seen_by.induct) (auto simp: visible_def for_client_def split: Event.split)

lemma prefix_filter: "prefix xs ys \<Longrightarrow> prefix (filter P xs) (filter P ys)"
  by (auto simp: prefix_def)

lemma feed_received: "feed (map received (filter (for_client fd) evs)) v = feed evs v"
proof (induction evs arbitrary: v)
  case (Cons ev evs)
  have "feed_step (received ev) v = feed_step ev v" for v
    by (induction ev v rule: feed_step.induct) simp_all
  moreover have "for_client fd ev \<or> feed_step ev v = v" by (cases ev) (simp_all add: for_client_def)
  ultimately show ?case using Cons.IH by (cases "for_client fd ev") auto
qed simp

lemma tape_received: "tape (map received (filter (for_client fd) evs)) = map seen_public (tape evs)"
  by (induction evs rule: tape.induct) (auto simp: for_client_def)

text \<open>What was sent on a descriptor: the bytes of some of its events, and of all of them in time.\<close>

lemma client_bytes:
  assumes "cap_ok C" and "recv_law (sys_recv sys) incoming" and "send_law (sys_send sys) outgoing"
    and "quiet_law sys outgoing" and "exchange_reachable C block_mode sys socket_fd x" and "\<not> x_failed x"
    and "outgoing (env (x_server x)) fd = outgoing (x_start x) fd @ bytes"
  obtains evs where "bytes = concat (map serialise_event evs)" and "\<forall>ev \<in> set evs. event_wire_ok ev"
    and "subseq evs (events_for fd (x_book x))"
    and "always_connected fd x \<Longrightarrow> \<not> x_lost x \<Longrightarrow> prefix evs (events_for fd (x_book x))"
    and "always_connected fd x \<Longrightarrow> settled C x \<Longrightarrow> evs = events_for fd (x_book x)"
proof -
  let ?evs = "seen_by fd (x_found x) (x_sent x)"
  have flow: "flows (x_lost x) (x_sent x) (rb_items C (x_events x)) (x_raised x) (event_sink (x_book x))"
    using exchange_invariant[OF assms(1-3,5)] by (simp add: exchange_inv_def)
  have "subseq (x_sent x) (x_sent x @ rb_items C (x_events x) @ x_raised x)" by (simp add: prefix_imp_subseq)
  also have "subseq \<dots> (event_sink (x_book x))" using flow by (simp add: flows_def)
  finally have sub: "subseq (x_sent x) (event_sink (x_book x))" .
  have pre: "prefix (x_sent x) (event_sink (x_book x))" if "\<not> x_lost x"
    using flow that by (auto simp: flows_def intro: prefixI[OF sym])
  have all: "x_sent x = event_sink (x_book x)" if "settled C x"
    using flow that by (simp add: flows_def settled_def)
  have del: "delivered outgoing x" by (rule exchange_delivered[OF assms(1-5)])
  then have found: "?evs = filter (for_client fd) (x_sent x)" if "always_connected fd x"
    using that seen_by_connected by (simp add: delivered_def always_connected_def)
  have "subseq (filter (for_client fd) (x_sent x)) (events_for fd (x_book x))"
    unfolding events_for_def by (rule subseq_filter[OF sub])
  with seen_by_subseq have evs: "subseq ?evs (events_for fd (x_book x))" by (rule subseq_order.trans)
  show thesis
  proof (rule that[of ?evs])
    show "bytes = concat (map serialise_event ?evs)" using del assms(6,7) by (simp add: delivered_def)
    have "set (events_for fd (x_book x)) \<subseteq> set (event_sink (x_book x))" by (auto simp: events_for_def)
    with exchange_events_fit[OF assms(1-3,5)] evs show "\<forall>ev \<in> set ?evs. event_wire_ok ev"
      by (auto dest: list_emb_set)
  qed (use evs pre all found in \<open>simp_all add: events_for_def prefix_filter\<close>)
qed

text \<open>C12: A client receives the events of the book, whatever the clients have sent: as long as no send has
  failed, a client that reads everything it was sent until the end of the stream obtains some of the
  events of the book that are for it, its own private events and all public ones, in order. If it was
  connected whenever the sender took an event and no push has failed, these are the first of them; if
  besides no event is on its way, all. Every number in them survives the wire, and of a side whether it
  is \<open>Buy\<close> (\<open>received\<close>).\<close>

theorem client_receives_events:
  assumes "cap_ok C" and "recv_law (sys_recv sys) incoming" and "send_law (sys_send sys) outgoing"
    and "quiet_law sys outgoing" and "exchange_reachable C block_mode sys socket_fd x" and "\<not> x_failed x"
    and "outgoing (env (x_server x)) fd = outgoing (x_start x) fd @ arriving c cfd"
    and "recv_blocks recv arriving" and "length (event_sink (x_book x)) < n"
  shows "\<exists>evs c'. run_parser n recv cfd True c = (False, map received evs, c') \<and>
    subseq evs (events_for fd (x_book x)) \<and>
    (always_connected fd x \<and> \<not> x_lost x \<longrightarrow> prefix evs (events_for fd (x_book x))) \<and>
    (always_connected fd x \<and> settled C x \<longrightarrow> evs = events_for fd (x_book x))"
proof (rule client_bytes[OF assms(1-7)])
  fix evs
  assume evs: "arriving c cfd = concat (map serialise_event evs)" "\<forall>ev \<in> set evs. event_wire_ok ev"
    "subseq evs (events_for fd (x_book x))"
    "always_connected fd x \<Longrightarrow> \<not> x_lost x \<Longrightarrow> prefix evs (events_for fd (x_book x))"
    "always_connected fd x \<Longrightarrow> settled C x \<Longrightarrow> evs = events_for fd (x_book x)"
  have "length evs \<le> length (event_sink (x_book x))"
    using le_trans[OF list_emb_length[OF evs(3)]] by (simp add: events_for_def)
  then have "length evs < n" using assms(9) by simp
  from run_parser_events[OF assms(8) evs(1,2) this] evs(3-) show ?thesis by blast
qed

lemma net_quiet_law: "quiet_law net_system net_out"
  by (auto simp: quiet_law_def net_system_def net_accept_def net_recv_def net_close_def split: list.split)

theorem client_receives_events_witness:
  "\<exists>c'. run_parser 3 stream_recv 0 True (concat (map serialise_event sell_events)) =
     (False, [Public (BookUpdate Sell 100 5), Routed (-1) (OrderRested 1 7 5)], c')"
proof (rule sell_exchange)
  fix x :: "Net Exchange"
  assume x: "exchange_reachable 8 False net_system 3 x" "\<not> x_lost x" "\<not> x_failed x"
    "rb_items 8 (x_events x) = []" "x_raised x = []" "x_done x = [sell_msg]" "x_book x = sell_book"
    "x_found x = [[5], [5]]"
    "net_out (env (x_server x)) 5 = net_out (x_start x) 5 @ concat (map serialise_event sell_events)"
  have hyps: "settled 8 x" "always_connected 5 x" "length (event_sink (x_book x)) < 3"
    by (simp_all add: x settled_def always_connected_def sell_process(2) sell_events_def)
  from client_receives_events[OF cap_8 net_recv_law net_send_law net_quiet_law x(1,3,9)
      stream_recv_blocks hyps(3)] hyps(1,2)
  show ?thesis by (auto simp: x(7) events_for_def sell_process(2) sell_events_def for_client_def)
qed

lemma sell_depth: "book_view sell_book False 100 = 5"
proof -
  have "\<exists>b. process sell_msg new_OrderBook = Inr b \<and> book_view b False 100 = 5"
    by (simp add: sell_msg_def demo_defs book_code book_view_def depth_def)
  then show ?thesis by (simp add: sell_process(1))
qed

text \<open>C13: A client knows the market, whatever the clients have sent: when nothing was lost, no send has
  failed and no event is on its way, the public events received by a client that was connected
  whenever the sender took an event, replayed from an empty view, give the depth of both sides of the
  book at every price; and the trades it was told are the trades the book has made, in order (of the
  aggressor's side, whether it is \<open>Buy\<close>).\<close>

theorem client_knows_market:
  assumes "cap_ok C" and "recv_law (sys_recv sys) incoming" and "send_law (sys_send sys) outgoing"
    and "quiet_law sys outgoing" and "exchange_reachable C block_mode sys socket_fd x" and "settled C x"
    and "always_connected fd x"
    and "outgoing (env (x_server x)) fd = outgoing (x_start x) fd @ arriving c cfd"
    and "recv_blocks recv arriving" and "length (event_sink (x_book x)) < n"
    and "length (x_done x) < 2 ^ 64 - 2"
  shows "\<exists>evs c'. run_parser n recv cfd True c = (False, evs, c') \<and>
    feed evs (\<lambda>_ _. 0) = book_view (x_book x) \<and>
    tape evs = map (\<lambda>t. seen_public (trade_event t)) (trades (x_book x))"
proof (rule client_bytes[OF assms(1-5) _ assms(8)])
  show "\<not> x_failed x" using assms(6) by (simp add: settled_def)
  fix evs
  assume evs: "arriving c cfd = concat (map serialise_event evs)" "\<forall>ev \<in> set evs. event_wire_ok ev"
    "always_connected fd x \<Longrightarrow> settled C x \<Longrightarrow> evs = events_for fd (x_book x)"
  then have "evs = filter (for_client fd) (event_sink (x_book x))" using assms(6,7) by (simp add: events_for_def)
  note seen = evs(1,2)[unfolded this]
  have "length (filter (for_client fd) (event_sink (x_book x))) < n"
    using assms(10) le_less_trans[OF length_filter_le] by blast
  note parsed = run_parser_events[OF assms(9) seen this]
  have "book_view new_OrderBook = (\<lambda>_ _. 0)"
    by (auto simp: fun_eq_iff book_view_def new_OrderBook_def depth_def)
  with parsed tracked.reachable_rel[OF exchange_book_reachable(1)[OF assms(1-3,5,11)]] show ?thesis
    by (auto simp: tracked_def feed_received tape_received new_OrderBook_def)
qed

theorem client_knows_market_witness:
  "\<exists>evs c'. run_parser 3 stream_recv 0 True (concat (map serialise_event sell_events)) = (False, evs, c') \<and>
     feed evs (\<lambda>_ _. 0) = book_view sell_book \<and> book_view sell_book False 100 = 5 \<and>
     tape evs = map (\<lambda>t. seen_public (trade_event t)) (trades sell_book)"
proof (rule sell_exchange)
  fix x :: "Net Exchange"
  assume x: "exchange_reachable 8 False net_system 3 x" "\<not> x_lost x" "\<not> x_failed x"
    "rb_items 8 (x_events x) = []" "x_raised x = []" "x_done x = [sell_msg]" "x_book x = sell_book"
    "x_found x = [[5], [5]]"
    "net_out (env (x_server x)) 5 = net_out (x_start x) 5 @ concat (map serialise_event sell_events)"
  have hyps: "settled 8 x" "always_connected 5 x" "length (event_sink (x_book x)) < 3"
    "length (x_done x) < 2 ^ 64 - 2"
    by (simp_all add: x settled_def always_connected_def sell_process(2) sell_events_def)
  from client_knows_market[OF cap_8 net_recv_law net_send_law net_quiet_law x(1) hyps(1,2) x(9)
      stream_recv_blocks hyps(3,4)] x(7) sell_depth
  show ?thesis by simp
qed

end
