(* ===== verification/Exchange_Progress.thy ===== *)
theory Exchange_Progress
  imports Exchange_Properties
begin

text \<open>
  The server can always finish: no thread waits for another, so from every state the engine and the
  sender can process and deliver all that is on its way, unless a message ends the program.
\<close>

section \<open>One thread at a time\<close>

text \<open>The events that a connected client is shown.\<close>

definition shown :: "int \<Rightarrow> 's Exchange \<Rightarrow> Event \<Rightarrow> bool" where
  "shown fd x ev \<longleftrightarrow> (case ev of Routed conn _ \<Rightarrow> conn = fd | Public _ \<Rightarrow> fd_to_state (x_server x) fd \<noteq> None)"

text \<open>
  What the sender has done between two states: it has taken the events \<open>evs\<close>, and when no send fails,
  none was reported as failed and their bytes have gone to every client that is shown them.
\<close>

definition handed ::
  "'s system \<Rightarrow> ('s \<Rightarrow> int \<Rightarrow> Byte list) \<Rightarrow> 's Exchange \<Rightarrow> 's Exchange \<Rightarrow> Event list \<Rightarrow> bool"
where
  "handed sys outgoing x y evs \<longleftrightarrow> x_sent y = x_sent x @ evs \<and>
     (send_succeeds (sys_send sys) outgoing \<longrightarrow> x_failed y = x_failed x \<and>
        (\<forall>fd. outgoing (env (x_server y)) fd =
           outgoing (env (x_server x)) fd @ concat (map serialise_event (filter (shown fd x) evs))))"

text \<open>
  \<open>runs x y\<close>: the threads other than the network thread take the state to one in which the connections
  are the same, and in which every message and every event is accounted for, none being lost.
\<close>

definition runs ::
  "BufSize \<Rightarrow> bool \<Rightarrow> 's system \<Rightarrow> ('s \<Rightarrow> int \<Rightarrow> Byte list) \<Rightarrow> int \<Rightarrow> 's Exchange \<Rightarrow> 's Exchange \<Rightarrow> bool"
where
  "runs C block_mode sys outgoing socket_fd x y \<longleftrightarrow> (exchange_step C block_mode sys socket_fd)\<^sup>*\<^sup>* x y \<and>
     x_lost y = x_lost x \<and> fd_to_state (x_server y) = fd_to_state (x_server x) \<and>
     server_sink (x_server y) = server_sink (x_server x) \<and>
     x_done y @ rb_items C (x_messages y) @ x_parsed y = x_done x @ rb_items C (x_messages x) @ x_parsed x \<and>
     (\<exists>raised evs. event_sink (x_book y) = event_sink (x_book x) @ raised \<and>
        evs @ rb_items C (x_events y) @ x_raised y = rb_items C (x_events x) @ x_raised x @ raised \<and>
        handed sys outgoing x y evs)"

lemma runs_refl: "runs C block_mode sys outgoing socket_fd x x"
  by (simp add: runs_def handed_def)

lemma handed_trans:
  assumes "handed sys outgoing x y evs" and "handed sys outgoing y z evs'"
    and "fd_to_state (x_server y) = fd_to_state (x_server x)"
  shows "handed sys outgoing x z (evs @ evs')"
proof -
  have "shown fd y = shown fd x" for fd using assms(3) by (simp add: shown_def fun_eq_iff split: Event.split)
  with assms(1,2) show ?thesis by (simp add: handed_def)
qed

lemma runs_trans:
  assumes "runs C block_mode sys outgoing socket_fd x y" and "runs C block_mode sys outgoing socket_fd y z"
  shows "runs C block_mode sys outgoing socket_fd x z"
proof -
  obtain raised evs where xy: "event_sink (x_book y) = event_sink (x_book x) @ raised"
    "evs @ rb_items C (x_events y) @ x_raised y = rb_items C (x_events x) @ x_raised x @ raised"
    "handed sys outgoing x y evs" "fd_to_state (x_server y) = fd_to_state (x_server x)"
    using assms(1) unfolding runs_def by blast
  obtain raised' evs' where yz: "event_sink (x_book z) = event_sink (x_book y) @ raised'"
    "evs' @ rb_items C (x_events z) @ x_raised z = rb_items C (x_events y) @ x_raised y @ raised'"
    "handed sys outgoing y z evs'"
    using assms(2) unfolding runs_def by blast
  have "event_sink (x_book z) = event_sink (x_book x) @ raised @ raised'" using xy(1) yz(1) by simp
  moreover have "(evs @ evs') @ rb_items C (x_events z) @ x_raised z =
      rb_items C (x_events x) @ x_raised x @ raised @ raised'"
    using xy(2) yz(2) by (metis append.assoc)
  moreover note handed_trans[OF xy(3) yz(3) xy(4)]
  ultimately show ?thesis
    using assms unfolding runs_def by (metis (no_types, lifting) rtranclp_trans)
qed

lemma runs_reachable:
  assumes "runs C block_mode sys outgoing socket_fd x y" and "exchange_reachable C block_mode sys socket_fd x"
  shows "exchange_reachable C block_mode sys socket_fd y"
proof -
  have "(exchange_step C block_mode sys socket_fd)\<^sup>*\<^sup>* x y" using assms(1) by (simp add: runs_def)
  then show ?thesis
    by (induction rule: rtranclp_induct) (use assms(2) in \<open>auto intro: exchange_reachable.stepped\<close>)
qed

text \<open>A step of another thread than the sender.\<close>

lemma runs_step:
  assumes "exchange_step C block_mode sys socket_fd x y" and "x_lost y = x_lost x" and "x_server y = x_server x"
    and "x_sent y = x_sent x" and "x_failed y = x_failed x"
    and "x_done y @ rb_items C (x_messages y) @ x_parsed y = x_done x @ rb_items C (x_messages x) @ x_parsed x"
    and "event_sink (x_book y) = event_sink (x_book x) @ raised"
    and "rb_items C (x_events y) @ x_raised y = rb_items C (x_events x) @ x_raised x @ raised"
  shows "runs C block_mode sys outgoing socket_fd x y"
proof -
  have "handed sys outgoing x y []" using assms(3-5) by (simp add: handed_def)
  with assms show ?thesis
    unfolding runs_def by (auto intro!: exI[of _ raised] exI[of _ "[] :: Event list"])
qed

text \<open>The map of the clients is finite, so the sender can go through it.\<close>

lemma serving_step_finite:
  assumes "serving_step sys socket_fd srv h srv' h'" and "finite (dom (fd_to_state srv))"
  shows "finite (dom (fd_to_state srv'))"
  using assms(1)
proof (cases rule: serving_step.cases)
  case (accepted fd)
  then have "srv' = handle_accept sys srv" by (simp add: handle_event_def)
  with assms(2) show ?thesis by (auto simp: handle_accept_def insert_client_def split: prod.splits)
next
  case (readable fd st got bs s)
  then have "handle_readable sys fd srv = Some srv'" by (simp add: handle_event_def)
  from handle_readable_own[OF this] obtain c where "fd_to_state srv' = (fd_to_state srv)(fd := c)" by blast
  with assms(2) show ?thesis by (cases c) (simp_all add: dom_fun_upd)
qed

lemma exchange_finite:
  "exchange_reachable C block_mode sys socket_fd x \<Longrightarrow> finite (dom (fd_to_state (x_server x)))"
proof (induction rule: exchange_reachable.induct)
  case (initial m ev s)
  show ?case by (simp add: new_Exchange_def new_Server_def)
next
  case (stepped x y)
  from stepped.hyps(2) show ?case
    by (cases rule: exchange_step.cases) (use stepped.IH in \<open>auto dest: serving_step_finite\<close>)
qed

section \<open>The sender\<close>

lemma sender_runs:
  assumes cap: "cap_ok C" and recv: "recv_law (sys_recv sys) incoming" and send: "send_law (sys_send sys) outgoing"
    and reach: "exchange_reachable C block_mode sys socket_fd x" and items: "rb_items C (x_events x) = ev # evs"
  obtains y where "runs C block_mode sys outgoing socket_fd x y" and "rb_items C (x_events y) = evs"
    and "x_parsed y = x_parsed x" and "x_messages y = x_messages x" and "x_raised y = x_raised x"
    and "x_book y = x_book x" and "x_done y = x_done x"
proof -
  obtain fds where fds: "set fds = dom (fd_to_state (x_server x))" "distinct fds"
    using finite_distinct_list[OF exchange_finite[OF reach]] by blast
  have sink: "sink_ok C block_mode (x_events x)"
    using exchange_invariant[OF cap recv send reach] by (simp add: exchange_inv_def)
  obtain oks rb s where run: "run_sender C block_mode (sys_send sys) [(True, fds)] (x_events x) (env (x_server x)) =
      Some (oks, rb, s)" "rb_items C rb = evs"
    and bytes: "(\<forall>ok \<in> set oks. ok) \<longrightarrow> (\<forall>fd. outgoing s fd = outgoing (env (x_server x)) fd @
       concat (map serialise_event (seen_by fd [fds] (ev # evs))))"
    using run_sender_spec[OF send sink, of "[(True, fds)]" "env (x_server x)"] fds(2) items by auto
  have "set fds \<in> {dom (fd_to_state (x_server x)), dom (fd_to_state (x_server x)) \<union> x_left x}"
    using fds(1) by simp
  note step = exchange_step.sender[OF this fds(2) run(1) refl, of socket_fd]
  let ?y = "x\<lparr>x_server := (x_server x)\<lparr>env := s\<rparr>, x_events := rb,
      x_sent := x_sent x @ take 1 (rb_items C (x_events x)),
      x_found := x_found x @ map (\<lambda>_. fds) (take 1 (rb_items C (x_events x))),
      x_failed := x_failed x \<or> False \<in> set oks\<rparr>"
  have "seen_by fd [fds] (ev # evs) = filter (shown fd x) [ev]" for fd
    using fds(1) by (auto simp: visible_def shown_def domIff split: Event.split)
  moreover have "oks = [True]" if "send_succeeds (sys_send sys) outgoing"
    by (rule run_sender_succeeds[OF that sink items run(1)])
  ultimately have "handed sys outgoing x ?y [ev]"
    using bytes items by (simp add: handed_def del: seen_by.simps)
  then have "runs C block_mode sys outgoing socket_fd x ?y"
    using r_into_rtranclp[of "exchange_step C block_mode sys socket_fd", OF step] run(2) items by (auto simp: runs_def)
  then show thesis by (rule that) (use run(2) in simp_all)
qed

lemma sender_empties:
  assumes cap: "cap_ok C" and recv: "recv_law (sys_recv sys) incoming" and send: "send_law (sys_send sys) outgoing"
  shows "exchange_reachable C block_mode sys socket_fd x \<Longrightarrow> rb_items C (x_events x) = evs \<Longrightarrow>
    \<exists>y. runs C block_mode sys outgoing socket_fd x y \<and> rb_items C (x_events y) = [] \<and>
      x_parsed y = x_parsed x \<and> x_messages y = x_messages x \<and> x_raised y = x_raised x \<and>
      x_book y = x_book x \<and> x_done y = x_done x"
proof (induction evs arbitrary: x)
  case Nil
  then show ?case using runs_refl by blast
next
  case (Cons ev evs)
  obtain z where z: "runs C block_mode sys outgoing socket_fd x z" "rb_items C (x_events z) = evs"
    "x_parsed z = x_parsed x" "x_messages z = x_messages x" "x_raised z = x_raised x" "x_book z = x_book x"
    "x_done z = x_done x"
    by (rule sender_runs[OF cap recv send Cons.prems])
  from Cons.IH[OF runs_reachable[OF z(1) Cons.prems(1)] z(2)] z(3-) runs_trans[OF z(1)]
  show ?case by auto
qed

text \<open>The engine pushes the events it has raised, each when the sender has made room.\<close>

lemma events_drain:
  assumes cap: "cap_ok C" "1 < unat C" and recv: "recv_law (sys_recv sys) incoming"
    and send: "send_law (sys_send sys) outgoing"
  shows "exchange_reachable C block_mode sys socket_fd x \<Longrightarrow> x_raised x = evs \<Longrightarrow>
    \<exists>y. runs C block_mode sys outgoing socket_fd x y \<and> rb_items C (x_events y) = [] \<and> x_raised y = [] \<and>
      x_parsed y = x_parsed x \<and> x_messages y = x_messages x \<and> x_book y = x_book x \<and> x_done y = x_done x"
proof (induction evs arbitrary: x)
  case Nil
  with sender_empties[OF cap(1) recv send Nil.prems(1) refl] show ?case by auto
next
  case (Cons ev evs)
  obtain z where z: "runs C block_mode sys outgoing socket_fd x z" "rb_items C (x_events z) = []"
    "x_parsed z = x_parsed x" "x_messages z = x_messages x" "x_raised z = ev # evs" "x_book z = x_book x"
    "x_done z = x_done x"
    using sender_empties[OF cap(1) recv send Cons.prems(1) refl] Cons.prems(2) by auto
  have zr: "exchange_reachable C block_mode sys socket_fd z" by (rule runs_reachable[OF z(1) Cons.prems(1)])
  have sink: "sink_ok C block_mode (x_events z)"
    using exchange_invariant[OF cap(1) recv send zr] by (simp add: exchange_inv_def)
  obtain rb where rb: "rb_push C ev (x_events z) = (True, rb)" "rb_items C rb = [ev]"
    using sink.push_room[OF sink, of ev] z(2) cap(2) by auto
  let ?z = "z\<lparr>x_raised := evs, x_events := rb, x_lost := x_lost z \<or> \<not> True\<rparr>"
  have run: "runs C block_mode sys outgoing socket_fd z ?z"
    by (rule runs_step[OF exchange_step.push_event[OF z(5) rb(1)], where raised = "[]"])
       (use z(2,5) rb(2) in simp_all)
  from Cons.IH[OF runs_reachable[OF run zr]] obtain y where y: "runs C block_mode sys outgoing socket_fd ?z y"
    "rb_items C (x_events y) = [] \<and> x_raised y = [] \<and> x_parsed y = x_parsed z \<and>
     x_messages y = x_messages z \<and> x_book y = x_book z \<and> x_done y = x_done z"
    by auto
  with z(3-) runs_trans[OF z(1) runs_trans[OF run y(1)]] show ?case by auto
qed

section \<open>The engine\<close>

text \<open>An iteration of the engine ends the program.\<close>

definition aborts :: "BufSize \<Rightarrow> bool \<Rightarrow> 's Exchange \<Rightarrow> bool" where
  "aborts C block_mode x \<longleftrightarrow> (\<exists>e. consume_messages C block_mode [True] (x_messages x) (x_book x) = Inl e)"

lemma engine_runs:
  assumes cap: "cap_ok C" "1 < unat C" and recv: "recv_law (sys_recv sys) incoming"
    and send: "send_law (sys_send sys) outgoing" and reach: "exchange_reachable C block_mode sys socket_fd x"
    and raised: "x_raised x = []" and items: "rb_items C (x_messages x) = m # ms"
    and alive: "\<not> aborts C block_mode x"
  obtains y where "runs C block_mode sys outgoing socket_fd x y" and "rb_items C (x_events y) = []" and "x_raised y = []"
    and "x_parsed y = x_parsed x" and "rb_items C (x_messages y) = ms" and "x_done y = x_done x @ [m]"
proof -
  have sink: "sink_ok C block_mode (x_messages x)"
    using exchange_invariant[OF cap(1) recv send reach] by (simp add: exchange_inv_def)
  obtain rb book where run: "consume_messages C block_mode [True] (x_messages x) (x_book x) = Inr (rb, book)"
    using alive by (cases "consume_messages C block_mode [True] (x_messages x) (x_book x)") (auto simp: aborts_def)
  have rb: "rb_items C rb = ms"
    using consume_messages_spec[OF sink, of "[True]" "x_book x"] run items by (auto split: sum.splits)
  obtain evs where evs: "event_sink book = event_sink (x_book x) @ evs"
    using engine_appends[OF sink run] by blast
  let ?z = "x\<lparr>x_messages := rb, x_book := book, x_raised := evs,
      x_done := x_done x @ take 1 (rb_items C (x_messages x))\<rparr>"
  have z: "runs C block_mode sys outgoing socket_fd x ?z"
    by (rule runs_step[OF exchange_step.engine[OF raised run evs], where raised = evs])
       (use rb items raised evs in simp_all)
  from events_drain[OF cap recv send runs_reachable[OF z reach] refl] obtain y where
    y: "runs C block_mode sys outgoing socket_fd ?z y" "rb_items C (x_events y) = []" "x_raised y = []"
    "x_parsed y = x_parsed x" "x_messages y = rb" "x_done y = x_done x @ [m]"
    using items by auto
  show thesis by (rule that[OF runs_trans[OF z y(1)] y(2-4) _ y(6)]) (simp add: y(5) rb)
qed

lemma messages_drain:
  assumes cap: "cap_ok C" "1 < unat C" and recv: "recv_law (sys_recv sys) incoming"
    and send: "send_law (sys_send sys) outgoing"
  shows "\<lbrakk> exchange_reachable C block_mode sys socket_fd x; x_raised x = []; rb_items C (x_events x) = [];
      rb_items C (x_messages x) = ms \<rbrakk> \<Longrightarrow>
    \<exists>y. runs C block_mode sys outgoing socket_fd x y \<and> rb_items C (x_events y) = [] \<and> x_raised y = [] \<and>
      x_parsed y = x_parsed x \<and>
      (rb_items C (x_messages y) = [] \<and> x_done y = x_done x @ ms \<or> aborts C block_mode y)"
proof (induction ms arbitrary: x)
  case Nil
  then show ?case using runs_refl by blast
next
  case (Cons m ms)
  show ?case
  proof (cases "aborts C block_mode x")
    case True
    with Cons.prems runs_refl show ?thesis by blast
  next
    case False
    obtain z where z: "runs C block_mode sys outgoing socket_fd x z" "rb_items C (x_events z) = []" "x_raised z = []"
      "x_parsed z = x_parsed x" "rb_items C (x_messages z) = ms" "x_done z = x_done x @ [m]"
      by (rule engine_runs[OF cap recv send Cons.prems(1,2,4) False])
    from Cons.IH[OF runs_reachable[OF z(1) Cons.prems(1)] z(3,2,5)] z(4,6) runs_trans[OF z(1)]
    show ?thesis by auto
  qed
qed

section \<open>The network thread's messages\<close>

lemma parsed_drain:
  assumes cap: "cap_ok C" "1 < unat C" and recv: "recv_law (sys_recv sys) incoming"
    and send: "send_law (sys_send sys) outgoing"
  shows "\<lbrakk> exchange_reachable C block_mode sys socket_fd x; x_raised x = []; rb_items C (x_events x) = [];
      x_parsed x = ms \<rbrakk> \<Longrightarrow>
    \<exists>y. runs C block_mode sys outgoing socket_fd x y \<and> rb_items C (x_events y) = [] \<and> x_raised y = [] \<and>
      (x_parsed y = [] \<and> rb_items C (x_messages y) = [] \<and>
         x_done y = x_done x @ rb_items C (x_messages x) @ ms \<or> aborts C block_mode y)"
proof (induction ms arbitrary: x)
  case Nil
  with messages_drain[OF cap recv send Nil.prems(1-3) refl] show ?case by auto
next
  case (Cons m ms)
  obtain z where z: "runs C block_mode sys outgoing socket_fd x z" "rb_items C (x_events z) = []" "x_raised z = []"
    "x_parsed z = m # ms"
    "rb_items C (x_messages z) = [] \<and> x_done z = x_done x @ rb_items C (x_messages x) \<or> aborts C block_mode z"
    using messages_drain[OF cap recv send Cons.prems(1-3) refl] Cons.prems(4) by auto
  show ?case
  proof (cases "aborts C block_mode z")
    case True
    with z show ?thesis by blast
  next
    case False
    with z(5) have queue: "rb_items C (x_messages z) = []" "x_done z = x_done x @ rb_items C (x_messages x)"
      by simp_all
    have zr: "exchange_reachable C block_mode sys socket_fd z" by (rule runs_reachable[OF z(1) Cons.prems(1)])
    have sink: "sink_ok C block_mode (x_messages z)"
      using exchange_invariant[OF cap(1) recv send zr] by (simp add: exchange_inv_def)
    obtain rb where rb: "rb_push C m (x_messages z) = (True, rb)" "rb_items C rb = [m]"
      using sink.push_room[OF sink, of m] queue cap(2) by auto
    let ?z = "z\<lparr>x_parsed := ms, x_messages := rb, x_lost := x_lost z \<or> \<not> True\<rparr>"
    have run: "runs C block_mode sys outgoing socket_fd z ?z"
      by (rule runs_step[OF exchange_step.push_message[OF z(4) rb(1)], where raised = "[]"])
         (use z(4) rb(2) queue in simp_all)
    from Cons.IH[OF runs_reachable[OF run zr]] z(2,3) obtain y where
      y: "runs C block_mode sys outgoing socket_fd ?z y" "rb_items C (x_events y) = []" "x_raised y = []"
      "x_parsed y = [] \<and> rb_items C (x_messages y) = [] \<and> x_done y = x_done z @ rb_items C rb @ ms \<or>
       aborts C block_mode y"
      by auto
    with queue(2) rb(2) runs_trans[OF z(1) runs_trans[OF run y(1)]] show ?thesis by auto
  qed
qed

text \<open>C10: The server can always finish its work: from every state it can reach, steps of the engine and
  the sender and pushes alone lead to one in which the connections are as they were and nothing is on
  its way: the engine has processed, in order, every message that was queued or about to be pushed,
  and the sender has taken, in order, every event that was queued or about to be pushed and every
  event that the book has pushed since, each once. When no call of \<open>send\<close> fails, the bytes of these events
  have gone to every connected client they are for, and the sender has reported no failure. Only
  a message on which the engine fails ends this before; then it is the next one, and all before it
  are processed. No thread waits for another one for ever.\<close>

theorem server_can_finish:
  assumes "cap_ok C" and "1 < unat C" and "recv_law (sys_recv sys) incoming"
    and "send_law (sys_send sys) outgoing" and "exchange_reachable C block_mode sys socket_fd x"
  shows "\<exists>y raised. (exchange_step C block_mode sys socket_fd)\<^sup>*\<^sup>* x y \<and> x_lost y = x_lost x \<and>
    fd_to_state (x_server y) = fd_to_state (x_server x) \<and>
    server_sink (x_server y) = server_sink (x_server x) \<and>
    rb_items C (x_events y) = [] \<and> x_raised y = [] \<and>
    event_sink (x_book y) = event_sink (x_book x) @ raised \<and>
    x_sent y = x_sent x @ rb_items C (x_events x) @ x_raised x @ raised \<and>
    (send_succeeds (sys_send sys) outgoing \<longrightarrow> x_failed y = x_failed x \<and>
       (\<forall>fd. outgoing (env (x_server y)) fd = outgoing (env (x_server x)) fd @ concat (map serialise_event
          (filter (shown fd x) (rb_items C (x_events x) @ x_raised x @ raised))))) \<and>
    x_done y @ rb_items C (x_messages y) @ x_parsed y = x_done x @ rb_items C (x_messages x) @ x_parsed x \<and>
    (x_parsed y = [] \<and> rb_items C (x_messages y) = [] \<or>
     (\<exists>e. consume_messages C block_mode [True] (x_messages y) (x_book y) = Inl e))"
proof -
  obtain z where z: "runs C block_mode sys outgoing socket_fd x z" "rb_items C (x_events z) = []" "x_raised z = []"
    "x_parsed z = x_parsed x" "x_messages z = x_messages x" "x_done z = x_done x"
    using events_drain[OF assms refl] by auto
  obtain y where y: "runs C block_mode sys outgoing socket_fd z y" "rb_items C (x_events y) = []" "x_raised y = []"
    "x_parsed y = [] \<and> rb_items C (x_messages y) = [] \<or> aborts C block_mode y"
    using parsed_drain[OF assms(1-4) runs_reachable[OF z(1) assms(5)] z(3,2) refl] by blast
  from runs_trans[OF z(1) y(1)] y(2,3) obtain raised where
    *: "event_sink (x_book y) = event_sink (x_book x) @ raised"
    "handed sys outgoing x y (rb_items C (x_events x) @ x_raised x @ raised)"
    unfolding runs_def by auto
  with runs_trans[OF z(1) y(1)] y(2-4) show ?thesis
    unfolding runs_def handed_def aborts_def by (intro exI[of _ y] exI[of _ raised]) blast
qed

text \<open>Here a message does: its quantity is zero.\<close>

theorem server_can_finish_witness:
  "\<exists>x y :: Net Exchange. rb_items 8 (x_messages x) = [zero_msg] \<and>
     (exchange_step 8 False net_system 3)\<^sup>*\<^sup>* x y \<and> rb_items 8 (x_messages y) = [zero_msg] \<and>
     (\<exists>e. consume_messages 8 False [True] (x_messages y) (x_book y) = Inl e)"
proof -
  obtain h where read: "serving_step net_system 3 zero_accepted (\<lambda>_. (0, [])) zero_served h"
    "server_sink zero_served = [zero_msg]"
    by (rule zero_reads)
  obtain x where x: "exchange_reachable 8 False net_system 3 x" "rb_items 8 (x_messages x) = [zero_msg]"
    "x_done x = []" "x_parsed x = []"
    by (rule exchange_receives[OF zero_accepts(1,2) read])
  have "1 < unat (8 :: BufSize)" by simp
  from server_can_finish[OF cap_8 this net_recv_law net_send_law x(1)] x(2-4) obtain y where
    y: "(exchange_step 8 False net_system 3)\<^sup>*\<^sup>* x y"
    "x_done y @ rb_items 8 (x_messages y) @ x_parsed y = [zero_msg]"
    "x_parsed y = [] \<and> rb_items 8 (x_messages y) = [] \<or>
     (\<exists>e. consume_messages 8 False [True] (x_messages y) (x_book y) = Inl e)"
    by auto
  from y(1) have reach: "exchange_reachable 8 False net_system 3 y"
    by (induction rule: rtranclp_induct) (use x(1) in \<open>auto intro: exchange_reachable.stepped\<close>)
  from exchange_messages(1)[OF cap_8 net_recv_law net_send_law this]
  have "process_all (x_done y) new_OrderBook = Inr (x_book y)" .
  moreover have "process zero_msg new_OrderBook = Inl Quantity_not_positive"
    by (rule process_error) (simp_all add: new_OrderBook_ok zero_msg_def gtc_add_def add_error_def
        in_i64_def i64_min_def i64_max_def del: process.simps)
  ultimately have "x_done y \<noteq> [zero_msg]" by (auto simp del: process.simps)
  with y(2) have "x_done y = []" "x_parsed y = [] \<Longrightarrow> rb_items 8 (x_messages y) = [zero_msg]"
    by (auto simp: append_eq_Cons_conv)
  note fails = this
  have "x_parsed y = [] \<and> rb_items 8 (x_messages y) = [] \<Longrightarrow> False" using fails y(2) by simp
  then obtain e where e: "consume_messages 8 False [True] (x_messages y) (x_book y) = Inl e" using y(3) by blast
  have "rb_items 8 (x_messages y) \<noteq> []"
    using e consume_empty[OF reachable_sinks(1)[OF reach], of "[True]"] by (auto simp del: consume_messages.simps)
  then have "rb_items 8 (x_messages y) = [zero_msg]" using fails y(2) by (auto simp: append_eq_Cons_conv)
  with x(2) y(1) e show ?thesis by blast
qed

end
