(* ===== verification/Decimal.thy ===== *)
theory Decimal
  imports Prelude
begin

text \<open>
  Decimal numbers as \<open>std::format\<close> and \<open>operator<<\<close> write them and as \<open>operator>>\<close> reads them: digits
  with the most significant first, and a minus sign for a negative number.
\<close>

section \<open>Digits\<close>

definition is_digit :: "char \<Rightarrow> bool" where
  "is_digit c \<longleftrightarrow> 48 \<le> (of_char c :: nat) \<and> (of_char c :: nat) \<le> 57"

definition digit_char :: "nat \<Rightarrow> char" where
  "digit_char d = char_of (48 + d)"

definition digit_value :: "char \<Rightarrow> nat" where
  "digit_value c = of_char c - 48"

lemma of_digit_char: "d < 10 \<Longrightarrow> (of_char (digit_char d) :: nat) = 48 + d"
  by (simp add: digit_char_def of_char_of)

lemma digit_char_simps [simp]:
  "d < 10 \<Longrightarrow> is_digit (digit_char d)" "d < 10 \<Longrightarrow> digit_value (digit_char d) = d"
  by (simp_all add: is_digit_def digit_value_def of_digit_char)

section \<open>Writing\<close>

fun show_nat :: "nat \<Rightarrow> string" where
  "show_nat n = (if n < 10 then [digit_char n] else show_nat (n div 10) @ [digit_char (n mod 10)])"

declare show_nat.simps [simp del]

definition show_int :: "int \<Rightarrow> string" where
  "show_int n = (if n < 0 then CHR ''-'' # show_nat (nat (- n)) else show_nat (nat n))"

definition show_word :: "64 word \<Rightarrow> string" where
  "show_word w = show_nat (unat w)"

definition show_bool :: "bool \<Rightarrow> string" where
  "show_bool b = (if b then ''true'' else ''false'')"

lemma show_nat_digits: "show_nat n \<noteq> []" "c \<in> set (show_nat n) \<Longrightarrow> is_digit c"
proof (induction n rule: show_nat.induct)
  case (1 n)
  case 1 show ?case by (subst show_nat.simps) simp
  case 2 then show ?case
    using "1.IH" by (subst (asm) show_nat.simps) (auto split: if_splits)
qed

section \<open>Reading\<close>

fun read_nat :: "nat \<Rightarrow> string \<Rightarrow> nat" where
  "read_nat acc [] = acc"
| "read_nat acc (c # cs) = read_nat (10 * acc + digit_value c) cs"

lemma read_nat_append: "read_nat acc (xs @ ys) = read_nat (read_nat acc xs) ys"
  by (induction acc xs rule: read_nat.induct) simp_all

lemma read_show_nat: "read_nat 0 (show_nat n) = n"
proof (induction n rule: show_nat.induct)
  case (1 n)
  then show ?case by (subst show_nat.simps) (simp add: read_nat_append)
qed

lemma show_nat_inject [simp]: "show_nat m = show_nat n \<longleftrightarrow> m = n"
  by (metis read_show_nat)

section \<open>A number followed by something else\<close>

definition no_digit :: "string \<Rightarrow> bool" where
  "no_digit s = (case s of [] \<Rightarrow> True | c # _ \<Rightarrow> \<not> is_digit c)"

lemma no_digit_simps [simp]: "no_digit []" "no_digit (c # s) \<longleftrightarrow> \<not> is_digit c"
  by (simp_all add: no_digit_def)

lemma takeWhile_show_nat:
  "no_digit s \<Longrightarrow> takeWhile is_digit (show_nat n @ s) = show_nat n"
  "no_digit s \<Longrightarrow> dropWhile is_digit (show_nat n @ s) = s"
  using show_nat_digits(2)[of _ n]
  by (cases s; simp add: takeWhile_append2 dropWhile_append2)+

lemma show_nat_append_eq [simp]:
  "\<lbrakk> no_digit x; no_digit y \<rbrakk> \<Longrightarrow> show_nat m @ x = show_nat n @ y \<longleftrightarrow> m = n \<and> x = y"
  by (metis takeWhile_show_nat show_nat_inject)

lemma minus_no_digit: "\<not> is_digit CHR ''-''"
  by (simp add: is_digit_def)

lemma show_nat_no_minus: "show_nat n @ x \<noteq> CHR ''-'' # y" "CHR ''-'' # y \<noteq> show_nat n @ x"
  using show_nat_digits(1)[of n] show_nat_digits(2)[of _ n] minus_no_digit by (cases "show_nat n"; auto)+

lemma show_int_append_eq [simp]:
  assumes "no_digit x" and "no_digit y"
  shows "show_int m @ x = show_int n @ y \<longleftrightarrow> m = n \<and> x = y"
  using assms show_nat_append_eq[OF assms, of "nat (- m)" "nat (- n)"]
    show_nat_append_eq[OF assms, of "nat m" "nat n"] show_nat_no_minus
  by (auto simp: show_int_def)

lemma show_int_inject [simp]: "show_int m = show_int n \<longleftrightarrow> m = n"
  using show_int_append_eq[of "[]" "[]" m n] by simp

lemma show_word_append_eq [simp]:
  "\<lbrakk> no_digit x; no_digit y \<rbrakk> \<Longrightarrow> show_word v @ x = show_word w @ y \<longleftrightarrow> v = w \<and> x = y"
  by (simp add: show_word_def word_unat_eq_iff)

lemma show_word_inject [simp]: "show_word v = show_word w \<longleftrightarrow> v = w"
  by (simp add: show_word_def word_unat_eq_iff)

text \<open>The characters of a number.\<close>

lemma show_set:
  "c \<in> set (show_word w) \<Longrightarrow> is_digit c" "c \<in> set (show_int n) \<Longrightarrow> is_digit c \<or> c = CHR ''-''"
  using show_nat_digits(2) by (auto simp: show_word_def show_int_def split: if_splits)

end
