(* ===== verification/Console.thy ===== *)
theory Console
  imports Decimal Event_Sender
begin

text \<open>
  The client's console (\<^verbatim>\<open>networking/input_handler.cpp\<close>) and the loop that sends what is typed
  (\<^verbatim>\<open>client/client.cpp\<close>). \<open>std::cin\<close> is the text still to come and its fail bit; \<open>>>\<close> to an integer
  skips white space, takes a sign and the digits that follow, and sets the fail bit when there are
  none, when the number does not fit, or when nothing is left. The prompts are not modelled.
\<close>

section \<open>Extraction from the console\<close>

record Cin =
  cin_rest :: string
  cin_fail :: bool

definition is_space :: "char \<Rightarrow> bool" where
  "is_space c \<longleftrightarrow> c = CHR '' '' \<or> (9 \<le> (of_char c :: nat) \<and> (of_char c :: nat) \<le> 13)"

text \<open>
  The value stored, \<open>None\<close> when the variable keeps what it had: on a stream that has failed or is at
  its end, the extraction does not begin. Otherwise the sign and the digits are read.
\<close>

definition split_sign :: "string \<Rightarrow> bool \<times> string" where
  "split_sign s =
     (case s of [] \<Rightarrow> (False, [])
      | c # t \<Rightarrow> if c = CHR ''-'' then (True, t) else if c = CHR ''+'' then (False, t) else (False, s))"

definition cin_digits :: "(bool \<Rightarrow> nat \<Rightarrow> int \<times> bool) \<Rightarrow> Cin \<Rightarrow> int option \<times> Cin" where
  "cin_digits convert cin =
     (if cin_fail cin then (None, cin)
      else let s = dropWhile is_space (cin_rest cin) in
        if s = [] then (None, \<lparr>cin_rest = [], cin_fail = True\<rparr>)
        else case split_sign s of (neg, t) \<Rightarrow>
          let ds = takeWhile is_digit t; r = dropWhile is_digit t in
          if ds = [] then (Some 0, \<lparr>cin_rest = r, cin_fail = True\<rparr>)
          else case convert neg (read_nat 0 ds) of (v, failed) \<Rightarrow>
            (Some v, \<lparr>cin_rest = r, cin_fail = failed\<rparr>))"

text \<open>A signed type of the range given: a number outside of it is clamped, and the extraction fails.\<close>

definition cin_signed :: "int \<Rightarrow> int \<Rightarrow> Cin \<Rightarrow> int option \<times> Cin" where
  "cin_signed lo hi cin =
     cin_digits (\<lambda>neg n. let v = (if neg then - int n else int n) in
       if v < lo then (lo, True) else if hi < v then (hi, True) else (v, False)) cin"

text \<open>\<open>uint64_t\<close>: the magnitude must fit; a minus sign negates modulo the width.\<close>

definition cin_u64 :: "Cin \<Rightarrow> int option \<times> Cin" where
  "cin_u64 cin =
     cin_digits (\<lambda>neg n. if 2 ^ 64 \<le> n then (2 ^ 64 - 1, True)
       else ((if neg then - int n else int n) mod 2 ^ 64, False)) cin"

definition cin_int :: "Cin \<Rightarrow> int option \<times> Cin" where
  "cin_int cin = cin_signed (- (2 ^ 31)) (2 ^ 31 - 1) cin"

definition cin_i64 :: "Cin \<Rightarrow> int option \<times> Cin" where
  "cin_i64 cin = cin_signed i64_min i64_max cin"

section \<open>Reading a message\<close>

definition use :: "int option \<Rightarrow> int res" where
  "use v = (case v of None \<Rightarrow> Inl UB_uninitialised | Some n \<Rightarrow> Inr n)"

definition read_add :: "Cin \<Rightarrow> Message res \<times> Cin" where
  "read_add cin =
     (case cin_u64 cin of (i, cin) \<Rightarrow> case cin_i64 cin of (p, cin) \<Rightarrow>
      case cin_i64 cin of (q, cin) \<Rightarrow> case cin_int cin of (sd, cin) \<Rightarrow>
      case cin_int cin of (tif, cin) \<Rightarrow>
        (rbind (use tif) (\<lambda>tif. rbind (use i) (\<lambda>i. rbind (use p) (\<lambda>p. rbind (use q) (\<lambda>q.
         rbind (use sd) (\<lambda>sd.
           Inr (Add_msg \<lparr>ao_order_type = Limit, ao_time_in_force = TimeInForce_of tif,
             ao_client_order_id = word_of_int i, ao_price = p, ao_quantity = q,
             ao_side = Side_of sd, ao_connection_id = -1, ao_seq = 1\<rparr>)))))), cin))"

definition read_modify :: "Cin \<Rightarrow> Message res \<times> Cin" where
  "read_modify cin =
     (case cin_u64 cin of (i, cin) \<Rightarrow> case cin_i64 cin of (p, cin) \<Rightarrow>
      case cin_i64 cin of (q, cin) \<Rightarrow>
        (rbind (use i) (\<lambda>i. rbind (use p) (\<lambda>p. rbind (use q) (\<lambda>q.
           Inr (Modify_msg \<lparr>mo_id = word_of_int i, mo_new_price = p, mo_new_quantity = q,
             mo_connection_id = -1, mo_seq = 1\<rparr>)))), cin))"

definition read_cancel :: "Cin \<Rightarrow> Message res \<times> Cin" where
  "read_cancel cin =
     (case cin_u64 cin of (i, cin) \<Rightarrow>
        (rbind (use i) (\<lambda>i. Inr (Cancel_msg \<lparr>co_id = word_of_int i, co_connection_id = -1, co_seq = 1\<rparr>)),
         cin))"

definition ignore_line :: "string \<Rightarrow> string" where
  "ignore_line s = drop 1 (dropWhile (\<lambda>c. c \<noteq> CHR 0x0A) s)"

text \<open>The loop may run forever; its result is a message, or \<open>None\<close> for quit.\<close>

partial_function (option) read_message :: "Cin \<Rightarrow> (Message option res \<times> Cin) option" where
  "read_message cin =
     (case cin_int cin of (msg_typ, cin1) \<Rightarrow>
        if cin_fail cin1 then read_message \<lparr>cin_rest = ignore_line (cin_rest cin1), cin_fail = False\<rparr>
        else if msg_typ = Some 1 then
          (case read_add cin1 of (m, cin2) \<Rightarrow> Some (rbind m (\<lambda>m. Inr (Some m)), cin2))
        else if msg_typ = Some 2 then
          (case read_modify cin1 of (m, cin2) \<Rightarrow> Some (rbind m (\<lambda>m. Inr (Some m)), cin2))
        else if msg_typ = Some 3 then
          (case read_cancel cin1 of (m, cin2) \<Rightarrow> Some (rbind m (\<lambda>m. Inr (Some m)), cin2))
        else if msg_typ = Some (-1) then Some (Inr None, cin1)
        else read_message cin1)"

declare read_message.simps [code]

text \<open>The loop of the client's \<open>main\<close>: send every message until quit; the result of a send is ignored.\<close>

partial_function (option) client_loop ::
  "'s send \<Rightarrow> int \<Rightarrow> Cin \<Rightarrow> 's \<Rightarrow> (unit res \<times> Cin \<times> 's) option"
where
  "client_loop send fd cin s =
     (case read_message cin of
        None \<Rightarrow> None
      | Some (Inl e, cin') \<Rightarrow> Some (Inl e, cin', s)
      | Some (Inr None, cin') \<Rightarrow> Some (Inr (), cin', s)
      | Some (Inr (Some m), cin') \<Rightarrow>
          (case run_msg_sender send fd m s of
             None \<Rightarrow> None
           | Some s' \<Rightarrow> client_loop send fd cin' s'))"

declare client_loop.simps [code]

section \<open>A console that has nothing left\<close>

definition blank :: "string \<Rightarrow> bool" where
  "blank s \<longleftrightarrow> (\<forall>c \<in> set s. is_space c)"

lemma ignore_line_blank: "blank s \<Longrightarrow> blank (ignore_line s)"
  unfolding ignore_line_def blank_def by (meson in_set_dropD set_dropWhileD)

lemma cin_int_blank:
  assumes "blank (cin_rest cin)" shows "cin_fail (snd (cin_int cin))" and "blank (cin_rest (snd (cin_int cin)))"
proof -
  have "dropWhile is_space (cin_rest cin) = []" using assms by (simp add: blank_def)
  then show "cin_fail (snd (cin_int cin))" "blank (cin_rest (snd (cin_int cin)))"
    using assms by (simp_all add: cin_int_def cin_signed_def cin_digits_def blank_def)
qed

text \<open>Whenever the loop returns, there was something other than white space to read.\<close>

lemma read_message_needs_input:
  assumes "read_message cin = Some r" shows "\<not> blank (cin_rest cin)"
proof (rule read_message.raw_induct[OF _ assms])
  fix f cin r
  assume rec: "\<And>cin r. f cin = Some r \<Longrightarrow> \<not> blank (cin_rest cin)"
    and body: "(case cin_int cin of (msg_typ, cin1) \<Rightarrow>
        if cin_fail cin1 then f \<lparr>cin_rest = ignore_line (cin_rest cin1), cin_fail = False\<rparr>
        else if msg_typ = Some 1 then
          (case read_add cin1 of (m, cin2) \<Rightarrow> Some (rbind m (\<lambda>m. Inr (Some m)), cin2))
        else if msg_typ = Some 2 then
          (case read_modify cin1 of (m, cin2) \<Rightarrow> Some (rbind m (\<lambda>m. Inr (Some m)), cin2))
        else if msg_typ = Some 3 then
          (case read_cancel cin1 of (m, cin2) \<Rightarrow> Some (rbind m (\<lambda>m. Inr (Some m)), cin2))
        else if msg_typ = Some (-1) then Some (Inr None, cin1)
        else f cin1) = Some r"
  show "\<not> blank (cin_rest cin)"
  proof
    assume bl: "blank (cin_rest cin)"
    obtain t cin1 where c: "cin_int cin = (t, cin1)" by fastforce
    have "cin_fail cin1" "blank (cin_rest cin1)" using cin_int_blank[OF bl] c by simp_all
    with body c rec[of "\<lparr>cin_rest = ignore_line (cin_rest cin1), cin_fail = False\<rparr>" r]
      ignore_line_blank[of "cin_rest cin1"] show False by simp
  qed
qed

section \<open>What is typed is what is read\<close>

text \<open>A number followed by a space or a newline.\<close>

lemma split_sign_show:
  "split_sign (show_int n @ s) = (n < 0, show_nat (nat \<bar>n\<bar>) @ s)"
proof (cases "n < 0")
  case False
  then obtain c t where c: "show_nat (nat n) = c # t" "is_digit c"
    using show_nat_digits(1)[of "nat n"] show_nat_digits(2)[of _ "nat n"] by (cases "show_nat (nat n)") auto
  then have "c \<noteq> CHR ''-''" "c \<noteq> CHR ''+''" by (auto simp: is_digit_def)
  with c False show ?thesis by (simp add: show_int_def split_sign_def)
qed (simp add: show_int_def split_sign_def)

lemma show_not_space: "is_digit c \<Longrightarrow> \<not> is_space c" "\<not> is_space CHR ''-''"
  by (auto simp: is_digit_def is_space_def)

lemma dropWhile_show_int: "dropWhile is_space (show_int n @ s) = show_int n @ s"
proof -
  obtain c t where "show_int n = c # t" "is_digit c \<or> c = CHR ''-''"
    using show_set(2)[of _ n] show_nat_digits(1)[of "nat n"]
    by (cases "show_int n") (auto simp: show_int_def split: if_splits)
  with show_not_space show ?thesis by auto
qed

lemma cin_digits_show:
  assumes "\<forall>c \<in> set w. is_space c" and "no_digit s"
  shows "cin_digits convert \<lparr>cin_rest = w @ show_int n @ s, cin_fail = False\<rparr> =
    (case convert (n < 0) (nat \<bar>n\<bar>) of (v, failed) \<Rightarrow> (Some v, \<lparr>cin_rest = s, cin_fail = failed\<rparr>))"
proof -
  have "dropWhile is_space (w @ show_int n @ s) = show_int n @ s"
    using assms(1) by (simp add: dropWhile_append2 dropWhile_show_int)
  moreover have "show_int n \<noteq> []" using show_nat_digits(1) by (simp add: show_int_def)
  ultimately show ?thesis
    using takeWhile_show_nat[OF assms(2), of "nat \<bar>n\<bar>"] show_nat_digits(1)[of "nat \<bar>n\<bar>"]
    by (simp add: cin_digits_def split_sign_show read_show_nat Let_def)
qed

lemma cin_show:
  assumes "\<forall>c \<in> set w. is_space c" and "no_digit s"
  shows "in_i64 n \<Longrightarrow> cin_i64 \<lparr>cin_rest = w @ show_int n @ s, cin_fail = False\<rparr> =
      (Some n, \<lparr>cin_rest = s, cin_fail = False\<rparr>)"
    and "- (2 ^ 31) \<le> n \<and> n < 2 ^ 31 \<Longrightarrow> cin_int \<lparr>cin_rest = w @ show_int n @ s, cin_fail = False\<rparr> =
      (Some n, \<lparr>cin_rest = s, cin_fail = False\<rparr>)"
    and "0 \<le> n \<and> n < 2 ^ 64 \<Longrightarrow> cin_u64 \<lparr>cin_rest = w @ show_int n @ s, cin_fail = False\<rparr> =
      (Some n, \<lparr>cin_rest = s, cin_fail = False\<rparr>)"
  using cin_digits_show[OF assms, of _ n]
  by (auto simp: cin_i64_def cin_int_def cin_u64_def cin_signed_def in_i64_def Let_def nat_less_iff)

fun typed :: "Message \<Rightarrow> string" where
  "typed (Add_msg m) = ''1 '' @ show_int (uint (ao_client_order_id m)) @ '' '' @ show_int (ao_price m) @
     '' '' @ show_int (ao_quantity m) @ '' '' @ show_int (Side_code (ao_side m)) @ '' '' @
     show_int (TimeInForce_code (ao_time_in_force m))"
| "typed (Modify_msg m) = ''2 '' @ show_int (uint (mo_id m)) @ '' '' @ show_int (mo_new_price m) @ '' '' @
     show_int (mo_new_quantity m)"
| "typed (Cancel_msg m) = ''3 '' @ show_int (uint (co_id m))"

text \<open>The messages that can be typed: limit orders, and no connection or sequence number yet.\<close>

fun typeable :: "Message \<Rightarrow> bool" where
  "typeable (Add_msg m) \<longleftrightarrow> order_wire_ok (Add_msg m) \<and> ao_order_type m = Limit \<and>
     ao_connection_id m = -1 \<and> ao_seq m = 1"
| "typeable (Modify_msg m) \<longleftrightarrow> order_wire_ok (Modify_msg m) \<and> mo_connection_id m = -1 \<and> mo_seq m = 1"
| "typeable (Cancel_msg m) \<longleftrightarrow> co_connection_id m = -1 \<and> co_seq m = 1"

lemma separators [simp]: "\<not> is_digit CHR '' ''" "\<not> is_digit CHR 0x0A" "is_space CHR '' ''" "is_space CHR 0x0A"
  by (simp_all add: is_digit_def is_space_def)

lemma cin_menu:
  assumes "\<forall>c \<in> set w. is_space c" and "no_digit s"
  shows "cin_int \<lparr>cin_rest = w @ ''1'' @ s, cin_fail = False\<rparr> = (Some 1, \<lparr>cin_rest = s, cin_fail = False\<rparr>)"
    and "cin_int \<lparr>cin_rest = w @ ''2'' @ s, cin_fail = False\<rparr> = (Some 2, \<lparr>cin_rest = s, cin_fail = False\<rparr>)"
    and "cin_int \<lparr>cin_rest = w @ ''3'' @ s, cin_fail = False\<rparr> = (Some 3, \<lparr>cin_rest = s, cin_fail = False\<rparr>)"
    and "cin_int \<lparr>cin_rest = w @ ''-1'' @ s, cin_fail = False\<rparr> = (Some (-1), \<lparr>cin_rest = s, cin_fail = False\<rparr>)"
proof -
  have texts: "show_int 1 = ''1''" "show_int 2 = ''2''" "show_int 3 = ''3''" "show_int (-1) = ''-1''"
    by code_simp+
  show "cin_int \<lparr>cin_rest = w @ ''1'' @ s, cin_fail = False\<rparr> = (Some 1, \<lparr>cin_rest = s, cin_fail = False\<rparr>)"
    "cin_int \<lparr>cin_rest = w @ ''2'' @ s, cin_fail = False\<rparr> = (Some 2, \<lparr>cin_rest = s, cin_fail = False\<rparr>)"
    "cin_int \<lparr>cin_rest = w @ ''3'' @ s, cin_fail = False\<rparr> = (Some 3, \<lparr>cin_rest = s, cin_fail = False\<rparr>)"
    "cin_int \<lparr>cin_rest = w @ ''-1'' @ s, cin_fail = False\<rparr> = (Some (-1), \<lparr>cin_rest = s, cin_fail = False\<rparr>)"
    using cin_show(2)[OF assms, of 1] cin_show(2)[OF assms, of 2] cin_show(2)[OF assms, of 3]
      cin_show(2)[OF assms, of "-1"] unfolding texts by simp_all
qed

text \<open>The number after a space.\<close>

lemma cin_next:
  assumes "no_digit s"
  shows "in_i64 n \<Longrightarrow> cin_i64 \<lparr>cin_rest = CHR '' '' # show_int n @ s, cin_fail = False\<rparr> =
      (Some n, \<lparr>cin_rest = s, cin_fail = False\<rparr>)"
    and "Side_valid sd \<Longrightarrow> cin_int \<lparr>cin_rest = CHR '' '' # show_int (Side_code sd) @ s, cin_fail = False\<rparr> =
      (Some (Side_code sd), \<lparr>cin_rest = s, cin_fail = False\<rparr>)"
    and "TimeInForce_valid tif \<Longrightarrow>
      cin_int \<lparr>cin_rest = CHR '' '' # show_int (TimeInForce_code tif) @ s, cin_fail = False\<rparr> =
      (Some (TimeInForce_code tif), \<lparr>cin_rest = s, cin_fail = False\<rparr>)"
    and "cin_u64 \<lparr>cin_rest = CHR '' '' # show_int (uint (x :: 64 word)) @ s, cin_fail = False\<rparr> =
      (Some (uint x), \<lparr>cin_rest = s, cin_fail = False\<rparr>)"
proof -
  have sp: "\<forall>c \<in> set '' ''. is_space c" by simp
  note shown = cin_show[OF sp assms, unfolded append.simps]
  show "in_i64 n \<Longrightarrow> cin_i64 \<lparr>cin_rest = CHR '' '' # show_int n @ s, cin_fail = False\<rparr> =
      (Some n, \<lparr>cin_rest = s, cin_fail = False\<rparr>)"
    by (rule shown(1))
  show "Side_valid sd \<Longrightarrow> cin_int \<lparr>cin_rest = CHR '' '' # show_int (Side_code sd) @ s, cin_fail = False\<rparr> =
      (Some (Side_code sd), \<lparr>cin_rest = s, cin_fail = False\<rparr>)"
    by (rule shown(2)) (auto simp: Side_valid_def)
  show "TimeInForce_valid tif \<Longrightarrow>
      cin_int \<lparr>cin_rest = CHR '' '' # show_int (TimeInForce_code tif) @ s, cin_fail = False\<rparr> =
      (Some (TimeInForce_code tif), \<lparr>cin_rest = s, cin_fail = False\<rparr>)"
    by (rule shown(2)) (auto simp: TimeInForce_valid_def)
  show "cin_u64 \<lparr>cin_rest = CHR '' '' # show_int (uint x) @ s, cin_fail = False\<rparr> =
      (Some (uint x), \<lparr>cin_rest = s, cin_fail = False\<rparr>)"
    by (rule shown(3)) (use uint_range_size[of x] in \<open>simp add: word_size\<close>)
qed

lemma read_parts:
  assumes "no_digit s"
  shows "typeable (Add_msg a) \<Longrightarrow>
      read_add \<lparr>cin_rest = CHR '' '' # drop 2 (typed (Add_msg a)) @ s, cin_fail = False\<rparr> =
      (Inr (Add_msg a), \<lparr>cin_rest = s, cin_fail = False\<rparr>)"
    and "typeable (Modify_msg b) \<Longrightarrow>
      read_modify \<lparr>cin_rest = CHR '' '' # drop 2 (typed (Modify_msg b)) @ s, cin_fail = False\<rparr> =
      (Inr (Modify_msg b), \<lparr>cin_rest = s, cin_fail = False\<rparr>)"
    and "typeable (Cancel_msg c) \<Longrightarrow>
      read_cancel \<lparr>cin_rest = CHR '' '' # drop 2 (typed (Cancel_msg c)) @ s, cin_fail = False\<rparr> =
      (Inr (Cancel_msg c), \<lparr>cin_rest = s, cin_fail = False\<rparr>)"
  using assms
  subgoal by (cases a) (simp add: read_add_def use_def cin_next enum_ranges)
  subgoal using assms by (cases b) (simp add: read_modify_def use_def cin_next)
  subgoal using assms by (cases c) (simp add: read_cancel_def use_def cin_next)
  done

lemma read_message_menu:
  assumes "\<forall>c \<in> set w. is_space c"
  shows "read_message \<lparr>cin_rest = w @ ''1 '' @ s, cin_fail = False\<rparr> =
      (case read_add \<lparr>cin_rest = CHR '' '' # s, cin_fail = False\<rparr> of
         (m, cin2) \<Rightarrow> Some (rbind m (\<lambda>m. Inr (Some m)), cin2))"
    and "read_message \<lparr>cin_rest = w @ ''2 '' @ s, cin_fail = False\<rparr> =
      (case read_modify \<lparr>cin_rest = CHR '' '' # s, cin_fail = False\<rparr> of
         (m, cin2) \<Rightarrow> Some (rbind m (\<lambda>m. Inr (Some m)), cin2))"
    and "read_message \<lparr>cin_rest = w @ ''3 '' @ s, cin_fail = False\<rparr> =
      (case read_cancel \<lparr>cin_rest = CHR '' '' # s, cin_fail = False\<rparr> of
         (m, cin2) \<Rightarrow> Some (rbind m (\<lambda>m. Inr (Some m)), cin2))"
  using cin_menu[OF assms, of "CHR '' '' # s"] by (subst read_message.simps, simp)+

lemma read_message_typed:
  assumes m: "typeable m" and w: "\<forall>c \<in> set w. is_space c" and s: "no_digit s"
  shows "read_message \<lparr>cin_rest = w @ typed m @ s, cin_fail = False\<rparr> =
    Some (Inr (Some m), \<lparr>cin_rest = s, cin_fail = False\<rparr>)"
proof (cases m)
  case (Add_msg a)
  have "typed m = ''1 '' @ drop 2 (typed m)" using Add_msg by simp
  with read_message_menu(1)[OF w, of "drop 2 (typed m) @ s"] read_parts(1)[OF s, of a] m Add_msg
  show ?thesis by (metis append.assoc case_prod_conv rbind_Inr)
next
  case (Modify_msg a)
  have "typed m = ''2 '' @ drop 2 (typed m)" using Modify_msg by simp
  with read_message_menu(2)[OF w, of "drop 2 (typed m) @ s"] read_parts(2)[OF s, of a] m Modify_msg
  show ?thesis by (metis append.assoc case_prod_conv rbind_Inr)
next
  case (Cancel_msg a)
  have "typed m = ''3 '' @ drop 2 (typed m)" using Cancel_msg by simp
  with read_message_menu(3)[OF w, of "drop 2 (typed m) @ s"] read_parts(3)[OF s, of a] m Cancel_msg
  show ?thesis by (metis append.assoc case_prod_conv rbind_Inr)
qed

section \<open>A session\<close>

definition session :: "Message list \<Rightarrow> string" where
  "session ms = concat (map (\<lambda>m. typed m @ [CHR 0x0A]) ms) @ ''-1'' @ [CHR 0x0A]"

lemma client_loop_session:
  assumes ok: "send_succeeds send outgoing"
  shows "\<lbrakk> \<forall>m \<in> set ms. typeable m; \<forall>c \<in> set w. is_space c \<rbrakk> \<Longrightarrow>
    \<exists>cin' s'. client_loop send fd \<lparr>cin_rest = w @ session ms, cin_fail = False\<rparr> s = Some (Inr (), cin', s') \<and>
      outgoing s' fd = outgoing s fd @ concat (map serialise_order ms)"
proof (induction ms arbitrary: w s)
  case Nil
  have "read_message \<lparr>cin_rest = w @ session [], cin_fail = False\<rparr> =
      Some (Inr None, \<lparr>cin_rest = [CHR 0x0A], cin_fail = False\<rparr>)"
    using cin_menu(4)[OF Nil.prems(2), of "[CHR 0x0A]"]
    by (subst read_message.simps) (simp add: session_def)
  then show ?case by (subst client_loop.simps) simp
next
  case (Cons m ms)
  have m: "typeable m" and ms: "\<forall>m \<in> set ms. typeable m" using Cons.prems(1) by simp_all
  have read: "read_message \<lparr>cin_rest = w @ session (m # ms), cin_fail = False\<rparr> =
      Some (Inr (Some m), \<lparr>cin_rest = [CHR 0x0A] @ session ms, cin_fail = False\<rparr>)"
    using read_message_typed[OF m Cons.prems(2), of "CHR 0x0A # session ms"]
    by (simp add: session_def)
  obtain s1 where s1: "send_all send fd (serialise_order m) s = Some (int (length (serialise_order m)), s1)"
    "outgoing s1 fd = outgoing s fd @ serialise_order m"
    using send_loop_succeeds[OF ok, of 0 "serialise_order m" fd s] by (auto simp: send_all_def)
  from Cons.IH[OF ms, of "[CHR 0x0A]" s1] obtain cin' s' where
    "client_loop send fd \<lparr>cin_rest = [CHR 0x0A] @ session ms, cin_fail = False\<rparr> s1 = Some (Inr (), cin', s')"
    "outgoing s' fd = outgoing s1 fd @ concat (map serialise_order ms)"
    by auto
  then show ?case
    using read s1 by (subst client_loop.simps) (simp add: run_msg_sender_def send_msg_def)
qed

end
