(* ===== verification/Printing.thy ===== *)
theory Printing
  imports Decimal Engine
begin

text \<open>
  The texts the program prints: the events (\<^verbatim>\<open>orderbook/order_event.cpp\<close>) and the client's log of
  them (\<^verbatim>\<open>engine/event_consumer.cpp\<close>), and the debug texts of trades, orders, price levels and the book
  (\<^verbatim>\<open>orderbook/trade.cpp\<close>, \<^verbatim>\<open>order.cpp\<close>, \<^verbatim>\<open>price_level.cpp\<close>, \<^verbatim>\<open>order_book.tpp\<close>). A text is the
  list of its characters.
\<close>

section \<open>Events\<close>

fun private_to_string :: "PrivateEvent \<Rightarrow> string" where
  "private_to_string (OrderRested oid cid q) =
     ''Order '' @ show_word oid @ '' rested (client_order_id='' @ show_word cid @ '') remaining='' @
     show_int q"
| "private_to_string (OrderFilled oid cid) =
     ''Order '' @ show_word oid @ '' fully filled (client_order_id='' @ show_word cid @ '')''"
| "private_to_string (OrderExpired oid cid) =
     ''Order '' @ show_word oid @ '' expired (client_order_id='' @ show_word cid @ '')''"
| "private_to_string (OrderRejected oid r) =
     ''Rejected order '' @ show_word oid @ '' | Reason: '' @ RejectReason_to_string r"
| "private_to_string (OrderCanceled oid) = ''Cancelled order '' @ show_word oid"
| "private_to_string (CancelRejected oid r) =
     ''Rejected cancelling order '' @ show_word oid @ '' | Reason: '' @ RejectReason_to_string r"
| "private_to_string (OrderModified oid p q) =
     ''Modified order '' @ show_word oid @ '' with new price: '' @ show_int p @ '', new quantity: '' @
     show_int q"
| "private_to_string (ModifyRejected oid r) =
     ''Rejected modifying order '' @ show_word oid @ '' | Reason: '' @ RejectReason_to_string r"

fun public_to_string :: "PublicEvent \<Rightarrow> string" where
  "public_to_string (TradeExecuted b s p q a) =
     ''Trade executed between sell order '' @ show_word s @ '' and buy order '' @ show_word b @
     '' at price: '' @ show_int p @ '', quantity: '' @ show_int q"
| "public_to_string (BookUpdate sd p q) =
     ''BookUpdate '' @ (if sd = Buy then ''Bid'' else ''Ask'') @ '' @ '' @ show_int p @ '' -> qty='' @
     show_int q"

definition newline :: string where
  "newline = [CHR 0x0A]"

text \<open>The line \<open>consume_events\<close> prints for an event, and the one of \<open>operator<<\<close> for a routed event.\<close>

fun event_line :: "Event \<Rightarrow> string" where
  "event_line (Routed conn ev) =
     ''[PRIVATE conn='' @ show_int conn @ ''] '' @ private_to_string ev @ newline"
| "event_line (Public ev) = ''[PUBLIC] '' @ public_to_string ev @ newline"

definition routed_to_string :: "int \<Rightarrow> PrivateEvent \<Rightarrow> string" where
  "routed_to_string conn ev = ''[conn='' @ show_int conn @ ''] '' @ private_to_string ev"

text \<open>The client's consumer loop, given the values of \<open>running\<close> that its tests read, and what it prints.\<close>

fun consume_events :: "BufSize \<Rightarrow> bool \<Rightarrow> bool list \<Rightarrow> Event RingBuffer \<Rightarrow> string \<times> Event RingBuffer" where
  "consume_events C block_mode [] sink = ([], sink)"
| "consume_events C block_mode (running # flags) sink =
     (if loop_test running sink then
        (case sink_pop C block_mode sink of
           (None, sink') \<Rightarrow> consume_events C block_mode flags sink'
         | (Some item, sink') \<Rightarrow>
             (case consume_events C block_mode flags sink' of (out, r) \<Rightarrow> (event_line item @ out, r)))
      else ([], sink))"

section \<open>Trades, orders, levels and the book\<close>

definition Trade_to_string :: "Trade \<Rightarrow> string" where
  "Trade_to_string t =
     ''Trade executed between buy order '' @ show_word (info_order_id (buyer t)) @
     '' and sell order '' @ show_word (info_order_id (seller t)) @ '' at price: '' @
     show_int (execution_price t) @ '', quantity: '' @ show_int (execution_quantity t) @ newline"

definition trades_to_string :: "OrderBook \<Rightarrow> string" where
  "trades_to_string b = concat (map Trade_to_string (trades b))"

text \<open>The first field, labelled \<open>type\<close>, is the time in force.\<close>

definition Order_to_string :: "Order \<Rightarrow> string" where
  "Order_to_string ord =
     ''Order{type = '' @ TimeInForce_to_string (time_in_force ord) @ '', id = '' @
     show_word (order_id ord) @ '', price = '' @ show_int (price ord) @ '', initial quantity = '' @
     show_int (initial_quantity ord) @ '', remaining quantity = '' @
     show_int (remaining_quantity ord) @ '', side = '' @ Side_to_string (side ord) @
     '', sequence number = '' @ show_word (sequence_number ord) @ '', filled = '' @
     show_bool (is_filled ord) @ ''}''"

text \<open>What the text calls the type is the time in force: the type of an order is not in it.\<close>

lemma order_type_not_printed: "Order_to_string (ord\<lparr>order_type := t\<rparr>) = Order_to_string ord"
  by (simp add: Order_to_string_def is_filled_def)

fun numbered_orders :: "nat \<Rightarrow> Order list \<Rightarrow> string" where
  "numbered_orders i [] = []"
| "numbered_orders i (ord # ords) =
     ''Order '' @ show_nat (Suc i) @ '' -> '' @ Order_to_string ord @ newline @
     numbered_orders (Suc i) ords"

definition PriceLevel_to_string :: "PriceLevel \<Rightarrow> string" where
  "PriceLevel_to_string lvl =
     ''==================Price level '' @ show_int (level_price lvl) @ ''=================='' @ newline @
     ''total quantity = '' @ show_int (total_quantity lvl) @ ''  |   orders count = '' @
     show_nat (get_order_count lvl) @ newline @
     numbered_orders 0 (map snd (orders lvl)) @
     ''==============================================='' @ newline"

definition AddOrderResult_to_string :: "AddOrderResult \<Rightarrow> string" where
  "AddOrderResult_to_string r =
     ''Order status: '' @ AddOrderStatus_to_string (status r) @ '', execution quantity: '' @
     show_int (res_execution_quantity r) @ '', remaining quantity: '' @ show_int (res_remaining_quantity r)"

definition levels_to_string :: "Levels \<Rightarrow> string" where
  "levels_to_string levels =
     concat (map (\<lambda>(p, lvl). show_int p @ '' -> total_quantity = '' @ show_int (total_quantity lvl) @
       '' | orders = '' @ show_nat (get_order_count lvl) @ newline) levels)"

definition OrderBook_to_string :: "OrderBook \<Rightarrow> string" where
  "OrderBook_to_string b =
     ''================ ORDER BOOK ================'' @ newline @
     ''Asks (Sellers):'' @ newline @ levels_to_string (asks b) @
     ''Bids (Buyers):'' @ newline @ levels_to_string (bids b) @
     ''============================================'' @ newline"

section \<open>A line determines its event\<close>

text \<open>
  What a line does not show: the aggressor of a trade; a side that is neither is printed as an ask;
  and reject reasons without a name.
\<close>

definition named_reason :: "RejectReason \<Rightarrow> bool" where
  "named_reason r \<longleftrightarrow> (\<forall>n. r \<noteq> Reason_raw n)"

fun loggable :: "Event \<Rightarrow> bool" where
  "loggable (Routed _ (OrderRejected _ r)) \<longleftrightarrow> named_reason r"
| "loggable (Routed _ (CancelRejected _ r)) \<longleftrightarrow> named_reason r"
| "loggable (Routed _ (ModifyRejected _ r)) \<longleftrightarrow> named_reason r"
| "loggable (Public (BookUpdate s _ _)) \<longleftrightarrow> Side_valid s"
| "loggable _ \<longleftrightarrow> True"

fun logged :: "Event \<Rightarrow> Event" where
  "logged (Public (TradeExecuted b s p q _)) = Public (TradeExecuted b s p q Buy)"
| "logged ev = ev"

lemma reason_inject:
  "\<lbrakk> named_reason r; named_reason r' \<rbrakk> \<Longrightarrow> RejectReason_to_string r = RejectReason_to_string r' \<longleftrightarrow> r = r'"
  by (cases r; cases r') (auto simp: named_reason_def)

lemma not_digits [simp]: "\<not> is_digit CHR '' ''" "\<not> is_digit CHR '')''" "\<not> is_digit CHR '']''"
    "\<not> is_digit CHR '',''" "\<not> is_digit CHR 0x0A"
  by (simp_all add: is_digit_def)

lemma private_line_inject:
  assumes "loggable (Routed c ev)" and "loggable (Routed c ev')"
    and "private_to_string ev @ newline = private_to_string ev' @ newline"
  shows "ev = ev'"
  using assms by (cases ev; cases ev') (auto simp: reason_inject newline_def)

lemma public_line_inject:
  assumes "loggable (Public ev)" and "loggable (Public ev')"
    and "public_to_string ev @ newline = public_to_string ev' @ newline"
  shows "logged (Public ev) = logged (Public ev')"
  using assms by (cases ev; cases ev') (auto simp: newline_def Side_valid_def)

lemma event_line_inject:
  assumes "loggable ev" and "loggable ev'" and "event_line ev = event_line ev'"
  shows "logged ev = logged ev'"
proof (cases ev)
  case (Routed c e)
  with assms(3) obtain c' e' where ev': "ev' = Routed c' e'" by (cases ev') auto
  then have "c = c'" "private_to_string e @ newline = private_to_string e' @ newline"
    using assms(3) Routed by auto
  with ev' Routed assms(1,2) private_line_inject[of c e e'] show ?thesis by (cases e; cases e') auto
next
  case (Public e)
  with assms(3) obtain e' where ev': "ev' = Public e'" by (cases ev') auto
  with Public assms public_line_inject[of e e'] show ?thesis by simp
qed

text \<open>A line has one newline, its last character.\<close>

definition one_line :: "string \<Rightarrow> bool" where
  "one_line s \<longleftrightarrow> CHR 0x0A \<notin> set s"

lemma numbers_one_line [simp]: "CHR 0x0A \<notin> set (show_word w)" "CHR 0x0A \<notin> set (show_int n)"
  using show_set(1)[of "CHR 0x0A" w] show_set(2)[of "CHR 0x0A" n] by auto

lemma event_line_newline: "\<exists>s. event_line ev = s @ newline \<and> one_line s"
proof (cases ev)
  case (Routed c e)
  have "CHR 0x0A \<notin> set (RejectReason_to_string r)" for r by (cases r) simp_all
  then have "one_line (private_to_string e)" by (cases e) (simp_all add: one_line_def)
  with Routed show ?thesis
    by (intro exI[of _ "''[PRIVATE conn='' @ show_int c @ ''] '' @ private_to_string e"])
       (simp add: one_line_def)
next
  case (Public e)
  have "one_line (public_to_string e)" by (cases e) (simp_all add: one_line_def)
  with Public show ?thesis
    by (intro exI[of _ "''[PUBLIC] '' @ public_to_string e"]) (simp add: one_line_def)
qed

lemma lines_split:
  assumes "one_line s" "one_line s'" and "s @ newline @ x = s' @ newline @ x'"
  shows "s = s' \<and> x = x'"
proof -
  have "takeWhile (\<lambda>c. c \<noteq> CHR 0x0A) (t @ newline @ y) = t" if "one_line t" for t y
    using that by (subst takeWhile_append2) (auto simp: one_line_def newline_def)
  from this[OF assms(1), of x] this[OF assms(2), of x'] assms(3) show ?thesis by simp
qed

text \<open>The log determines the sequence of events.\<close>

lemma log_inject:
  assumes "\<forall>ev \<in> set evs. loggable ev" and "\<forall>ev \<in> set evs'. loggable ev"
    and "concat (map event_line evs) = concat (map event_line evs')"
  shows "map logged evs = map logged evs'"
  using assms
proof (induction evs arbitrary: evs')
  case Nil
  have "event_line ev \<noteq> []" for ev using event_line_newline[of ev] by (auto simp: newline_def)
  with Nil show ?case by (cases evs') auto
next
  case (Cons ev evs)
  obtain s where s: "event_line ev = s @ newline" "one_line s" using event_line_newline by blast
  obtain ev1 evs1 where evs': "evs' = ev1 # evs1" using Cons.prems(3) s(1) by (cases evs') (auto simp: newline_def)
  obtain s1 where s1: "event_line ev1 = s1 @ newline" "one_line s1" using event_line_newline by blast
  have "s = s1 \<and> concat (map event_line evs) = concat (map event_line evs1)"
    by (rule lines_split[OF s(2) s1(2)]) (use Cons.prems(3) evs' s(1) s1(1) in simp)
  with Cons.IH[of evs1] Cons.prems(1,2) evs' event_line_inject[of ev ev1] s(1) s1(1) show ?case by simp
qed

text \<open>What the consumer prints is the log of the events it takes.\<close>

lemma consume_events_spec:
  assumes "sink_ok C block_mode sink"
  shows "\<exists>sink'. consume_events C block_mode flags sink =
      (concat (map event_line (take (length flags) (rb_items C sink))), sink') \<and>
    sink_ok C block_mode sink' \<and> rb_items C sink' = drop (length flags) (rb_items C sink)"
  using assms
proof (induction flags arbitrary: sink)
  case step: (Cons running flags)
  show ?case
  proof (cases "rb_items C sink")
    case Nil
    with step.IH[OF step.prems] step.prems show ?thesis by (simp add: sink.pop_none)
  next
    case (Cons ev evs)
    obtain sink' where sink': "sink_pop C block_mode sink = (Some ev, sink')" "sink_ok C block_mode sink'"
      "rb_items C sink' = evs"
      using sink.pop_some[OF step.prems Cons] by blast
    moreover have "loop_test running sink" using Cons by (simp add: loop_test_iff[OF step.prems])
    ultimately show ?thesis using step.IH[OF sink'(2)] Cons by (auto simp del: event_line.simps)
  qed
qed simp

end
