(* ===== verification/Client_Program.thy ===== *)
theory Client_Program
  imports Console Printing Event_Parser Startup Pipeline
begin

text \<open>
  The client program as its three threads run together (\<^verbatim>\<open>client/client.cpp\<close>): the main thread sends
  what is typed, the receiving thread parses events from the socket into a ring buffer, and the
  logging thread takes them from it and prints them. They share the flag \<open>running\<close>: the loops test it,
  the main thread clears it when the user quits, the receiving thread when the connection is closed.
  A step is one action of one thread between two accesses to what they share; \<open>running\<close> is a
  sequentially consistent atomic.
\<close>

section \<open>The program\<close>

text \<open>
  Where the threads are. The receiving thread tests \<open>running\<close>, waits for an event, pushes it, or has
  ended, by its test or an error (\<open>R_stopped\<close>), or because the connection was closed. The logging thread
  tests \<open>running\<close>, tests the sink if that is false, takes an item, or has ended. The main thread reads
  and sends, waits for the others to end, or has closed the socket.
\<close>

datatype Receiver = R_check | R_recv | R_push Event | R_stopped | R_closed
datatype Logger = L_check | L_test | L_pop | L_done
datatype Main = M_typing | M_joining | M_closed

text \<open>
  The last fields are ghosts: the bytes that have arrived from the server, the events parsed, the
  events taken from the sink, and whether a push has failed.
\<close>

record 's Program =
  p_running :: bool
  p_main :: Main
  p_cin :: Cin
  p_receiver :: Receiver
  p_sink :: "Event RingBuffer"
  p_logger :: Logger
  p_log :: string
  p_env :: 's
  p_arrived :: "Byte list"
  p_received :: "Event list"
  p_taken :: "Event list"
  p_lost :: bool

definition new_Program :: "BufSize \<Rightarrow> Event \<Rightarrow> Cin \<Rightarrow> 's \<Rightarrow> Byte list \<Rightarrow> 's Program" where
  "new_Program C dflt cin s arrived =
     \<lparr>p_running = True, p_main = M_typing, p_cin = cin, p_receiver = R_check,
      p_sink = new_RingBuffer C dflt, p_logger = L_check, p_log = [], p_env = s, p_arrived = arrived,
      p_received = [], p_taken = [], p_lost = False\<rparr>"

text \<open>The start of \<open>main\<close>: no thread is started, and the exit code is 1, when the connection fails.\<close>

definition client_start ::
  "'s socket_calls \<Rightarrow> nat \<Rightarrow> BufSize \<Rightarrow> Event \<Rightarrow> Cin \<Rightarrow> 's \<Rightarrow> int + int \<times> 's Program"
where
  "client_start calls port C dflt cin s =
     (case setup_client calls port s of
        (ok, socket_fd, s') \<Rightarrow> if \<not> ok then Inl 1 else Inr (socket_fd, new_Program C dflt cin s' []))"

text \<open>
  The main thread: \<open>None\<close> when it cannot go on, because it reads for ever, because the input has made
  its behaviour undefined, or because a thread it joins has not ended.
\<close>

definition main_step :: "'s send \<Rightarrow> ('s \<Rightarrow> int \<Rightarrow> 's) \<Rightarrow> int \<Rightarrow> 's Program \<Rightarrow> 's Program option" where
  "main_step send close fd p =
     (case p_main p of
        M_typing \<Rightarrow>
          (case read_message (p_cin p) of
             Some (Inr (Some m), cin) \<Rightarrow>
               (case run_msg_sender send fd m (p_env p) of
                  None \<Rightarrow> None
                | Some s \<Rightarrow> Some (p\<lparr>p_cin := cin, p_env := s\<rparr>))
           | Some (Inr None, cin) \<Rightarrow> Some (p\<lparr>p_cin := cin, p_running := False, p_main := M_joining\<rparr>)
           | _ \<Rightarrow> None)
      | M_joining \<Rightarrow>
          if p_receiver p \<in> {R_stopped, R_closed} \<and> p_logger p = L_done
          then Some (p\<lparr>p_main := M_closed, p_env := close (p_env p) fd\<rparr>)
          else None
      | M_closed \<Rightarrow> None)"

text \<open>
  The receiving thread. Its calls of \<open>recv\<close> block until what they wait for has arrived or the stream
  has ended, so the iteration goes on when a whole frame is there: a header, and its payload if the
  type is known.
\<close>

definition frame_arrived :: "Byte list \<Rightarrow> bool" where
  "frame_arrived bs \<longleftrightarrow> 3 \<le> length bs \<and>
     (case MsgType_of (unpack MsgHeader bs ! 0) of
        None \<Rightarrow> True | Some t \<Rightarrow> wire_size (wire_of_event t) \<le> length bs - 3)"

definition receiver_step ::
  "BufSize \<Rightarrow> 's recv \<Rightarrow> ('s \<Rightarrow> int \<Rightarrow> Byte list) \<Rightarrow> ('s \<Rightarrow> int \<Rightarrow> bool) \<Rightarrow> int \<Rightarrow> 's Program \<Rightarrow> 's Program option"
where
  "receiver_step C recv incoming ended fd p =
     (case p_receiver p of
        R_check \<Rightarrow> Some (p\<lparr>p_receiver := (if p_running p then R_recv else R_stopped)\<rparr>)
      | R_recv \<Rightarrow>
          if frame_arrived (incoming (p_env p) fd) \<or> ended (p_env p) fd then
            (case parse_event recv fd (p_env p) of
               (Recv_failed, s) \<Rightarrow> Some (p\<lparr>p_receiver := R_stopped, p_env := s\<rparr>)
             | (Closed, s) \<Rightarrow> Some (p\<lparr>p_running := False, p_receiver := R_closed, p_env := s\<rparr>)
             | (Parsed None, s) \<Rightarrow> Some (p\<lparr>p_receiver := R_check, p_env := s\<rparr>)
             | (Parsed (Some ev), s) \<Rightarrow>
                 Some (p\<lparr>p_receiver := R_push ev, p_env := s, p_received := p_received p @ [ev]\<rparr>))
          else None
      | R_push ev \<Rightarrow>
          (case rb_push C ev (p_sink p) of
             (ok, sink) \<Rightarrow> Some (p\<lparr>p_receiver := R_check, p_sink := sink, p_lost := p_lost p \<or> \<not> ok\<rparr>))
      | _ \<Rightarrow> None)"

text \<open>The logging thread, one test or one take of \<open>consume_events\<close>.\<close>

definition logger_step :: "BufSize \<Rightarrow> bool \<Rightarrow> 's Program \<Rightarrow> 's Program" where
  "logger_step C block_mode p =
     (case p_logger p of
        L_check \<Rightarrow> p\<lparr>p_logger := (if p_running p then L_pop else L_test)\<rparr>
      | L_test \<Rightarrow> p\<lparr>p_logger := (if rb_empty (p_sink p) then L_done else L_pop)\<rparr>
      | L_pop \<Rightarrow>
          (case sink_pop C block_mode (p_sink p) of
             (None, sink) \<Rightarrow> p\<lparr>p_sink := sink, p_logger := L_check\<rparr>
           | (Some ev, sink) \<Rightarrow>
               p\<lparr>p_sink := sink, p_logger := L_check, p_log := p_log p @ event_line ev,
                 p_taken := p_taken p @ [ev]\<rparr>)
      | L_done \<Rightarrow> p)"

text \<open>
  A step is one of these, or one in which a thread reads an old index of the ring buffer (\<open>Ring_Threads\<close>):
  a push fails although there is room, a pop finds nothing, a test finds the sink empty. The test cannot
  do so when it is the receiving thread that has cleared \<open>running\<close>: its pushes happened before that.
\<close>

text \<open>What the program depends on: the calls and what they see of the connection.\<close>

record 's socket =
  so_send :: "'s send"
  so_recv :: "'s recv"
  so_close :: "'s \<Rightarrow> int \<Rightarrow> 's"
  so_incoming :: "'s \<Rightarrow> int \<Rightarrow> Byte list"
  so_ended :: "'s \<Rightarrow> int \<Rightarrow> bool"

inductive program_step ::
  "BufSize \<Rightarrow> bool \<Rightarrow> 's socket \<Rightarrow> int \<Rightarrow> 's Program \<Rightarrow> 's Program \<Rightarrow> bool"
  for C block_mode so fd
where
  main: "main_step (so_send so) (so_close so) fd p = Some p' \<Longrightarrow> program_step C block_mode so fd p p'"
| receiver: "receiver_step C (so_recv so) (so_incoming so) (so_ended so) fd p = Some p' \<Longrightarrow>
    program_step C block_mode so fd p p'"
| logger: "program_step C block_mode so fd p (logger_step C block_mode p)"
| stale_push: "p_receiver p = R_push ev \<Longrightarrow>
    program_step C block_mode so fd p (p\<lparr>p_receiver := R_check, p_lost := True\<rparr>)"
| stale_pop: "p_logger p = L_pop \<Longrightarrow> program_step C block_mode so fd p (p\<lparr>p_logger := L_check\<rparr>)"
| stale_empty: "\<lbrakk> p_logger p = L_test; p_main p \<noteq> M_typing \<rbrakk> \<Longrightarrow>
    program_step C block_mode so fd p (p\<lparr>p_logger := L_done\<rparr>)"

text \<open>Bytes arrive, and the peer may close the connection, after which none do.\<close>

inductive arrival :: "'s socket \<Rightarrow> int \<Rightarrow> 's Program \<Rightarrow> 's Program \<Rightarrow> bool" for so fd where
  arrival: "\<lbrakk> so_incoming so s fd = so_incoming so (p_env p) fd @ bs;
     so_ended so (p_env p) fd \<longrightarrow> bs = [] \<and> so_ended so s fd \<rbrakk>
   \<Longrightarrow> arrival so fd p (p\<lparr>p_env := s, p_arrived := p_arrived p @ bs\<rparr>)"

inductive program_reachable :: "BufSize \<Rightarrow> bool \<Rightarrow> 's socket \<Rightarrow> int \<Rightarrow> 's Program \<Rightarrow> bool"
  for C block_mode so fd
where
  start: "program_reachable C block_mode so fd (new_Program C dflt cin s (so_incoming so s fd))"
| own: "\<lbrakk> program_reachable C block_mode so fd p; program_step C block_mode so fd p p' \<rbrakk> \<Longrightarrow>
    program_reachable C block_mode so fd p'"
| peer: "\<lbrakk> program_reachable C block_mode so fd p; arrival so fd p p' \<rbrakk> \<Longrightarrow>
    program_reachable C block_mode so fd p'"

text \<open>
  What the calls do to the connection: the blocking \<open>recv\<close> returns bytes, or nothing when there are
  none; \<open>send\<close> succeeds at least partly or fails, and takes nothing from what has arrived; neither
  ends or reopens the stream.
\<close>

definition socket_law :: "'s socket \<Rightarrow> ('s \<Rightarrow> int \<Rightarrow> Byte list) \<Rightarrow> bool" where
  "socket_law so outgoing \<longleftrightarrow> recv_blocks (so_recv so) (so_incoming so) \<and> send_law (so_send so) outgoing \<and>
     (\<forall>s fd bs. so_incoming so (snd (so_send so s fd bs)) = so_incoming so s \<and>
        so_ended so (snd (so_send so s fd bs)) = so_ended so s) \<and>
     (\<forall>s fd n. so_ended so (snd (so_recv so s fd n)) = so_ended so s)"

section \<open>What the calls leave alone\<close>

lemma send_loop_keeps:
  assumes "send_loop send fd buf sent s = Some y" and "\<And>s fd bs. f (snd (send s fd bs)) = f s"
  shows "f (snd y) = f s"
proof -
  have "(\<forall>s fd bs. f (snd (send s fd bs)) = f s) \<longrightarrow> f (snd y) = f s"
  proof (rule send_loop.raw_induct[OF _ assms(1)], intro impI)
    fix loop and send :: "'a send" and fd buf sent s y
    assume rec: "\<And>send fd buf sent s y. loop send fd buf sent s = Some y \<Longrightarrow>
        (\<forall>s fd bs. f (snd (send s fd bs)) = f s) \<longrightarrow> f (snd y) = f s"
      and body: "(if sent < length buf then case send s fd (drop sent buf) of
          (Sent n, s') \<Rightarrow> loop send fd buf (sent + n) s' | (Send_error, s') \<Rightarrow> Some (- 1, s')
        else Some (int sent, s)) = Some y"
      and keeps: "\<forall>s fd bs. f (snd (send s fd bs)) = f s"
    show "f (snd y) = f s"
    proof (cases "sent < length buf")
      case False
      with body show ?thesis by auto
    next
      case True
      obtain r s1 where call: "send s fd (drop sent buf) = (r, s1)" by fastforce
      then have "f s1 = f s" using keeps by (metis snd_conv)
      with body True call rec[of send fd buf _ s1 y] keeps show ?thesis by (cases r) auto
    qed
  qed
  with assms(2) show ?thesis by blast
qed

lemma run_msg_sender_keeps:
  assumes "run_msg_sender send fd m s = Some s'" and "\<And>s fd bs. f (snd (send s fd bs)) = f s"
  shows "f s' = f s"
proof -
  obtain r where "send_loop send fd (serialise_order m) 0 s = Some (r, s')"
    using assms(1) by (auto simp: run_msg_sender_def send_msg_def send_all_def split: option.splits if_splits)
  from send_loop_keeps[where f = f, OF this assms(2)] show ?thesis unfolding snd_conv .
qed

lemma recv_all_loop_keeps:
  "(\<And>s fd n. f (snd (recv s fd n)) = f s) \<Longrightarrow>
   f (snd (snd (recv_all_loop recv fd len buf s))) = f s"
proof (induction recv fd len buf s rule: recv_all_loop.induct)
  case (1 recv fd len buf s)
  obtain r s1 where call: "recv s fd (len - length buf) = (r, s1)" by fastforce
  then have same: "f s1 = f s" using "1.prems" by (metis snd_conv)
  show ?case
  proof (cases "length buf < len")
    case False
    then show ?thesis by (subst recv_all_loop.simps) simp
  next
    case True
    show ?thesis
    proof (cases r)
      case (Received bs)
      with "1.IH"[OF True call[symmetric] Received _ "1.prems"] True call same show ?thesis
        by (subst recv_all_loop.simps) simp
    qed (use True call same in \<open>subst recv_all_loop.simps, simp\<close>)+
  qed
qed

text \<open>A frame that has arrived whole is decoded the same way when more follows.\<close>

lemma frame_arrived_decode:
  assumes "decode_event (bs @ post) = Some (ev, r)" and "frame_arrived bs"
  shows "\<exists>r'. decode_event bs = Some (ev, r') \<and> r = r' @ post"
proof -
  have len: "3 \<le> length bs" using assms(2) by (simp add: frame_arrived_def)
  have "unpack MsgHeader (bs @ post) = unpack MsgHeader bs"
    using unpack_header_take[of bs] unpack_header_take[of "bs @ post"] len by simp
  with assms len show ?thesis
    by (auto simp: decode_event_def frame_arrived_def Let_def split: if_splits option.splits)
qed

lemma decode_event_arrived: "decode_event bs = Some r \<Longrightarrow> frame_arrived bs"
  by (auto simp: decode_event_def frame_arrived_def Let_def split: if_splits option.splits)

section \<open>The invariant\<close>

fun pushing :: "Receiver \<Rightarrow> Event list" where
  "pushing (R_push ev) = [ev]"
| "pushing _ = []"

text \<open>The events parsed flow into the log, which is the lines of those taken.\<close>

definition log_inv :: "BufSize \<Rightarrow> bool \<Rightarrow> 's Program \<Rightarrow> bool" where
  "log_inv C block_mode p \<longleftrightarrow> sink_ok C block_mode (p_sink p) \<and>
     flows (p_lost p) (p_taken p) (rb_items C (p_sink p)) (pushing (p_receiver p)) (p_received p) \<and>
     p_log p = concat (map event_line (p_taken p))"

text \<open>
  Who has cleared \<open>running\<close>; and when the logging thread has ended although the user has not quit, the
  receiving thread had ended before and nothing was left.
\<close>

definition flag_inv :: "BufSize \<Rightarrow> 's Program \<Rightarrow> bool" where
  "flag_inv C p \<longleftrightarrow> (p_running p \<longleftrightarrow> p_main p = M_typing \<and> p_receiver p \<noteq> R_closed) \<and>
     (p_logger p \<in> {L_test, L_done} \<longrightarrow> \<not> p_running p) \<and>
     (p_logger p = L_done \<and> p_main p = M_typing \<longrightarrow> rb_empty (p_sink p)) \<and>
     (p_main p = M_closed \<longrightarrow> p_receiver p \<in> {R_stopped, R_closed} \<and> p_logger p = L_done)"

text \<open>
  When what arrives is the events \<open>evs\<close>, and the peer has not closed in the midst of them, the events
  parsed are the first of them, and when the receiving thread has seen the end it has parsed them all.
\<close>

definition stream_inv :: "'s socket \<Rightarrow> int \<Rightarrow> Event list \<Rightarrow> Byte list \<Rightarrow> 's Program \<Rightarrow> bool" where
  "stream_inv so fd evs post p \<longleftrightarrow>
     (\<exists>k \<le> length evs. p_received p = map received (take k evs) \<and>
        so_incoming so (p_env p) fd @ post = concat (map serialise_event (drop k evs)) \<and>
        (p_receiver p = R_closed \<longrightarrow> k = length evs))"

definition streams_inv :: "'s socket \<Rightarrow> int \<Rightarrow> 's Program \<Rightarrow> bool" where
  "streams_inv so fd p \<longleftrightarrow> p_main p \<noteq> M_closed \<longrightarrow>
     (\<forall>evs post. (\<forall>ev \<in> set evs. event_wire_ok ev) \<and>
        p_arrived p @ post = concat (map serialise_event evs) \<and>
        (so_ended so (p_env p) fd \<longrightarrow> post = []) \<longrightarrow> stream_inv so fd evs post p)"

lemma new_Program_inv:
  assumes "cap_ok C"
  shows "log_inv C block_mode (new_Program C d cin s arrived)"
    and "flag_inv C (new_Program C d cin s arrived)"
    and "streams_inv so fd (new_Program C d cin s (so_incoming so s fd))"
  using new_RingBuffer_ok(2)[OF assms, of d] new_sink_ok[OF assms, of block_mode d]
  by (auto simp: log_inv_def flag_inv_def streams_inv_def stream_inv_def new_Program_def
      intro!: exI[of _ 0])

section \<open>What the steps are\<close>

lemma main_step_cases:
  assumes "main_step send close fd p = Some p'"
  obtains (typed) cin m s where "p_main p = M_typing"
      "run_msg_sender send fd m (p_env p) = Some s" "p' = p\<lparr>p_cin := cin, p_env := s\<rparr>"
  | (quit) cin where "p_main p = M_typing"
      "p' = p\<lparr>p_cin := cin, p_running := False, p_main := M_joining\<rparr>"
  | (joined) "p_main p = M_joining" "p_receiver p \<in> {R_stopped, R_closed}" "p_logger p = L_done"
      "p' = p\<lparr>p_main := M_closed, p_env := close (p_env p) fd\<rparr>"
proof (cases "p_main p")
  case M_typing
  then obtain r cin where read: "read_message (p_cin p) = Some (r, cin)"
    using assms by (cases "read_message (p_cin p)") (auto simp: main_step_def)
  show ?thesis
  proof (cases r)
    case (Inl e)
    with assms M_typing read show ?thesis by (simp add: main_step_def)
  next
    case (Inr om)
    show ?thesis
    proof (cases om)
      case None
      with assms M_typing read Inr quit[of cin] show ?thesis by (simp add: main_step_def)
    next
      case (Some m)
      with assms M_typing read Inr typed[of m _ cin] show ?thesis
        by (cases "run_msg_sender send fd m (p_env p)") (auto simp: main_step_def)
    qed
  qed
next
  case M_joining
  with assms joined show ?thesis by (simp add: main_step_def split: if_splits)
next
  case M_closed
  with assms show ?thesis by (simp add: main_step_def)
qed

lemma receiver_step_cases:
  assumes "receiver_step C recv incoming ended fd p = Some p'"
  obtains (check) "p_receiver p = R_check" "p' = p\<lparr>p_receiver := (if p_running p then R_recv else R_stopped)\<rparr>"
  | (parse) r s where "p_receiver p = R_recv" "frame_arrived (incoming (p_env p) fd) \<or> ended (p_env p) fd"
      "parse_event recv fd (p_env p) = (r, s)"
      "p' = (case r of Recv_failed \<Rightarrow> p\<lparr>p_receiver := R_stopped, p_env := s\<rparr>
         | Closed \<Rightarrow> p\<lparr>p_running := False, p_receiver := R_closed, p_env := s\<rparr>
         | Parsed None \<Rightarrow> p\<lparr>p_receiver := R_check, p_env := s\<rparr>
         | Parsed (Some ev) \<Rightarrow> p\<lparr>p_receiver := R_push ev, p_env := s, p_received := p_received p @ [ev]\<rparr>)"
  | (push) ev ok sink where "p_receiver p = R_push ev" "rb_push C ev (p_sink p) = (ok, sink)"
      "p' = p\<lparr>p_receiver := R_check, p_sink := sink, p_lost := p_lost p \<or> \<not> ok\<rparr>"
proof (cases "p_receiver p")
  case R_check
  show ?thesis by (rule check) (use R_check assms in \<open>simp_all add: receiver_step_def\<close>)
next
  case R_recv
  obtain r s where ev: "parse_event recv fd (p_env p) = (r, s)" by fastforce
  have guard: "frame_arrived (incoming (p_env p) fd) \<or> ended (p_env p) fd"
    using R_recv assms by (simp add: receiver_step_def split: if_splits)
  show ?thesis
    by (rule parse[OF R_recv guard ev]) (use R_recv guard ev assms in
      \<open>simp add: receiver_step_def split: parse_result.splits option.splits\<close>)
next
  case (R_push ev)
  obtain ok sink where push': "rb_push C ev (p_sink p) = (ok, sink)" by fastforce
  show ?thesis by (rule push[OF R_push push']) (use R_push push' assms in \<open>simp add: receiver_step_def\<close>)
qed (use assms in \<open>simp_all add: receiver_step_def\<close>)

section \<open>The log\<close>

lemma receiver_log_inv:
  assumes inv: "log_inv C block_mode p" and step: "receiver_step C recv incoming ended fd p = Some p'"
  shows "log_inv C block_mode p'"
  using step
proof (cases rule: receiver_step_cases)
  case check
  with inv show ?thesis by (simp add: log_inv_def)
next
  case (parse r s)
  then have flow: "flows (p_lost p) (p_taken p) (rb_items C (p_sink p)) [] (p_received p)"
    using inv by (simp add: log_inv_def)
  from parse inv flows_produce[OF flow] flow show ?thesis
    by (simp add: log_inv_def split: parse_result.splits option.splits)
next
  case (push ev ok sink)
  have flow: "flows (p_lost p) (p_taken p) (rb_items C (p_sink p)) [ev] (p_received p)"
    and sink: "sink_ok C block_mode (p_sink p)"
    using inv push(1) by (simp_all add: log_inv_def)
  from flows_push[OF sink push(2) flow] inv push(3) show ?thesis by (simp add: log_inv_def)
qed

lemma logger_log_inv:
  assumes inv: "log_inv C block_mode p" shows "log_inv C block_mode (logger_step C block_mode p)"
proof (cases "p_logger p")
  case L_pop
  have sink: "sink_ok C block_mode (p_sink p)" using inv by (simp add: log_inv_def)
  show ?thesis
  proof (cases "rb_items C (p_sink p)")
    case Nil
    with inv L_pop sink.pop_none[OF sink Nil] show ?thesis
      by (simp add: logger_step_def log_inv_def)
  next
    case (Cons ev evs)
    obtain sink' where "sink_pop C block_mode (p_sink p) = (Some ev, sink')" "sink_ok C block_mode sink'"
      "rb_items C sink' = evs"
      using sink.pop_some[OF sink Cons] by blast
    moreover have "flows (p_lost p) (p_taken p @ [ev]) evs (pushing (p_receiver p)) (p_received p)"
      using flows_pop[of "p_lost p" "p_taken p" "rb_items C (p_sink p)" _ _ 1] inv Cons
      by (simp add: log_inv_def)
    ultimately show ?thesis
      using inv L_pop by (simp add: logger_step_def log_inv_def del: event_line.simps)
  qed
qed (use inv in \<open>simp_all add: logger_step_def log_inv_def\<close>)

lemma main_log_inv:
  assumes "log_inv C block_mode p" and "main_step send close fd p = Some p'"
  shows "log_inv C block_mode p'"
  using assms(2) by (cases rule: main_step_cases) (use assms(1) in \<open>simp_all add: log_inv_def\<close>)

section \<open>The flag\<close>

lemma receiver_flag_inv:
  assumes inv: "flag_inv C p" and step: "receiver_step C recv incoming ended fd p = Some p'"
  shows "flag_inv C p'"
  using step
proof (cases rule: receiver_step_cases)
  case check
  with inv show ?thesis by (auto simp: flag_inv_def)
next
  case (parse r s)
  with inv show ?thesis by (simp add: flag_inv_def split: parse_result.splits option.splits)
next
  case (push ev ok sink)
  with inv have "p_main p \<noteq> M_closed" "p_logger p = L_done \<longrightarrow> p_main p \<noteq> M_typing"
    by (auto simp: flag_inv_def)
  with inv push show ?thesis by (auto simp: flag_inv_def)
qed

lemma main_flag_inv:
  assumes "flag_inv C p" and "main_step send close fd p = Some p'"
  shows "flag_inv C p'"
  using assms(2) by (cases rule: main_step_cases) (use assms(1) in \<open>auto simp: flag_inv_def\<close>)

lemma logger_flag_inv:
  assumes "flag_inv C p" shows "flag_inv C (logger_step C block_mode p)"
proof (cases "p_logger p")
  case L_pop
  obtain r sink where "sink_pop C block_mode (p_sink p) = (r, sink)" by fastforce
  with assms L_pop show ?thesis by (cases r) (simp_all add: logger_step_def flag_inv_def)
qed (use assms in \<open>auto simp: logger_step_def flag_inv_def\<close>)

section \<open>The stream of events\<close>

text \<open>What an iteration of the receiving thread does to a stream of events.\<close>

lemma receiver_parses:
  assumes blocks: "recv_blocks recv incoming" and wf: "\<forall>ev \<in> set evs. event_wire_ok ev"
    and stream: "incoming s fd @ post = concat (map serialise_event evs)"
    and guard: "frame_arrived (incoming s fd) \<or> post = []"
    and parse: "parse_event recv fd s = (r, s')"
  shows "case evs of [] \<Rightarrow> r = Closed \<and> incoming s' fd = [] \<and> post = []
    | ev # evs' \<Rightarrow> r = Parsed (Some (received ev)) \<and>
        incoming s' fd @ post = concat (map serialise_event evs')"
proof (cases evs)
  case Nil
  then have none: "incoming s fd = []" "post = []" using stream by simp_all
  have law: "recv_law recv incoming" using blocks by (simp add: recv_blocks_def)
  obtain s1 where s1: "recv_all recv fd 3 s = (0, [], s1)"
    using recv_all_closed[OF blocks none(1), of 3] by auto
  then have "r = Closed" "s' = s1" using parse by (simp_all add: parse_event_def)
  moreover have "incoming s1 fd = []"
  proof -
    obtain bs s2 where call: "recv s fd 3 = (Received bs, s2)" "bs = []" "incoming s2 fd = []"
      using recv_blocks_cases[OF blocks, of 3 s fd] none(1) by auto
    with s1 show ?thesis by (simp add: recv_all_def recv_all_loop.simps)
  qed
  ultimately show ?thesis using Nil none(2) by simp
next
  case (Cons ev evs')
  have whole: "decode_event (incoming s fd @ post) = Some (received ev, concat (map serialise_event evs'))"
    using decode_event_serialise[of ev "concat (map serialise_event evs')"] stream Cons wf by simp
  have "\<exists>r'. decode_event (incoming s fd) = Some (received ev, r') \<and>
      concat (map serialise_event evs') = r' @ post"
    using frame_arrived_decode[OF whole] guard whole by (cases "post = []") auto
  then obtain r' where r': "decode_event (incoming s fd) = Some (received ev, r')"
    "concat (map serialise_event evs') = r' @ post" by blast
  from parse_event_decodes[OF blocks r'(1)] parse r'(2) Cons show ?thesis by auto
qed

lemma streams_invD:
  assumes "streams_inv so fd p" and "p_main p \<noteq> M_closed" and "\<forall>ev \<in> set evs. event_wire_ok ev"
    and "p_arrived p @ post = concat (map serialise_event evs)"
    and "so_ended so (p_env p) fd \<longrightarrow> post = []"
  shows "stream_inv so fd evs post p"
  using assms unfolding streams_inv_def by blast

lemma parse_event_keeps:
  assumes "parse_event recv fd s = (r, s')" and "\<And>s fd n. f (snd (recv s fd n)) = f s"
  shows "f s' = f s"
proof -
  have all: "f (snd (snd (recv_all recv fd n s))) = f s" for n s
    unfolding recv_all_def by (rule recv_all_loop_keeps[where f = f, OF assms(2)])
  obtain got bs s1 where hd: "recv_all recv fd 3 s = (got, bs, s1)" by (cases "recv_all recv fd 3 s")
  have s1: "f s1 = f s" using all[of 3 s] hd by simp
  have "f (snd (recv_payload recv t fd s1)) = f s1" for t
    using all[of "wire_size (wire_of_event t)" s1] unfolding recv_payload_def
    by (cases "recv_all recv fd (wire_size (wire_of_event t)) s1") simp
  with assms(1) hd s1 show ?thesis
    by (auto simp: parse_event_def split: if_splits option.splits prod.splits) (metis snd_conv)+
qed

text \<open>What the calls leave alone.\<close>

lemma socket_lawD:
  assumes "socket_law so outgoing"
  shows "recv_blocks (so_recv so) (so_incoming so)"
    and "so_incoming so (snd (so_send so s fd bs)) = so_incoming so s"
    and "so_ended so (snd (so_send so s fd bs)) = so_ended so s"
    and "so_ended so (snd (so_recv so s fd n)) = so_ended so s"
  using assms by (simp_all add: socket_law_def)

lemma main_keeps_stream:
  assumes law: "socket_law so outgoing"
    and step: "main_step (so_send so) (so_close so) fd p = Some p'" and open': "p_main p' \<noteq> M_closed"
  shows "so_incoming so (p_env p') = so_incoming so (p_env p)"
    and "so_ended so (p_env p') = so_ended so (p_env p)"
    and "p_arrived p' = p_arrived p" "p_received p' = p_received p" "p_receiver p' = p_receiver p"
    and "p_main p \<noteq> M_closed"
  using step open'
    run_msg_sender_keeps[where f = "so_incoming so" and send = "so_send so", OF _ socket_lawD(2)[OF law]]
    run_msg_sender_keeps[where f = "so_ended so" and send = "so_send so", OF _ socket_lawD(3)[OF law]]
  by (cases rule: main_step_cases; simp)+

lemma main_streams_inv:
  assumes law: "socket_law so outgoing" and inv: "streams_inv so fd p"
    and step: "main_step (so_send so) (so_close so) fd p = Some p'"
  shows "streams_inv so fd p'"
proof (cases "p_main p' = M_closed")
  case False
  note same = main_keeps_stream[OF law step False]
  show ?thesis using inv same by (simp add: streams_inv_def stream_inv_def)
qed (simp add: streams_inv_def)

lemma receiver_streams_inv:
  assumes law: "socket_law so outgoing" and inv: "streams_inv so fd p"
    and step: "receiver_step C (so_recv so) (so_incoming so) (so_ended so) fd p = Some p'"
  shows "streams_inv so fd p'"
  using step
proof (cases rule: receiver_step_cases)
  case check
  with inv show ?thesis by (simp add: streams_inv_def stream_inv_def)
next
  case (push ev ok sink)
  with inv show ?thesis by (simp add: streams_inv_def stream_inv_def)
next
  case (parse r s)
  have ended: "so_ended so s = so_ended so (p_env p)"
    by (rule parse_event_keeps[where f = "so_ended so", OF parse(3) socket_lawD(4)[OF law]])
  have same: "p_main p' = p_main p" "p_arrived p' = p_arrived p" "p_env p' = s"
    using parse(4) by (simp_all split: parse_result.splits option.splits)
  show ?thesis unfolding streams_inv_def same ended
  proof (intro impI allI)
    fix evs post
    assume "p_main p \<noteq> M_closed" and stream: "(\<forall>ev\<in>set evs. event_wire_ok ev) \<and>
        p_arrived p @ post = concat (map serialise_event evs) \<and>
        (so_ended so (p_env p) fd \<longrightarrow> post = [])"
    then have "stream_inv so fd evs post p" by (intro streams_invD[OF inv]) auto
    then obtain k where k: "k \<le> length evs" "p_received p = map received (take k evs)"
      "so_incoming so (p_env p) fd @ post = concat (map serialise_event (drop k evs))"
      by (auto simp: stream_inv_def)
    have "\<forall>ev \<in> set (drop k evs). event_wire_ok ev" using stream by (auto dest: in_set_dropD)
    from receiver_parses[OF socket_lawD(1)[OF law] this k(3) _ parse(3)] parse(2) stream
    have res: "case drop k evs of [] \<Rightarrow> r = Closed \<and> so_incoming so s fd = [] \<and> post = []
      | ev # evs' \<Rightarrow> r = Parsed (Some (received ev)) \<and>
          so_incoming so s fd @ post = concat (map serialise_event evs')" by auto
    show "stream_inv so fd evs post p'"
    proof (cases "drop k evs")
      case Nil
      with res k parse(4) show ?thesis by (auto simp: stream_inv_def intro!: exI[of _ k])
    next
      case (Cons ev evs')
      then have "Suc k \<le> length evs" "take (Suc k) evs = take k evs @ [ev]" "drop (Suc k) evs = evs'"
        using k(1) by (metis Suc_leI drop_eq_Nil le_neq_implies_less list.distinct(1) order_refl,
          metis take_Suc_conv_app_nth drop_eq_Nil leI list.distinct(1) nth_via_drop,
          metis drop_Suc drop_tl list.sel(3))
      with res Cons k parse(4) show ?thesis by (auto simp: stream_inv_def intro!: exI[of _ "Suc k"])
    qed
  qed
qed

lemma arrival_streams_inv:
  assumes inv: "streams_inv so fd p" and bytes: "arrival so fd p p'"
  shows "streams_inv so fd p'"
  using bytes
proof (cases rule: arrival.cases)
  case (arrival s bs)
  show ?thesis unfolding streams_inv_def
  proof (intro impI allI)
    fix evs post
    assume "p_main p' \<noteq> M_closed" and stream: "(\<forall>ev\<in>set evs. event_wire_ok ev) \<and>
        p_arrived p' @ post = concat (map serialise_event evs) \<and> (so_ended so (p_env p') fd \<longrightarrow> post = [])"
    then have "stream_inv so fd evs (bs @ post) p" using arrival by (intro streams_invD[OF inv]) auto
    with arrival show "stream_inv so fd evs post p'" by (simp add: stream_inv_def)
  qed
qed

section \<open>Every reachable state\<close>

definition program_inv :: "BufSize \<Rightarrow> bool \<Rightarrow> 's socket \<Rightarrow> int \<Rightarrow> 's Program \<Rightarrow> bool" where
  "program_inv C block_mode so fd p \<longleftrightarrow>
     log_inv C block_mode p \<and> flag_inv C p \<and> streams_inv so fd p"

lemma logger_streams_inv:
  "streams_inv so fd (logger_step C block_mode p) \<longleftrightarrow> streams_inv so fd p"
  by (simp add: logger_step_def streams_inv_def stream_inv_def split: Logger.split option.split prod.split)

lemma program_step_inv:
  assumes law: "socket_law so outgoing" and inv: "program_inv C block_mode so fd p"
    and step: "program_step C block_mode so fd p p'"
  shows "program_inv C block_mode so fd p'"
  using step
proof (cases rule: program_step.cases)
  case main
  from inv main_log_inv[OF _ main] main_flag_inv[OF _ main] main_streams_inv[OF law _ main]
  show ?thesis by (auto simp: program_inv_def)
next
  case receiver
  from inv receiver_log_inv[OF _ receiver] receiver_flag_inv[OF _ receiver]
    receiver_streams_inv[OF law _ receiver]
  show ?thesis by (auto simp: program_inv_def)
next
  case logger
  with inv show ?thesis
    by (simp add: program_inv_def logger_log_inv logger_flag_inv logger_streams_inv)
next
  case (stale_push ev)
  with inv have "flows True (p_taken p) (rb_items C (p_sink p)) [] (p_received p)"
    using flows_dropped[of "p_lost p" "p_taken p" "rb_items C (p_sink p)" ev "[]"]
    by (simp add: program_inv_def log_inv_def)
  moreover have "p_logger p = L_done \<longrightarrow> p_main p \<noteq> M_typing" "p_main p \<noteq> M_closed"
    using inv stale_push by (auto simp: program_inv_def flag_inv_def)
  ultimately show ?thesis using inv stale_push
    by (auto simp: program_inv_def log_inv_def flag_inv_def streams_inv_def stream_inv_def)
next
  case stale_pop
  with inv show ?thesis
    by (auto simp: program_inv_def log_inv_def flag_inv_def streams_inv_def stream_inv_def)
next
  case stale_empty
  with inv show ?thesis
    by (auto simp: program_inv_def log_inv_def flag_inv_def streams_inv_def stream_inv_def)
qed

lemma program_reachable_inv:
  assumes cap: "cap_ok C" and law: "socket_law so outgoing"
  shows "program_reachable C block_mode so fd p \<Longrightarrow> program_inv C block_mode so fd p"
proof (induction rule: program_reachable.induct)
  case (start dflt cin s)
  show ?case by (simp add: program_inv_def new_Program_inv[OF cap])
next
  case (own p p')
  from program_step_inv[OF law own.IH own.hyps(2)] show ?case .
next
  case (peer p p')
  from peer.hyps(2) have "log_inv C block_mode p' \<longleftrightarrow> log_inv C block_mode p"
    "flag_inv C p' \<longleftrightarrow> flag_inv C p"
    by (cases rule: arrival.cases; simp add: log_inv_def flag_inv_def)+
  with peer.IH arrival_streams_inv[OF _ peer.hyps(2)] show ?case by (simp add: program_inv_def)
qed

end
