(* ===== verification/Program_Properties.thy ===== *)
theory Program_Properties
  imports Client_Program
begin

text \<open>
  What the threads of the client program achieve together: the log, the end of the logging thread, and
  the quit that does not end the program. The example is a connection over which one event has arrived.
\<close>

section \<open>A connection\<close>

record Link =
  ln_in :: "Byte list"
  ln_ended :: bool
  ln_out :: "int \<Rightarrow> Byte list"

definition link_socket :: "Link socket" where
  "link_socket =
     \<lparr>so_send = (\<lambda>s fd bs. (Sent (length bs), s\<lparr>ln_out := (ln_out s)(fd := ln_out s fd @ bs)\<rparr>)),
      so_recv = (\<lambda>s fd n. (Received (take n (ln_in s)), s\<lparr>ln_in := drop n (ln_in s)\<rparr>)),
      so_close = (\<lambda>s fd. s), so_incoming = (\<lambda>s fd. ln_in s), so_ended = (\<lambda>s fd. ln_ended s)\<rparr>"

lemma link_socket_law: "socket_law link_socket ln_out"
  by (auto simp: socket_law_def link_socket_def recv_blocks_def recv_law_def send_law_def)

lemma link_socket_sees: "so_incoming link_socket s fd = ln_in s" "so_ended link_socket s fd = ln_ended s"
  by (simp_all add: link_socket_def)

text \<open>Steps of the threads one after the other.\<close>

fun receiver_run :: "BufSize \<Rightarrow> 's socket \<Rightarrow> int \<Rightarrow> nat \<Rightarrow> 's Program \<Rightarrow> 's Program" where
  "receiver_run C so fd 0 p = p"
| "receiver_run C so fd (Suc n) p =
     (case receiver_step C (so_recv so) (so_incoming so) (so_ended so) fd p of
        None \<Rightarrow> p | Some p' \<Rightarrow> receiver_run C so fd n p')"

lemma receiver_run_reachable:
  "program_reachable C block_mode so fd p \<Longrightarrow> program_reachable C block_mode so fd (receiver_run C so fd n p)"
  by (induction n arbitrary: p) (auto split: option.split intro: program_reachable.own program_step.receiver)

lemma logger_run_reachable:
  "program_reachable C block_mode so fd p \<Longrightarrow>
   program_reachable C block_mode so fd ((logger_step C block_mode ^^ n) p)"
  by (induction n) (auto intro: program_reachable.own program_step.logger)

text \<open>One event has arrived and the peer has closed the connection.\<close>

definition one_event :: Event where "one_event = Routed (-1) (OrderCanceled 7)"

definition one_start :: "bool \<Rightarrow> Link Program" where
  "one_start ended =
     new_Program 8 (Routed 0 (OrderCanceled 0)) \<lparr>cin_rest = ''-1'', cin_fail = False\<rparr>
       \<lparr>ln_in = serialise_event one_event, ln_ended = ended, ln_out = (\<lambda>_. [])\<rparr> (serialise_event one_event)"

lemma one_start_reachable: "program_reachable 8 block_mode link_socket 4 (one_start ended)"
  using program_reachable.start[of 8 block_mode link_socket 4 "Routed 0 (OrderCanceled 0)"
      "\<lparr>cin_rest = ''-1'', cin_fail = False\<rparr>"
      "\<lparr>ln_in = serialise_event one_event, ln_ended = ended, ln_out = (\<lambda>_. [])\<rparr>"]
  by (simp add: one_start_def link_socket_def)

definition one_received :: "Link Program" where
  "one_received = receiver_run 8 link_socket 4 5 (one_start True)"

lemma one_received_reachable: "program_reachable 8 True link_socket 4 one_received"
  unfolding one_received_def by (intro receiver_run_reachable one_start_reachable)

lemma one_received_values:
  "(p_running one_received, p_logger one_received, p_log one_received, rb_items 8 (p_sink one_received)) =
   (False, L_check, [], [one_event])"
  by code_simp

lemma one_event_wire_ok: "event_wire_ok one_event"
  by (simp add: one_event_def)

section \<open>A stream that has arrived whole\<close>

text \<open>The receiving thread takes it to its end, and the logging thread prints it.\<close>

lemma receiver_takes:
  assumes law: "socket_law so outgoing"
  shows "\<lbrakk> p_receiver p = R_check; p_running p; sink_ok C block_mode (p_sink p);
      so_incoming so (p_env p) fd = concat (map serialise_event evs); so_ended so (p_env p) fd;
      \<forall>ev \<in> set evs. event_wire_ok ev; length (rb_items C (p_sink p)) + length evs \<le> unat C - 1 \<rbrakk> \<Longrightarrow>
    \<exists>s rb. sink_ok C block_mode rb \<and> rb_items C rb = rb_items C (p_sink p) @ map received evs \<and>
      receiver_run C so fd (3 * length evs + 2) p =
        p\<lparr>p_running := False, p_receiver := R_closed, p_sink := rb, p_env := s,
          p_received := p_received p @ map received evs\<rparr>"
proof (induction evs arbitrary: p)
  case Nil
  obtain r s where parse: "parse_event (so_recv so) fd (p_env p) = (r, s)" by fastforce
  from receiver_parses[OF socket_lawD(1)[OF law], of "[]" "p_env p" fd "[]" r s] parse Nil.prems
  have "r = Closed" by simp
  with parse Nil.prems show ?case
    by (intro exI[of _ s] exI[of _ "p_sink p"]) (simp add: receiver_step_def numeral_2_eq_2)
next
  case (Cons ev evs)
  obtain r s where parse: "parse_event (so_recv so) fd (p_env p) = (r, s)" by fastforce
  from receiver_parses[OF socket_lawD(1)[OF law], of "ev # evs" "p_env p" fd "[]" r s] parse Cons.prems
  have r: "r = Parsed (Some (received ev))" "so_incoming so s fd = concat (map serialise_event evs)" by simp_all
  have ended: "so_ended so s fd"
    using parse_event_keeps[where f = "so_ended so", OF parse socket_lawD(4)[OF law]] Cons.prems(5) by simp
  obtain rb where rb: "rb_push C (received ev) (p_sink p) = (True, rb)" "sink_ok C block_mode rb"
    "rb_items C rb = rb_items C (p_sink p) @ [received ev]"
    using sink.push_room[OF Cons.prems(3), of "received ev"] Cons.prems(7) by auto
  let ?p = "p\<lparr>p_env := s, p_received := p_received p @ [received ev], p_receiver := R_check, p_sink := rb\<rparr>"
  have three: "receiver_run C so fd (Suc (Suc (Suc n))) p = receiver_run C so fd n ?p" for n
    using Cons.prems(1,2,5) parse r rb by (simp add: receiver_step_def)
  have "3 * length (ev # evs) + 2 = Suc (Suc (Suc (3 * length evs + 2)))" by simp
  with three[of "3 * length evs + 2"] have run: "receiver_run C so fd (3 * length (ev # evs) + 2) p =
      receiver_run C so fd (3 * length evs + 2) ?p" by (simp only:)
  from Cons.IH[of ?p] rb r ended Cons.prems(2,6,7) obtain s' rb' where
    "sink_ok C block_mode rb'" "rb_items C rb' = rb_items C rb @ map received evs"
    "receiver_run C so fd (3 * length evs + 2) ?p =
        ?p\<lparr>p_running := False, p_receiver := R_closed, p_sink := rb', p_env := s',
          p_received := p_received ?p @ map received evs\<rparr>"
    by auto
  with run rb(3) show ?case by (intro exI[of _ s'] exI[of _ rb'], cases p) simp
qed

lemma logger_drains:
  assumes "sink_ok C block_mode (p_sink p)" and "\<not> p_running p" and "p_logger p = L_check"
    and "rb_items C (p_sink p) = evs"
  shows "\<exists>p'. (logger_step C block_mode ^^ (3 * length evs + 2)) p = p' \<and> p_logger p' = L_done \<and>
    p_log p' = p_log p @ concat (map event_line evs) \<and> rb_items C (p_sink p') = []"
  using assms
proof (induction evs arbitrary: p)
  case Nil
  then have "rb_empty (p_sink p)"
    using sink_empty[OF Nil.prems(1)] by simp
  with Nil show ?case by (simp add: logger_step_def numeral_2_eq_2)
next
  case (Cons ev evs)
  have "\<not> rb_empty (p_sink p)"
    using sink_empty[OF Cons.prems(1)] Cons.prems(4) by simp
  moreover obtain sink where sink: "sink_pop C block_mode (p_sink p) = (Some ev, sink)"
    "sink_ok C block_mode sink" "rb_items C sink = evs"
    using sink.pop_some[OF Cons.prems(1,4)] by blast
  ultimately have three: "(logger_step C block_mode ^^ 3) p =
      p\<lparr>p_sink := sink, p_logger := L_check, p_log := p_log p @ event_line ev,
        p_taken := p_taken p @ [ev]\<rparr>" (is "_ = ?p")
    using Cons.prems(2,3) by (simp add: logger_step_def numeral_3_eq_3 del: event_line.simps)
  have "3 * length (ev # evs) + 2 = (3 * length evs + 2) + 3" by simp
  then have "(logger_step C block_mode ^^ (3 * length (ev # evs) + 2)) p =
      (logger_step C block_mode ^^ (3 * length evs + 2)) ?p"
    unfolding three[symmetric] by (simp only: funpow_add comp_apply)
  with Cons.IH[of ?p] sink Cons.prems(2) show ?case by (simp del: event_line.simps)
qed

text \<open>A program on which a whole stream has arrived, and which has printed it.\<close>

definition streamed :: "BufSize \<Rightarrow> Event list \<Rightarrow> Link Program" where
  "streamed C evs = (let bytes = concat (map serialise_event evs) in
     (logger_step C False ^^ (3 * length evs + 2)) (receiver_run C link_socket 4 (3 * length evs + 2)
       (new_Program C (Routed 0 (OrderCanceled 0)) \<lparr>cin_rest = [], cin_fail = False\<rparr>
         \<lparr>ln_in = bytes, ln_ended = True, ln_out = (\<lambda>_. [])\<rparr> bytes)))"

lemma streamed_reachable: "program_reachable C False link_socket 4 (streamed C evs)"
  using program_reachable.start[of C False link_socket 4 "Routed 0 (OrderCanceled 0)"
      "\<lparr>cin_rest = [], cin_fail = False\<rparr>"
      "\<lparr>ln_in = concat (map serialise_event evs), ln_ended = True, ln_out = (\<lambda>_. [])\<rparr>"]
  unfolding streamed_def Let_def
  by (intro logger_run_reachable receiver_run_reachable) (simp add: link_socket_def)

lemma logger_step_keeps:
  "p_main ((logger_step C block_mode ^^ n) p) = p_main p"
  "p_lost ((logger_step C block_mode ^^ n) p) = p_lost p"
  "p_arrived ((logger_step C block_mode ^^ n) p) = p_arrived p"
  "p_env ((logger_step C block_mode ^^ n) p) = p_env p"
  by (induction n) (simp_all add: logger_step_def split: Logger.split option.split prod.split)

lemma streamed_values:
  assumes "cap_ok C" and "\<forall>ev \<in> set evs. event_wire_ok ev" and "length evs \<le> unat C - 1"
  shows "p_logger (streamed C evs) = L_done" "p_main (streamed C evs) = M_typing"
    "\<not> p_lost (streamed C evs)" "p_arrived (streamed C evs) = concat (map serialise_event evs)"
proof -
  let ?bytes = "concat (map serialise_event evs)"
  let ?p = "new_Program C (Routed 0 (OrderCanceled 0)) \<lparr>cin_rest = [], cin_fail = False\<rparr>
    \<lparr>ln_in = ?bytes, ln_ended = True, ln_out = (\<lambda>_. [])\<rparr> ?bytes"
  let ?n = "3 * length evs + 2"
  obtain s rb where q: "sink_ok C False rb" "rb_items C rb = map received evs"
    "receiver_run C link_socket 4 ?n ?p =
       ?p\<lparr>p_running := False, p_receiver := R_closed, p_sink := rb, p_env := s,
         p_received := map received evs\<rparr>"
    using receiver_takes[OF link_socket_law, of ?p C False 4 evs] assms(2,3)
    by (simp add: new_Program_def new_RingBuffer_ok(2)[OF assms(1)] new_sink_ok[OF assms(1)]
        link_socket_sees del: receiver_run.simps) blast
  have run: "streamed C evs = (logger_step C False ^^ ?n)
      (?p\<lparr>p_running := False, p_receiver := R_closed, p_sink := rb, p_env := s,
         p_received := map received evs\<rparr>)" (is "_ = (_ ^^ _) ?q")
    unfolding streamed_def Let_def q(3) by (rule refl)
  have "\<exists>p'. (logger_step C False ^^ (3 * length (map received evs) + 2)) ?q = p' \<and> p_logger p' = L_done \<and>
      p_log p' = p_log ?q @ concat (map event_line (map received evs)) \<and> rb_items C (p_sink p') = []"
    by (rule logger_drains) (simp_all add: q new_Program_def)
  then show "p_logger (streamed C evs) = L_done" unfolding run by simp
  show "p_main (streamed C evs) = M_typing" "\<not> p_lost (streamed C evs)"
    "p_arrived (streamed C evs) = ?bytes"
    unfolding run logger_step_keeps by (simp_all add: new_Program_def)
qed

section \<open>The log\<close>

lemma subseq_map_right: "subseq xs (map f ys) \<Longrightarrow> \<exists>zs. xs = map f zs \<and> subseq zs ys"
  unfolding subseq_conv_nths by (metis nths_map)

text \<open>What is printed, in every state.\<close>

lemma client_logged:
  assumes "cap_ok C" and "socket_law so outgoing" and "program_reachable C block_mode so fd p"
    and "p_main p \<noteq> M_closed" and "\<forall>ev \<in> set evs. event_wire_ok ev"
    and "p_arrived p @ rest = concat (map serialise_event evs)"
    and "so_ended so (p_env p) fd \<longrightarrow> rest = []"
  shows "\<exists>taken. p_log p = concat (map event_line taken) \<and> subseq taken (map received evs) \<and>
    (\<not> p_lost p \<longrightarrow> prefix taken (map received evs)) \<and>
    (p_logger p = L_done \<and> p_main p = M_typing \<and> \<not> p_lost p \<longrightarrow> taken = map received evs)"
proof -
  have inv: "log_inv C block_mode p" "flag_inv C p" "streams_inv so fd p"
    using program_reachable_inv[OF assms(1-3)] by (simp_all add: program_inv_def)
  let ?queued = "rb_items C (p_sink p) @ pushing (p_receiver p)"
  obtain k where k: "k \<le> length evs" "p_received p = map received (take k evs)"
    "p_receiver p = R_closed \<longrightarrow> k = length evs"
    using streams_invD[OF inv(3) assms(4-7)] by (auto simp: stream_inv_def)
  have flow: "subseq (p_taken p @ ?queued) (p_received p)"
    "\<not> p_lost p \<longrightarrow> p_received p = p_taken p @ ?queued"
    and log: "p_log p = concat (map event_line (p_taken p))"
    using inv(1) by (simp_all add: log_inv_def flows_def)
  have first: "prefix (p_received p) (map received evs)"
    using k(2) take_is_prefix[of k "map received evs"] by (simp add: take_map)
  have "subseq (p_taken p) (p_taken p @ ?queued)" by (simp add: prefix_imp_subseq)
  with flow(1) first have "subseq (p_taken p) (map received evs)"
    by (meson prefix_imp_subseq subseq_order.trans)
  moreover have "prefix (p_taken p) (map received evs)" if "\<not> p_lost p"
    using that flow(2) first by (metis prefixI prefix_order.trans)
  moreover have "p_taken p = map received evs"
    if ended: "p_logger p = L_done" "p_main p = M_typing" "\<not> p_lost p"
  proof -
    have "p_receiver p = R_closed" "rb_empty (p_sink p)" using inv(2) ended by (auto simp: flag_inv_def)
    moreover have "rb_items C (p_sink p) = []"
      using inv(1) calculation(2) sink_empty by (auto simp: log_inv_def)
    ultimately show ?thesis using flow(2) ended(3) k by simp
  qed
  ultimately show ?thesis using log by blast
qed

text \<open>The same over the events as the server has sent them.\<close>

lemma client_logged_events:
  assumes "cap_ok C" and "socket_law so outgoing" and "program_reachable C block_mode so fd p"
    and "p_main p \<noteq> M_closed" and "\<forall>ev \<in> set evs. event_wire_ok ev"
    and "p_arrived p @ rest = concat (map serialise_event evs)"
    and "so_ended so (p_env p) fd \<longrightarrow> rest = []"
  obtains evs' where "p_log p = concat (map event_line (map received evs'))" and "subseq evs' evs"
    and "\<not> p_lost p \<longrightarrow> prefix evs' evs"
    and "p_logger p = L_done \<and> p_main p = M_typing \<and> \<not> p_lost p \<longrightarrow> evs' = evs"
proof -
  obtain taken where taken: "p_log p = concat (map event_line taken)" "subseq taken (map received evs)"
    "\<not> p_lost p \<longrightarrow> prefix taken (map received evs)"
    "p_logger p = L_done \<and> p_main p = M_typing \<and> \<not> p_lost p \<longrightarrow> taken = map received evs"
    using client_logged[OF assms] by blast
  show thesis
  proof (cases "p_lost p")
    case True
    from subseq_map_right[OF taken(2)] obtain evs' where "taken = map received evs'" "subseq evs' evs" by blast
    with True taken(1) show thesis by (intro that[of evs']) simp_all
  next
    case False
    with taken(3) obtain k where k: "taken = map received (take k evs)"
      by (metis prefix_def append_eq_conv_conj take_map)
    show thesis
    proof (cases "p_logger p = L_done \<and> p_main p = M_typing")
      case True
      with False taken(1,4) show thesis by (intro that[of evs]) simp_all
    next
      case running: False
      then show thesis using k taken(1)
        by (intro that[of "take k evs"]) (auto simp: take_is_prefix prefix_imp_subseq)
    qed
  qed
qed

text \<open>C37: The client prints what it is sent: at every moment the lines printed are those of some of the
  events that have arrived, in their order, of the first of them as long as no push has failed; and
  when the logging thread ends although the user has not quit, the lines of all the
  events are there. However the steps of the threads and the arrival of bytes interleave.\<close>

theorem client_logs_everything:
  assumes "cap_ok C" and "socket_law so outgoing" and "program_reachable C block_mode so fd p"
    and "p_main p \<noteq> M_closed" and "\<forall>ev \<in> set evs. event_wire_ok ev"
    and "p_arrived p @ rest = concat (map serialise_event evs)"
    and "so_ended so (p_env p) fd \<longrightarrow> rest = []"
  shows "\<exists>taken. p_log p = concat (map event_line taken) \<and> subseq taken (map received evs) \<and>
    (\<not> p_lost p \<longrightarrow> prefix taken (map received evs)) \<and>
    (p_logger p = L_done \<and> p_main p = M_typing \<and> \<not> p_lost p \<longrightarrow> taken = map received evs)"
  by (rule client_logged[OF assms])

theorem client_logs_everything_witness:
  "p_logger (streamed 8 [one_event]) = L_done \<and> p_log (streamed 8 [one_event]) = event_line one_event"
proof -
  have cap: "cap_ok 8" by (simp add: cap_ok_def)
  note facts = streamed_values[OF cap, of "[one_event]"]
  have "received one_event = one_event" by (simp add: one_event_def)
  with client_logs_everything[OF cap link_socket_law streamed_reachable, of "[one_event]" "[one_event]" "[]"]
    facts one_event_wire_ok
  show ?thesis by (auto simp del: event_line.simps)
qed

section \<open>The end of the logging thread\<close>

text \<open>Once \<open>running\<close> is false, the logging thread ends: left to itself, and seeing the current indices of the buffer, it takes and prints
  everything that is still in the sink, and returns after at most three steps for every event and
  three more.\<close>

theorem logger_ends:
  assumes "sink_ok C block_mode (p_sink p)" and "\<not> p_running p" and "p_logger p \<noteq> L_done"
  shows "\<exists>n \<le> 3 * length (rb_items C (p_sink p)) + 3. \<exists>p'. (logger_step C block_mode ^^ n) p = p' \<and>
    p_logger p' = L_done \<and> rb_items C (p_sink p') = [] \<and>
    p_log p' = p_log p @ concat (map event_line (rb_items C (p_sink p)))"
proof -
  let ?step = "logger_step C block_mode" and ?q = "p\<lparr>p_logger := L_check\<rparr>"
  let ?evs = "rb_items C (p_sink p)"
  have drains: "\<exists>p'. (?step ^^ (3 * length ?evs + 2)) ?q = p' \<and> p_logger p' = L_done \<and>
      p_log p' = p_log p @ concat (map event_line ?evs) \<and> rb_items C (p_sink p') = []"
    using logger_drains[of C block_mode ?q ?evs] assms(1,2) by simp
  show ?thesis
  proof (cases "p_logger p")
    case L_check
    then have "?q = p" by simp
    with drains show ?thesis by (intro exI[of _ "3 * length ?evs + 2"]) simp
  next
    case L_test
    then have "?step ?q = p" using assms(2) by (simp add: logger_step_def)
    moreover have "3 * length ?evs + 2 = Suc (3 * length ?evs + 1)" by simp
    ultimately show ?thesis
      using drains by (intro exI[of _ "3 * length ?evs + 1"]) (simp only: funpow_Suc_right comp_apply, simp)
  next
    case L_pop
    show ?thesis
    proof (cases ?evs)
      case Nil
      then have "?step p = ?q" using L_pop sink.pop_none[OF assms(1) Nil] by (simp add: logger_step_def)
      then show ?thesis
        using drains Nil by (intro exI[of _ "Suc 2"]) (simp only: funpow_Suc_right comp_apply, simp add: numeral_2_eq_2)
    next
      case (Cons ev evs)
      then have "\<not> rb_empty (p_sink p)"
        using sink_empty[OF assms(1)] by simp
      then have "?step (?step ?q) = p" using L_pop assms(2) by (simp add: logger_step_def)
      moreover have "3 * length ?evs + 2 = Suc (Suc (3 * length ?evs))" by simp
      ultimately show ?thesis
        using drains by (intro exI[of _ "3 * length ?evs"]) (simp only: funpow_Suc_right comp_apply, simp)
    qed
  qed (use assms(3) in simp)
qed

theorem logger_ends_witness:
  "\<exists>n \<le> 6. p_logger ((logger_step 8 True ^^ n) one_received) = L_done \<and>
     p_log ((logger_step 8 True ^^ n) one_received) = event_line one_event"
proof -
  have "sink_ok 8 True (p_sink one_received)"
    using program_reachable_inv[OF _ link_socket_law one_received_reachable]
    by (simp add: program_inv_def log_inv_def cap_ok_def)
  moreover have items: "rb_items 8 (p_sink one_received) = [one_event]"
    and "\<not> p_running one_received" "p_logger one_received = L_check" "p_log one_received = []"
    using one_received_values by simp_all
  ultimately show ?thesis
    using logger_ends[of 8 True one_received, unfolded items] by (simp del: event_line.simps) blast
qed

text \<open>
  A step while the connection is idle: of a thread of the program, or bytes arrive which do not complete a
  frame and do not end the stream.
\<close>

definition idle_step :: "BufSize \<Rightarrow> bool \<Rightarrow> 's socket \<Rightarrow> int \<Rightarrow> 's Program \<Rightarrow> 's Program \<Rightarrow> bool" where
  "idle_step C block_mode so fd p q \<longleftrightarrow> program_step C block_mode so fd p q \<or>
     arrival so fd p q \<and> \<not> frame_arrived (so_incoming so (p_env q) fd) \<and> \<not> so_ended so (p_env q) fd"

text \<open>C38: Once the receiving thread waits in \<open>recv\<close>, quitting does not end the program while the connection
  is idle: whatever the threads do, and whatever bytes arrive, as long as they complete no frame
  and the peer does not close, the receiving thread cannot leave \<open>recv\<close>, the main thread cannot leave
  \<open>join\<close> once it is there, and the socket is never closed.\<close>

theorem client_quit_hangs:
  assumes "socket_law so outgoing" and "p_receiver p = R_recv" and "p_main p \<noteq> M_closed"
    and "\<not> frame_arrived (so_incoming so (p_env p) fd)" and "\<not> so_ended so (p_env p) fd"
    and "(idle_step C block_mode so fd)\<^sup>*\<^sup>* p p'"
  shows "p_receiver p' = R_recv \<and> p_main p' \<noteq> M_closed \<and>
    receiver_step C (so_recv so) (so_incoming so) (so_ended so) fd p' = None \<and>
    (p_main p' = M_joining \<longrightarrow> main_step (so_send so) (so_close so) fd p' = None)"
proof -
  have "p_receiver p' = R_recv \<and> p_main p' \<noteq> M_closed \<and>
      \<not> frame_arrived (so_incoming so (p_env p') fd) \<and> \<not> so_ended so (p_env p') fd"
    using assms(6)
  proof (induction rule: rtranclp_induct)
    case base
    show ?case using assms(2-5) by simp
  next
    case (step q r)
    consider (own) "program_step C block_mode so fd q r"
      | (peer) "arrival so fd q r" "\<not> frame_arrived (so_incoming so (p_env r) fd)" "\<not> so_ended so (p_env r) fd"
      using step.hyps(2) unfolding idle_step_def by blast
    then show ?case
    proof cases
      case peer
      from peer(1) step.IH peer(2,3) show ?thesis by (cases rule: arrival.cases) simp
    next
      case own
      then show ?thesis
      proof (cases rule: program_step.cases)
        case main
        have "p_main r \<noteq> M_closed" using main step.IH by (cases rule: main_step_cases) simp_all
        from main_keeps_stream[OF assms(1) main this] this step.IH show ?thesis by simp
      next
        case receiver
        then show ?thesis using step.IH by (simp add: receiver_step_def)
      next
        case logger
        then show ?thesis using step.IH
          by (simp add: logger_step_def split: Logger.split option.split prod.split)
      qed (use step.IH in simp_all)
    qed
  qed
  then show ?thesis by (simp add: receiver_step_def main_step_def)
qed

text \<open>The connection is idle, the user quits, and half of a header arrives.\<close>

definition idle :: "Link Program" where
  "idle =
     (new_Program 8 (Routed 0 (OrderCanceled 0)) \<lparr>cin_rest = ''-1'' @ newline, cin_fail = False\<rparr>
       \<lparr>ln_in = [], ln_ended = False, ln_out = (\<lambda>_. [])\<rparr> [])\<lparr>p_receiver := R_recv\<rparr>"

definition idle_quit :: "Link Program" where
  "idle_quit = idle\<lparr>p_cin := \<lparr>cin_rest = newline, cin_fail = False\<rparr>, p_running := False, p_main := M_joining\<rparr>"

lemma read_quit:
  "read_message \<lparr>cin_rest = ''-1'' @ newline, cin_fail = False\<rparr> =
     Some (Inr None, \<lparr>cin_rest = newline, cin_fail = False\<rparr>)"
  using cin_menu(4)[of "[]" newline] by (subst read_message.simps) (simp add: newline_def)

lemma idle_quits: "main_step (so_send link_socket) (so_close link_socket) 4 idle = Some idle_quit"
  by (simp add: idle_quit_def idle_def main_step_def new_Program_def read_quit del: append.simps)

definition idle_arrived :: "Link Program" where
  "idle_arrived = idle_quit\<lparr>p_env := (p_env idle_quit)\<lparr>ln_in := [0, 3]\<rparr>, p_arrived := [0, 3]\<rparr>"

lemma idle_arrives: "arrival link_socket 4 idle_quit idle_arrived"
proof -
  have "p_arrived idle_quit = []" "ln_in (p_env idle_quit) = []" "\<not> ln_ended (p_env idle_quit)"
    by (simp_all add: idle_quit_def idle_def new_Program_def)
  then show ?thesis
    using arrival.intros[of link_socket "(p_env idle_quit)\<lparr>ln_in := [0, 3]\<rparr>" 4 idle_quit "[0, 3]"]
    by (simp add: idle_arrived_def link_socket_sees)
qed

theorem client_quit_hangs_witness:
  "main_step (so_send link_socket) (so_close link_socket) 4 idle = Some idle_quit \<and>
   arrival link_socket 4 idle_quit idle_arrived \<and> p_receiver idle_arrived = R_recv \<and>
   main_step (so_send link_socket) (so_close link_socket) 4 idle_arrived = None"
proof -
  have "idle_step 8 True link_socket 4 idle idle_quit"
    using program_step.main[OF idle_quits] by (simp add: idle_step_def)
  moreover have "idle_step 8 True link_socket 4 idle_quit idle_arrived"
    using idle_arrives by (simp add: idle_step_def idle_arrived_def idle_quit_def idle_def new_Program_def
        link_socket_sees frame_arrived_def)
  ultimately have "(idle_step 8 True link_socket 4)\<^sup>*\<^sup>* idle idle_arrived"
    by (rule converse_rtranclp_into_rtranclp[OF _ r_into_rtranclp])
  from client_quit_hangs[OF link_socket_law _ _ _ _ this] idle_quits idle_arrives show ?thesis
    by (simp add: idle_def new_Program_def link_socket_sees frame_arrived_def idle_arrived_def idle_quit_def)
qed

end
