(* ===== verification/Program_End.thy ===== *)
theory Program_End
  imports Program_Properties
begin

text \<open>
  The main thread of the client program against the loop of the console, and the end of the program: once
  the user has quit and the peer has closed the connection, every step of its threads is progress unless
  a pop misses an item that is there, and they end.
\<close>

section \<open>The main thread is its loop\<close>

text \<open>
  The loop of \<open>main\<close> in \<open>Console\<close> and the steps of the main thread agree: what the loop returns is
  where the thread, left to itself, waits for the others.
\<close>

abbreviation main_runs :: "'s send \<Rightarrow> ('s \<Rightarrow> int \<Rightarrow> 's) \<Rightarrow> int \<Rightarrow> 's Program \<Rightarrow> 's Program \<Rightarrow> bool" where
  "main_runs send close fd \<equiv> (\<lambda>a b. main_step send close fd a = Some b)\<^sup>*\<^sup>*"

definition quit_at :: "Cin \<Rightarrow> 's \<Rightarrow> 's Program \<Rightarrow> 's Program" where
  "quit_at cin s p = p\<lparr>p_cin := cin, p_env := s, p_running := False, p_main := M_joining\<rparr>"

definition main_follows ::
  "'s send \<Rightarrow> ('s \<Rightarrow> int \<Rightarrow> 's) \<Rightarrow> int \<Rightarrow> Cin \<Rightarrow> 's \<Rightarrow> unit res \<times> Cin \<times> 's \<Rightarrow> bool"
where
  "main_follows send close fd cin s y \<longleftrightarrow>
     (\<forall>p. fst y = Inr () \<and> p_main p = M_typing \<and> p_cin p = cin \<and> p_env p = s \<longrightarrow>
        main_runs send close fd p (quit_at (fst (snd y)) (snd (snd y)) p))"

lemma client_loop_main_steps:
  "client_loop send fd cin s = Some y \<Longrightarrow> main_follows send close fd cin s y"
proof (rule client_loop.raw_induct[of "\<lambda>send fd cin s y. main_follows send close fd cin s y"])
  fix loop and send :: "'a send" and fd cin s y
  assume rec: "\<And>send fd cin s y. loop send fd cin s = Some y \<Longrightarrow> main_follows send close fd cin s y"
    and body: "(case read_message cin of None \<Rightarrow> None
      | Some (Inl e, cin') \<Rightarrow> Some (Inl e, cin', s)
      | Some (Inr None, cin') \<Rightarrow> Some (Inr (), cin', s)
      | Some (Inr (Some m), cin') \<Rightarrow>
          (case run_msg_sender send fd m s of None \<Rightarrow> None | Some s' \<Rightarrow> loop send fd cin' s')) = Some y"
  show "main_follows send close fd cin s y"
    unfolding main_follows_def
  proof (intro allI impI)
    fix p :: "'a Program"
    assume p: "fst y = Inr () \<and> p_main p = M_typing \<and> p_cin p = cin \<and> p_env p = s"
    obtain r cin' where read: "read_message cin = Some (r, cin')"
      using body by (cases "read_message cin") auto
    consider (quit) "r = Inr None" | (typed) m s' where "r = Inr (Some m)"
        "run_msg_sender send fd m s = Some s'" "loop send fd cin' s' = Some y"
      using body p read by (auto split: sum.splits option.splits)
    then show "main_runs send close fd p (quit_at (fst (snd y)) (snd (snd y)) p)"
    proof cases
      case quit
      then have "main_step send close fd p = Some (quit_at (fst (snd y)) (snd (snd y)) p)"
        using body p read by (auto simp: main_step_def quit_at_def)
      then show ?thesis by blast
    next
      case typed
      let ?p = "p\<lparr>p_cin := cin', p_env := s'\<rparr>"
      have "main_step send close fd p = Some ?p" using typed p read by (simp add: main_step_def)
      moreover have "main_runs send close fd ?p (quit_at (fst (snd y)) (snd (snd y)) ?p)"
        using rec[OF typed(3)] p by (simp add: main_follows_def)
      ultimately show ?thesis by (simp add: quit_at_def converse_rtranclp_into_rtranclp)
    qed
  qed
qed

lemma main_closed_stays:
  "\<lbrakk> main_runs send close fd p q; p_main p = M_closed \<rbrakk> \<Longrightarrow> q = p"
  by (erule converse_rtranclpE) (simp_all add: main_step_def)

lemma main_steps_client_loop:
  assumes "main_runs send close fd p q" and "p_main q = M_joining"
  shows "p_main p = M_typing \<Longrightarrow> client_loop send fd (p_cin p) (p_env p) = Some (Inr (), p_cin q, p_env q) \<and>
    q = quit_at (p_cin q) (p_env q) p"
  using assms(1)
proof (induction rule: converse_rtranclp_induct)
  case base
  with assms(2) show ?case by simp
next
  case (step p r)
  obtain x cin where read: "read_message (p_cin p) = Some (x, cin)"
    using step by (cases "read_message (p_cin p)") (auto simp: main_step_def)
  consider (quit) "x = Inr None" "r = p\<lparr>p_cin := cin, p_running := False, p_main := M_joining\<rparr>"
    | (typed) m s where "x = Inr (Some m)" "run_msg_sender send fd m (p_env p) = Some s"
      "r = p\<lparr>p_cin := cin, p_env := s\<rparr>"
    using step.hyps(1) step.prems read by (auto simp: main_step_def split: sum.splits option.splits)
  then show ?case
  proof cases
    case quit
    have "r = q"
      using step.hyps(2) quit assms(2)
    proof (cases rule: converse_rtranclpE)
      case (step t)
      have "p_main t = M_closed" using step(1) quit(2) by (cases rule: main_step_cases) simp_all
      with main_closed_stays[OF step(2)] assms(2) show ?thesis by simp
    qed simp
    with quit read show ?thesis by (subst client_loop.simps) (simp add: quit_at_def)
  next
    case typed
    with step.IH step.prems read show ?thesis by (subst client_loop.simps) (simp add: quit_at_def)
  qed
qed

theorem main_thread_is_loop:
  assumes "p_main p = M_typing"
  shows "client_loop send fd (p_cin p) (p_env p) = Some (Inr (), cin, s) \<longleftrightarrow>
    main_runs send close fd p (quit_at cin s p)"
proof
  assume "client_loop send fd (p_cin p) (p_env p) = Some (Inr (), cin, s)"
  from client_loop_main_steps[OF this, of close] assms
  show "main_runs send close fd p (quit_at cin s p)" by (simp add: main_follows_def)
next
  assume "main_runs send close fd p (quit_at cin s p)"
  from main_steps_client_loop[OF this _ assms]
  show "client_loop send fd (p_cin p) (p_env p) = Some (Inr (), cin, s)" by (simp add: quit_at_def)
qed

section \<open>What is left to do\<close>

text \<open>
  A step of a thread that changes something and sees the current indices of the buffer.
\<close>

definition prompt_step :: "BufSize \<Rightarrow> bool \<Rightarrow> 's socket \<Rightarrow> int \<Rightarrow> 's Program \<Rightarrow> 's Program \<Rightarrow> bool" where
  "prompt_step C block_mode so fd p q \<longleftrightarrow> q \<noteq> p \<and>
     (main_step (so_send so) (so_close so) fd p = Some q \<or>
      receiver_step C (so_recv so) (so_incoming so) (so_ended so) fd p = Some q \<or>
      q = logger_step C block_mode p)"

text \<open>What the threads have left to do once the user has quit and the peer has closed.\<close>

fun main_left :: "Main \<Rightarrow> nat" where
  "main_left M_closed = 0"
| "main_left _ = 1"

fun receiver_left :: "Receiver \<Rightarrow> nat" where
  "receiver_left R_check = 1"
| "receiver_left R_recv = 6"
| "receiver_left (R_push _) = 5"
| "receiver_left _ = 0"

fun logger_left :: "nat \<Rightarrow> Logger \<Rightarrow> nat" where
  "logger_left n L_done = 0"
| "logger_left n L_test = 3 * n + 1"
| "logger_left n L_check = 3 * n + 2"
| "logger_left n L_pop = (if n = 0 then 3 else 3 * n)"

definition steps_left :: "BufSize \<Rightarrow> 's Program \<Rightarrow> nat" where
  "steps_left C p = main_left (p_main p) + receiver_left (p_receiver p) +
     logger_left (length (rb_items C (p_sink p))) (p_logger p)"

definition quitting :: "BufSize \<Rightarrow> bool \<Rightarrow> 's socket \<Rightarrow> int \<Rightarrow> 's Program \<Rightarrow> bool" where
  "quitting C block_mode so fd p \<longleftrightarrow> program_inv C block_mode so fd p \<and> p_main p \<noteq> M_typing \<and>
     (p_main p \<noteq> M_closed \<longrightarrow> so_ended so (p_env p) fd)"

lemma quitting_facts:
  assumes "quitting C block_mode so fd p"
  shows "sink_ok C block_mode (p_sink p)" and "\<not> p_running p"
    and "p_main p = M_closed \<Longrightarrow> p_receiver p \<in> {R_stopped, R_closed} \<and> p_logger p = L_done"
  using assms by (auto simp: quitting_def program_inv_def log_inv_def flag_inv_def)

lemma logger_left_mono: "logger_left (min m (n + 1)) l \<le> logger_left n l + 3"
  by (cases l) (auto simp: min_def)

lemma main_shortens:
  assumes "quitting C block_mode so fd p" and "main_step send close fd p = Some q"
  shows "steps_left C q < steps_left C p \<and> p_main q = M_closed"
  using assms(2) by (cases rule: main_step_cases) (use assms(1) in \<open>simp_all add: quitting_def steps_left_def\<close>)

lemma receiver_shortens:
  assumes "quitting C block_mode so fd p"
    and "receiver_step C recv incoming ended fd p = Some q"
  shows "steps_left C q < steps_left C p"
  using assms(2)
proof (cases rule: receiver_step_cases)
  case check
  with quitting_facts(2)[OF assms(1)] show ?thesis by (simp add: steps_left_def)
next
  case (push ev ok sink)
  have "rb_items C sink = take (unat C - 1) (rb_items C (p_sink p) @ [ev])"
    using sink.push_items[OF quitting_facts(1)[OF assms(1)], of ev] push by simp
  then have "length (rb_items C sink) = min (unat C - 1) (length (rb_items C (p_sink p)) + 1)"
    by (simp del: length_rb_items)
  with push logger_left_mono[of "unat C - 1" "length (rb_items C (p_sink p))" "p_logger p"]
  show ?thesis by (simp add: steps_left_def)
next
  case (parse r s)
  then show ?thesis by (simp add: steps_left_def split: parse_result.splits option.splits)
qed

lemma logger_shortens:
  assumes "quitting C block_mode so fd p" and "p_logger p \<noteq> L_done"
  shows "steps_left C (logger_step C block_mode p) < steps_left C p"
proof -
  note facts = quitting_facts[OF assms(1)]
  show ?thesis
  proof (cases "p_logger p")
    case L_pop
    show ?thesis
    proof (cases "rb_items C (p_sink p)")
      case Nil
      with L_pop sink.pop_none[OF facts(1) Nil] show ?thesis
        by (simp add: logger_step_def steps_left_def del: length_rb_items)
    next
      case (Cons ev evs)
      with L_pop sink.pop_some[OF facts(1) Cons] show ?thesis
        by (auto simp: logger_step_def steps_left_def simp del: length_rb_items event_line.simps)
    qed
  next
    case L_test
    with sink_empty[OF facts(1)] show ?thesis
      by (auto simp: logger_step_def steps_left_def simp del: length_rb_items)
  qed (use facts(2) assms(2) in \<open>simp_all add: logger_step_def steps_left_def\<close>)
qed

text \<open>
  A stale pop that misses an item which is in the sink: the only step after which more is left to do,
  since the logging thread has to come back for the item.
\<close>

definition missed_pop :: "BufSize \<Rightarrow> 's Program \<Rightarrow> 's Program \<Rightarrow> bool" where
  "missed_pop C p q \<longleftrightarrow> p_logger p = L_pop \<and> rb_items C (p_sink p) \<noteq> [] \<and> q = p\<lparr>p_logger := L_check\<rparr>"

lemma program_step_quits:
  assumes law: "socket_law so outgoing" and quit: "quitting C block_mode so fd p"
    and step: "program_step C block_mode so fd p q"
  shows "quitting C block_mode so fd q"
proof -
  have inv: "program_inv C block_mode so fd q"
    using program_step_inv[OF law _ step] quit by (simp add: quitting_def)
  from step show ?thesis
  proof (cases rule: program_step.cases)
    case main
    with main_shortens[OF quit main] inv show ?thesis by (simp add: quitting_def)
  next
    case receiver
    have "p_main q = p_main p \<and> (p_main p \<noteq> M_closed \<longrightarrow> so_ended so (p_env q) fd)"
      using receiver
    proof (cases rule: receiver_step_cases)
      case (parse r s)
      have "so_ended so s = so_ended so (p_env p)"
        by (rule parse_event_keeps[where f = "so_ended so", OF parse(3) socket_lawD(4)[OF law]])
      with parse quit show ?thesis
        by (simp add: quitting_def split: parse_result.splits option.splits)
    qed (use quit in \<open>simp_all add: quitting_def\<close>)
    with inv quit show ?thesis by (simp add: quitting_def)
  next
    case logger
    then have "p_main q = p_main p" "p_env q = p_env p"
      using logger_step_keeps[of 1 C block_mode p] by simp_all
    with inv quit show ?thesis by (simp add: quitting_def)
  qed (use inv quit in \<open>simp_all add: quitting_def\<close>)
qed

lemma program_step_shortens:
  assumes quit: "quitting C block_mode so fd p"
    and step: "program_step C block_mode so fd p q" and "q \<noteq> p"
  shows "steps_left C q < steps_left C p \<or> missed_pop C p q \<and> steps_left C q \<le> steps_left C p + 2"
  using step
proof (cases rule: program_step.cases)
  case main
  with main_shortens[OF quit main] show ?thesis by simp
next
  case receiver
  with receiver_shortens[OF quit receiver] show ?thesis by simp
next
  case logger
  then have "p_logger p \<noteq> L_done" using assms(3) by (auto simp: logger_step_def)
  with logger_shortens[OF quit] logger show ?thesis by simp
qed (auto simp: steps_left_def missed_pop_def simp del: length_rb_items)

lemma prompt_goes_on:
  assumes law: "socket_law so outgoing" and quit: "quitting C block_mode so fd p" and "p_main p \<noteq> M_closed"
  shows "\<exists>q. prompt_step C block_mode so fd p q"
proof (cases "p_receiver p \<in> {R_stopped, R_closed}")
  case False
  have "so_ended so (p_env p) fd" using quit assms(3) by (simp add: quitting_def)
  with False have "receiver_step C (so_recv so) (so_incoming so) (so_ended so) fd p \<noteq> None"
    by (cases "p_receiver p") (auto simp: receiver_step_def split: prod.splits parse_result.splits option.splits)
  then obtain q where q: "receiver_step C (so_recv so) (so_incoming so) (so_ended so) fd p = Some q" by blast
  with receiver_shortens[OF quit q] show ?thesis by (auto simp: prompt_step_def)
next
  case True
  show ?thesis
  proof (cases "p_logger p = L_done")
    case False
    have "logger_step C block_mode p \<noteq> p" using logger_shortens[OF quit False] by auto
    then show ?thesis unfolding prompt_step_def by blast
  next
    case done': True
    have "p_main p = M_joining" using quit assms(3) by (cases "p_main p") (simp_all add: quitting_def)
    with True done' obtain q where q: "main_step (so_send so) (so_close so) fd p = Some q"
      by (auto simp: main_step_def)
    with main_shortens[OF quit q] show ?thesis by (auto simp: prompt_step_def)
  qed
qed

section \<open>The end of the program\<close>

lemma run_shortens:
  assumes law: "socket_law so outgoing" and start: "quitting C block_mode so fd (f 0)"
  shows "\<forall>i<n. program_step C block_mode so fd (f i) (f (Suc i)) \<and> f (Suc i) \<noteq> f i \<Longrightarrow>
    quitting C block_mode so fd (f n) \<and>
    n + steps_left C (f n) \<le> steps_left C (f 0) + 3 * card {i. i < n \<and> missed_pop C (f i) (f (Suc i))}"
proof (induction n)
  case 0
  show ?case using start by simp
next
  case (Suc n)
  let ?missed = "\<lambda>n. {i. i < n \<and> missed_pop C (f i) (f (Suc i))}"
  have quit: "quitting C block_mode so fd (f n)"
    and le: "n + steps_left C (f n) \<le> steps_left C (f 0) + 3 * card (?missed n)"
    and step: "program_step C block_mode so fd (f n) (f (Suc n))" "f (Suc n) \<noteq> f n"
    using Suc by simp_all
  have "?missed (Suc n) = (if missed_pop C (f n) (f (Suc n)) then insert n (?missed n) else ?missed n)"
    by (auto simp: less_Suc_eq)
  then have "card (?missed (Suc n)) = card (?missed n) + (if missed_pop C (f n) (f (Suc n)) then 1 else 0)"
    by simp
  with program_step_shortens[OF quit step] le
  have "Suc n + steps_left C (f (Suc n)) \<le> steps_left C (f 0) + 3 * card (?missed (Suc n))"
    by (cases "missed_pop C (f n) (f (Suc n))") auto
  with program_step_quits[OF law quit step(1)] show ?case by blast
qed

text \<open>C39: Quitting ends the program once the peer has closed the connection, however its threads interleave,
  whatever is still to be parsed and printed, and whichever old indices of the buffer they read: a run
  of steps that each change something is at most ten steps long, and three more for every event in the
  sink and for every pop that misses an item that is there; and until all threads have ended and the
  socket is closed, a step that changes something and misses nothing is possible. So a run that never
  ends misses queued items for ever.\<close>

theorem client_quit_ends:
  assumes "cap_ok C" and "socket_law so outgoing" and "program_reachable C block_mode so fd (f 0)"
    and "p_main (f 0) \<noteq> M_typing" and "so_ended so (p_env (f 0)) fd"
    and "\<forall>i<n. program_step C block_mode so fd (f i) (f (Suc i)) \<and> f (Suc i) \<noteq> f i"
  shows "n \<le> 3 * length (rb_items C (p_sink (f 0))) + 10 +
      3 * card {i. i < n \<and> missed_pop C (f i) (f (Suc i))} \<and>
    (p_main (f n) = M_closed \<or> (\<exists>r. prompt_step C block_mode so fd (f n) r))"
proof -
  have start: "quitting C block_mode so fd (f 0)"
    using program_reachable_inv[OF assms(1-3)] assms(4,5) by (simp add: quitting_def)
  have "steps_left C (f 0) \<le> 3 * length (rb_items C (p_sink (f 0))) + 10"
    unfolding steps_left_def by (cases "p_main (f 0)"; cases "p_receiver (f 0)"; cases "p_logger (f 0)") simp_all
  with run_shortens[OF assms(2) start assms(6)]
  have "n \<le> 3 * length (rb_items C (p_sink (f 0))) + 10 + 3 * card {i. i < n \<and> missed_pop C (f i) (f (Suc i))}"
    and "quitting C block_mode so fd (f n)" by linarith+
  with prompt_goes_on[OF assms(2)] show ?thesis by blast
qed

text \<open>The peer has closed, and the user quits while one event is still to be parsed.\<close>

definition quit_start :: "Link Program" where
  "quit_start = (one_start True)\<lparr>p_cin := \<lparr>cin_rest = ''-1'' @ newline, cin_fail = False\<rparr>\<rparr>"

definition quit_ended :: "Link Program" where
  "quit_ended = quit_start\<lparr>p_cin := \<lparr>cin_rest = newline, cin_fail = False\<rparr>, p_running := False, p_main := M_joining\<rparr>"

lemma quit_ended_reachable: "program_reachable 8 True link_socket 4 quit_ended"
proof -
  have "program_reachable 8 True link_socket 4 quit_start"
    using program_reachable.start[of 8 True link_socket 4 "Routed 0 (OrderCanceled 0)"
        "\<lparr>cin_rest = ''-1'' @ newline, cin_fail = False\<rparr>"
        "\<lparr>ln_in = serialise_event one_event, ln_ended = True, ln_out = (\<lambda>_. [])\<rparr>"]
    by (simp add: quit_start_def one_start_def link_socket_def new_Program_def)
  moreover have "main_step (so_send link_socket) (so_close link_socket) 4 quit_start = Some quit_ended"
    by (simp add: quit_ended_def quit_start_def one_start_def main_step_def new_Program_def read_quit del: append.simps)
  ultimately show ?thesis by (blast intro: program_reachable.own program_step.main)
qed

text \<open>From there the logging thread ends in two steps.\<close>

definition quit_run :: "nat \<Rightarrow> Link Program" where
  "quit_run i = (logger_step 8 True ^^ i) quit_ended"

lemma quit_run_values:
  "quit_run 0 = quit_ended" "quit_run (Suc 0) = quit_ended\<lparr>p_logger := L_test\<rparr>"
  "quit_run 2 = quit_ended\<lparr>p_logger := L_done\<rparr>"
proof -
  have "cap_ok 8" by (simp add: cap_ok_def)
  note new = new_RingBuffer_ok[OF this]
  have "sink_ok 8 True (p_sink quit_ended)" "rb_items 8 (p_sink quit_ended) = []"
    by (simp_all add: quit_ended_def quit_start_def one_start_def new_Program_def new new_sink_ok cap_ok_def)
  then have "rb_empty (p_sink quit_ended)" using sink_empty by blast
  then show "quit_run 0 = quit_ended" "quit_run (Suc 0) = quit_ended\<lparr>p_logger := L_test\<rparr>"
    "quit_run 2 = quit_ended\<lparr>p_logger := L_done\<rparr>"
    by (simp_all add: quit_run_def numeral_2_eq_2 logger_step_def quit_ended_def quit_start_def one_start_def
        new_Program_def)
qed

theorem client_quit_ends_witness:
  "so_ended link_socket (p_env (quit_run 0)) 4 \<and> p_logger (quit_run 0) = L_check \<and> p_logger (quit_run 2) = L_done \<and>
   2 \<le> 10 + 3 * card {i. i < 2 \<and> missed_pop 8 (quit_run i) (quit_run (Suc i))} \<and>
   (\<exists>r. prompt_step 8 True link_socket 4 (quit_run 2) r)"
proof -
  have cap: "cap_ok 8" by (simp add: cap_ok_def)
  have at: "p_main quit_ended = M_joining" "so_ended link_socket (p_env quit_ended) 4"
    "rb_items 8 (p_sink quit_ended) = []" "p_logger quit_ended = L_check"
    by (simp_all add: quit_ended_def quit_start_def one_start_def new_Program_def link_socket_def
        new_RingBuffer_ok(2)[OF cap])
  have "quit_run (Suc i) = logger_step 8 True (quit_run i)" for i by (simp add: quit_run_def)
  then have steps: "program_step 8 True link_socket 4 (quit_run i) (quit_run (Suc i))" for i
    by (simp add: program_step.logger)
  have moves: "quit_run (Suc 0) \<noteq> quit_run 0" "quit_run (Suc (Suc 0)) \<noteq> quit_run (Suc 0)"
    unfolding quit_run_values numeral_2_eq_2[symmetric] by (auto dest: arg_cong[of _ _ p_logger] simp: at)
  have run: "\<forall>i<2. program_step 8 True link_socket 4 (quit_run i) (quit_run (Suc i)) \<and> quit_run (Suc i) \<noteq> quit_run i"
    using steps moves by (auto simp: less_2_cases_iff)
  have "program_reachable 8 True link_socket 4 (quit_run 0)" "p_main (quit_run 0) \<noteq> M_typing"
    "so_ended link_socket (p_env (quit_run 0)) 4"
    unfolding quit_run_values using quit_ended_reachable at by simp_all
  from client_quit_ends[OF cap link_socket_law this run] show ?thesis
    unfolding quit_run_values using at by simp
qed


end
