(* ===== verification/Client_Properties.thy ===== *)
theory Client_Properties
  imports Console Printing Demo_Net
begin

text \<open>
  The properties of the client program: what is typed is what is sent, what is received is what is
  logged, and what the console does with bad input.
\<close>

section \<open>The console\<close>

definition wire_send :: "(int \<Rightarrow> Byte list) send" where
  "wire_send s fd bs = (Sent (length bs), s(fd := s fd @ bs))"

lemma wire_send_succeeds: "send_succeeds wire_send (\<lambda>s. s)"
  by (simp add: send_succeeds_def send_law_def wire_send_def)

definition demo_limit :: Message where
  "demo_limit = Add_msg \<lparr>ao_order_type = Limit, ao_time_in_force = GoodTillCancel, ao_client_order_id = 12,
     ao_price = 100, ao_quantity = 5, ao_side = Sell, ao_connection_id = -1, ao_seq = 1\<rparr>"

text \<open>What is typed is what is sent: when the user types valid orders, one per line, and then quits,
  the client reads every one of them, with each number in its field, and puts exactly their
  serialisations on the connection, in order; then the loop ends.\<close>

theorem typed_orders_sent:
  assumes "send_succeeds send outgoing" and "\<forall>m \<in> set ms. typeable m"
  shows "\<exists>cin' s'. client_loop send fd \<lparr>cin_rest = session ms, cin_fail = False\<rparr> s = Some (Inr (), cin', s') \<and>
    outgoing s' fd = outgoing s fd @ concat (map serialise_order ms)"
  using client_loop_session[OF assms, of "[]" fd s] by simp

theorem typed_orders_sent_witness:
  "session [demo_limit, demo_cancel] =
     ''1 12 100 5 1 1'' @ newline @ ''3 7'' @ newline @ ''-1'' @ newline \<and>
   (\<exists>cin' s'. client_loop wire_send 4 \<lparr>cin_rest = session [demo_limit, demo_cancel], cin_fail = False\<rparr> (\<lambda>_. []) =
      Some (Inr (), cin', s') \<and> s' 4 = serialise_order demo_limit @ serialise_order demo_cancel)"
proof -
  have "\<forall>m \<in> set [demo_limit, demo_cancel]. typeable m"
    by (simp add: demo_limit_def demo_cancel_def OrderType_valid_def TimeInForce_valid_def
        Side_valid_def in_i64_def i64_min_def i64_max_def)
  note sent = typed_orders_sent[OF wire_send_succeeds this, of 4 "\<lambda>_. []"]
  have "session [demo_limit, demo_cancel] =
      ''1 12 100 5 1 1'' @ newline @ ''3 7'' @ newline @ ''-1'' @ newline"
    by code_simp
  with sent show ?thesis by (simp del: serialise_order.simps)
qed

text \<open>C40: The console loop never returns without input: on a console at its end, or with nothing but
  white space left, every extraction fails, the fail bit is cleared and the loop starts again, so the
  client spins instead of quitting.\<close>

theorem console_spins_at_end:
  assumes "\<forall>c \<in> set (cin_rest cin). is_space c"
  shows "read_message cin = None \<and> client_loop send fd cin s = None"
proof -
  have "read_message cin = None"
    using read_message_needs_input[of cin] assms by (cases "read_message cin") (auto simp: blank_def)
  then show ?thesis by (simp add: client_loop.simps)
qed

theorem console_spins_at_end_witness:
  "client_loop wire_send 4 \<lparr>cin_rest = newline, cin_fail = False\<rparr> (\<lambda>_. []) = None"
  using console_spins_at_end[of "\<lparr>cin_rest = newline, cin_fail = False\<rparr>" wire_send 4 "\<lambda>_. []"]
  by (simp add: newline_def is_space_def)

text \<open>
  A number that cannot be read leaves the variables after it without a value, and the order is made
  from them: undefined behaviour.
\<close>

lemma cin_failed: "cin_fail cin \<Longrightarrow> cin_i64 cin = (None, cin)" "cin_fail cin \<Longrightarrow> cin_int cin = (None, cin)"
  by (simp_all add: cin_digits_def cin_i64_def cin_int_def cin_signed_def)

lemma bad_number_undefined:
  assumes "cin_fail (snd (cin_u64 cin))" shows "fst (read_add cin) = Inl UB_uninitialised"
proof -
  obtain i cin1 where "cin_u64 cin = (i, cin1)" by fastforce
  with assms cin_failed[of cin1] show ?thesis by (simp add: read_add_def use_def)
qed

section \<open>The log\<close>

text \<open>C36: The client's log is faithful: the lines printed are those of the events in its buffer, in order. Two
  buffers that print the same text hold the same events, all fields of them except for which side a
  trade was initiated by, which is not printed, as long as the reasons of their rejections are named
  ones and the sides of their updates valid (\<open>loggable\<close>): other numbers are printed alike.\<close>

theorem log_determines_events:
  assumes "sink_ok C block_mode sink" and "sink_ok C block_mode sink'"
    and "\<forall>ev \<in> set (rb_items C sink) \<union> set (rb_items C sink'). loggable ev"
    and "length (rb_items C sink) \<le> length flags" and "length (rb_items C sink') \<le> length flags"
    and "fst (consume_events C block_mode flags sink) = fst (consume_events C block_mode flags sink')"
  shows "map logged (rb_items C sink) = map logged (rb_items C sink')"
proof -
  have "fst (consume_events C block_mode flags sink) = concat (map event_line (rb_items C sink))"
    "fst (consume_events C block_mode flags sink') = concat (map event_line (rb_items C sink'))"
    using consume_events_spec[OF assms(1), of flags] consume_events_spec[OF assms(2), of flags] assms(4,5)
    by (auto simp del: event_line.simps)
  with assms(6) log_inject[of "rb_items C sink" "rb_items C sink'"] assms(3) show ?thesis by auto
qed

definition log_events :: "Side \<Rightarrow> Event list" where
  "log_events aggressor =
     [Routed (-1) (OrderRested 3 12 5), Public (TradeExecuted 4 3 100 2 aggressor)]"

definition log_sink :: "Side \<Rightarrow> Event RingBuffer" where
  "log_sink aggressor = ring.push_all 8 (log_events aggressor) (new_RingBuffer 8 (Routed 0 (OrderCanceled 0)))"

lemma cap_ok_8: "cap_ok 8"
  by (simp add: cap_ok_def)

lemma log_sink_ok: "sink_ok 8 False (log_sink aggressor)" "rb_items 8 (log_sink aggressor) = log_events aggressor"
proof -
  note new = new_RingBuffer_ok[OF cap_ok_8, of "Routed 0 (OrderCanceled 0)"]
  show "sink_ok 8 False (log_sink aggressor)"
    using ring.push_all_inv[OF new(1)] by (simp add: log_sink_def sink_ok_def)
  show "rb_items 8 (log_sink aggressor) = log_events aggressor"
    using ring.push_all_fits[OF new(1)] new(2) by (simp add: log_sink_def log_events_def)
qed

definition log_text :: string where
  "log_text =
     ''[PRIVATE conn=-1] Order 3 rested (client_order_id=12) remaining=5'' @ newline @
     ''[PUBLIC] Trade executed between sell order 3 and buy order 4 at price: 100, quantity: 2'' @ newline"

lemma log_sink_text: "fst (consume_events 8 False [True, False] (log_sink aggressor)) = log_text"
proof -
  have "fst (consume_events 8 False [True, False] (log_sink aggressor)) = concat (map event_line (log_events aggressor))"
    using consume_events_spec[OF log_sink_ok(1)[of aggressor], of "[True, False]"]
    by (auto simp: log_sink_ok(2) log_events_def simp del: event_line.simps)
  moreover have "concat (map event_line (log_events aggressor)) = log_text" by code_simp
  ultimately show ?thesis by simp
qed

theorem log_determines_events_witness:
  "fst (consume_events 8 False [True, False] (log_sink Buy)) = log_text \<and>
   map logged (rb_items 8 (log_sink Buy)) = map logged (rb_items 8 (log_sink Sell))"
proof
  show "fst (consume_events 8 False [True, False] (log_sink Buy)) = log_text" by (rule log_sink_text)
  show "map logged (rb_items 8 (log_sink Buy)) = map logged (rb_items 8 (log_sink Sell))"
    by (rule log_determines_events[OF log_sink_ok(1) log_sink_ok(1), of _ _ "[True, False]"])
       (simp_all only: log_sink_text, simp_all add: log_sink_ok(2) log_events_def)
qed

end
