(* ===== verification/End_To_End.thy ===== *)
theory End_To_End
  imports Exchange_Properties Program_Properties Client_Properties
begin

text \<open>
  The two programs together: what a user types into a client reaches the book of the server, and what
  the book does reaches the log of the client. A client and the server share the bytes of a connection,
  nothing else.
\<close>

section \<open>From the console to the book\<close>

lemma typeable_wire_ok: "typeable m \<Longrightarrow> order_wire_ok m"
  by (cases m) (auto simp: OrderType_valid_def)

text \<open>C11: What is typed is what is traded: a user types orders, each with its menu item and its fields as \<open>typed\<close>
  writes them, and quits, and no send fails. Whatever part of the bytes the client sent the server has
  received on a connection, it is the bytes of the first \<open>k\<close> orders typed and of what waits in the
  buffer of the connection. Of its messages the engine has processed, or will take from the buffer or
  from the network thread, only some of these \<open>k\<close> orders, in order and every number in its field, after
  those of earlier connections of the descriptor; as long as no push of the server has failed, exactly
  these; and when everything has arrived and been parsed, \<open>k\<close> is all.\<close>

theorem typed_orders_reach_book:
  assumes "cap_ok C" and "recv_law (sys_recv sys) incoming" and "send_law (sys_send sys) outgoing"
    and "exchange_reachable C block_mode sys socket_fd x" and "fd_to_state (x_server x) fd = Some st"
    and "send_succeeds send sent" and "\<forall>m \<in> set ms. typeable m"
    and "client_loop send cfd \<lparr>cin_rest = session ms, cin_fail = False\<rparr> s = Some (r, cin, s')"
    and "sent s' cfd = sent s cfd @ snd (x_history x fd) @ rest"
    and "way = x_done x @ rb_items C (x_messages x) @ x_parsed x"
  shows "process_all (x_done x) new_OrderBook = Inr (x_book x) \<and>
    (\<exists>k \<le> length ms. snd (x_history x fd) = concat (map serialise_order (take k ms)) @ pending_bytes st \<and>
       subseq (of_connection fd way)
         (of_connection fd (take (fst (x_history x fd)) (server_sink (x_server x))) @ map unstamped (take k ms)) \<and>
       (\<not> x_lost x \<longrightarrow> of_connection fd (drop (fst (x_history x fd)) way) = map unstamped (take k ms)) \<and>
       (rest = [] \<and> pending_bytes st = [] \<longrightarrow> k = length ms))"
proof -
  have inv: "exchange_inv C block_mode x" by (rule exchange_invariant[OF assms(1-4)])
  have "snd (x_history x fd) @ rest = order_stream ms"
    using client_loop_session[OF assms(6,7), of "[]" cfd s] assms(8,9) by (auto simp: order_stream_def)
  moreover have "\<forall>m \<in> set ms. order_wire_ok m" using assms(7) typeable_wire_ok by blast
  ultimately have "\<exists>k \<le> length ms. snd (x_history x fd) = order_stream (take k ms) @ pending_bytes st \<and>
       subseq (of_connection fd way)
         (of_connection fd (take (fst (x_history x fd)) (server_sink (x_server x))) @ map unstamped (take k ms)) \<and>
       (\<not> x_lost x \<longrightarrow> of_connection fd (drop (fst (x_history x fd)) way) = map unstamped (take k ms)) \<and>
       (rest = [] \<and> pending_bytes st = [] \<longrightarrow> k = length ms)"
    by (rule orders_on_the_way[OF inv assms(5) _ _ assms(10)]) blast
  with inv show ?thesis by (simp add: exchange_inv_def order_stream_def)
qed

definition typed_sell :: Message where
  "typed_sell = Add_msg \<lparr>ao_order_type = Limit, ao_time_in_force = GoodTillCancel, ao_client_order_id = 7,
     ao_price = 100, ao_quantity = 5, ao_side = Sell, ao_connection_id = -1, ao_seq = 1\<rparr>"

lemma typed_sell_ok: "\<forall>m \<in> set [typed_sell]. typeable m" "serialise_order typed_sell = serialise_order sell_msg"
  by (simp add: typed_sell_def OrderType_valid_def TimeInForce_valid_def Side_valid_def in_i64_def
      i64_min_def i64_max_def) (simp add: typed_sell_def sell_msg_def gtc_add_def)

theorem typed_orders_reach_book_witness:
  "session [typed_sell] = ''1 7 100 5 1 1'' @ newline @ ''-1'' @ newline \<and>
   (\<exists>x :: Net Exchange. process_all (x_done x) new_OrderBook = Inr (x_book x) \<and>
     of_connection 5 (x_done x) = map unstamped [typed_sell])"
proof (rule sell_exchange, rule conjI)
  show "session [typed_sell] = ''1 7 100 5 1 1'' @ newline @ ''-1'' @ newline" by code_simp
  fix x :: "Net Exchange"
  assume x: "exchange_reachable 8 False net_system 3 x" "\<not> x_lost x" "rb_items 8 (x_messages x) = []"
    "x_parsed x = []" "fd_to_state (x_server x) = fd_to_state sell_served" "x_history x = sell_history"
    "x_done x = [sell_msg]"
  have st: "fd_to_state (x_server x) 5 = Some (the (fd_to_state sell_served 5))"
    unfolding x(5) by (subst (1) sell_pushed(4)) simp
  obtain cin s' where "client_loop wire_send 4 \<lparr>cin_rest = session [typed_sell], cin_fail = False\<rparr>
      (\<lambda>_. []) = Some (Inr (), cin, s')" "s' 4 = [] @ snd (x_history x 5) @ []"
    using client_loop_session[OF wire_send_succeeds typed_sell_ok(1), of "[]" 4 "\<lambda>_. []"]
    by (auto simp: x(6) sell_history_def typed_sell_ok(2) simp del: serialise_order.simps)
  from typed_orders_reach_book[where send = wire_send and sent = "\<lambda>s. s" and s = "\<lambda>_. []",
      OF cap_8 net_recv_law net_send_law x(1) st wire_send_succeeds typed_sell_ok(1) this refl]
    x(2-4,6,7) sell_pushed(5)
  show "\<exists>x :: Net Exchange. process_all (x_done x) new_OrderBook = Inr (x_book x) \<and>
     of_connection 5 (x_done x) = map unstamped [typed_sell]"
    by (intro exI[of _ x]) (auto simp: sell_history_def)
qed

section \<open>From the book to the log\<close>

text \<open>C14: The log shows the book: when what has arrived at a client program is the start of what the
  server has sent it, and all of it if the stream has ended, and no send of the server has failed, the
  text printed is at every moment the lines of some of the events of the book that are for this client,
  in order. They are the first of them if the client was connected whenever the sender took an event
  and no push of either program has failed; and all of them if besides the server has no event on its
  way and the client's logging thread has ended although the user has not quit.\<close>

theorem client_log_shows_book:
  assumes "cap_ok C" and "recv_law (sys_recv sys) incoming" and "send_law (sys_send sys) outgoing"
    and "quiet_law sys outgoing" and "exchange_reachable C block_mode sys socket_fd x" and "\<not> x_failed x"
    and "outgoing (env (x_server x)) fd = outgoing (x_start x) fd @ p_arrived p @ rest"
    and "cap_ok C'" and "socket_law so client_out" and "program_reachable C' client_mode so cfd p"
    and "p_main p \<noteq> M_closed" and "so_ended so (p_env p) cfd \<longrightarrow> rest = []"
  shows "\<exists>evs. p_log p = concat (map event_line (map received evs)) \<and>
    subseq evs (events_for fd (x_book x)) \<and>
    (always_connected fd x \<and> \<not> x_lost x \<and> \<not> p_lost p \<longrightarrow> prefix evs (events_for fd (x_book x))) \<and>
    (always_connected fd x \<and> settled C x \<and> \<not> p_lost p \<and> p_logger p = L_done \<and> p_main p = M_typing \<longrightarrow>
       evs = events_for fd (x_book x))"
proof (rule client_bytes[OF assms(1-7)])
  fix evs
  assume evs: "p_arrived p @ rest = concat (map serialise_event evs)" "\<forall>ev \<in> set evs. event_wire_ok ev"
    "subseq evs (events_for fd (x_book x))"
    "always_connected fd x \<Longrightarrow> \<not> x_lost x \<Longrightarrow> prefix evs (events_for fd (x_book x))"
    "always_connected fd x \<Longrightarrow> settled C x \<Longrightarrow> evs = events_for fd (x_book x)"
  obtain taken where taken: "p_log p = concat (map event_line (map received taken))" "subseq taken evs"
    "\<not> p_lost p \<longrightarrow> prefix taken evs"
    "p_logger p = L_done \<and> p_main p = M_typing \<and> \<not> p_lost p \<longrightarrow> taken = evs"
    using client_logged_events[OF assms(8-11) evs(2,1) assms(12)] by blast
  with evs(3-) show ?thesis by (meson prefix_order.trans subseq_order.trans)
qed

lemma sell_wire_ok: "\<forall>ev \<in> set sell_events. event_wire_ok ev"
  by (simp add: sell_events_def in_i64_def i64_min_def i64_max_def)

theorem client_log_shows_book_witness:
  "p_log (streamed 8 sell_events) =
     ''[PUBLIC] BookUpdate Ask @ 100 -> qty=5'' @ newline @
     ''[PRIVATE conn=-1] Order 1 rested (client_order_id=7) remaining=5'' @ newline"
proof (rule sell_exchange)
  fix x :: "Net Exchange"
  assume x: "exchange_reachable 8 False net_system 3 x" "\<not> x_lost x" "\<not> x_failed x"
    "rb_items 8 (x_events x) = []" "x_raised x = []" "x_done x = [sell_msg]" "x_book x = sell_book"
    "x_found x = [[5], [5]]"
    "net_out (env (x_server x)) 5 = net_out (x_start x) 5 @ concat (map serialise_event sell_events)"
  have hyps: "settled 8 x" "always_connected 5 x" by (simp_all add: x settled_def always_connected_def)
  note shown = streamed_values[OF cap_8 sell_wire_ok]
  have "length sell_events \<le> unat (8 :: BufSize) - 1" by (simp add: sell_events_def)
  note shown = shown[OF this]
  have out: "net_out (env (x_server x)) 5 = net_out (x_start x) 5 @ p_arrived (streamed 8 sell_events) @ []"
    using x(9) shown(4) by simp
  have "p_main (streamed 8 sell_events) \<noteq> M_closed" by (simp add: shown(2))
  from client_log_shows_book[OF cap_8 net_recv_law net_send_law net_quiet_law x(1,3) out cap_8 link_socket_law
      streamed_reachable this] hyps shown(1-3)
  have "p_log (streamed 8 sell_events) = concat (map event_line (map received sell_events))"
    by (auto simp: x(7) events_for_def sell_process(2) sell_events_def for_client_def simp del: event_line.simps)
  moreover have "\<dots> =
     ''[PUBLIC] BookUpdate Ask @ 100 -> qty=5'' @ newline @
     ''[PRIVATE conn=-1] Order 1 rested (client_order_id=7) remaining=5'' @ newline"
    by code_simp
  ultimately show "p_log (streamed 8 sell_events) =
     ''[PUBLIC] BookUpdate Ask @ 100 -> qty=5'' @ newline @
     ''[PRIVATE conn=-1] Order 1 rested (client_order_id=7) remaining=5'' @ newline" by (simp only:)
qed

end
