(* ===== verification/String_Transport.thy ===== *)
theory String_Transport
  imports Client_Properties Delivery_Properties Startup
begin

text \<open>
  Strings on a blocking connection (\<^verbatim>\<open>networking/string_sender.h\<close>, \<^verbatim>\<open>networking/string_parser.h\<close>): eight
  bytes with the length, then the characters. A string is the list of its bytes.
\<close>

section \<open>Sending and receiving\<close>

text \<open>The results of the loops, of type \<open>ssize_t\<close>, are stored in an \<open>int\<close>.\<close>

definition narrow_int :: "int \<Rightarrow> int" where
  "narrow_int n = sint (word_of_int n :: 32 word)"

definition send_all_string :: "'s send \<Rightarrow> int \<Rightarrow> Byte list \<Rightarrow> 's \<Rightarrow> (bool \<times> 's) option" where
  "send_all_string send fd msg s =
     (case send_all send fd (encode_field U64 (int (length msg))) s of
        None \<Rightarrow> None
      | Some (got, s') \<Rightarrow>
          if got_error (narrow_int got) then Some (False, s')
          else case send_all send fd msg s' of
              None \<Rightarrow> None
            | Some (got, s'') \<Rightarrow> Some (\<not> got_error (narrow_int got), s''))"

text \<open>
  What \<open>recv_all_string\<close> does: it returns \<open>false\<close>, or \<open>true\<close> with a string, or the vector for the
  characters cannot be allocated and an exception is thrown, or the length is used although nothing
  was stored in it, because the stream ended before it was complete. A vector is filled with zeros.
\<close>

datatype string_result = Not_received | String_received "Byte list" | Allocation_failed | Length_undefined

definition recv_all_string :: "(nat \<Rightarrow> bool) \<Rightarrow> 's recv \<Rightarrow> int \<Rightarrow> 's \<Rightarrow> string_result \<times> 's" where
  "recv_all_string can_allocate recv fd s =
     (case recv_all recv fd (field_size U64) s of
        (got, bs, s') \<Rightarrow>
          if got_error (narrow_int got) then (Not_received, s')
          else if got = 0 then (Length_undefined, s')
          else let payload_len = nat (decode_field U64 bs) in
            if \<not> can_allocate payload_len then (Allocation_failed, s')
            else case recv_all recv fd payload_len s' of
                (got, buf, s'') \<Rightarrow>
                  (if got_error (narrow_int got) then Not_received
                   else String_received (buf @ replicate (payload_len - length buf) 0), s''))"

section \<open>What arrives\<close>

lemma narrow_int_small: "0 \<le> n \<Longrightarrow> n < 2 ^ 31 \<Longrightarrow> narrow_int n = n"
  unfolding narrow_int_def sint_sbintrunc' by (rule signed_take_bit_int_eq_self) simp_all

lemma narrow_int_numbers: "narrow_int 0 = 0" "narrow_int 8 = 8" "narrow_int (-1) = -1"
  by (simp_all add: narrow_int_def)

text \<open>
  A string sent whole is received unchanged, and nothing else is read; only strings shorter than
  \<open>2\<close> GiB, since a longer one makes the narrowed result negative.
\<close>

lemma string_sent:
  assumes "send_law send outgoing" and "send_all_string send fd msg s = Some (True, s')"
    and "length msg < 2 ^ 31"
  shows "outgoing s' fd = outgoing s fd @ encode_field U64 (int (length msg)) @ msg"
proof -
  obtain r1 s1 n1 where first: "send_all send fd (encode_field U64 (int (length msg))) s = Some (r1, s1)"
    "outgoing s1 = (outgoing s)(fd := outgoing s fd @ take n1 (encode_field U64 (int (length msg))))"
    "if r1 = -1 then n1 < length (encode_field U64 (int (length msg)))
     else r1 = int (length (encode_field U64 (int (length msg)))) \<and> n1 = length (encode_field U64 (int (length msg)))"
    by (rule send_all_spec[OF assms(1), of fd "encode_field U64 (int (length msg))" s])
  obtain r2 s2 n2 where second: "send_all send fd msg s1 = Some (r2, s2)"
    "outgoing s2 = (outgoing s1)(fd := outgoing s1 fd @ take n2 msg)"
    "if r2 = -1 then n2 < length msg else r2 = int (length msg) \<and> n2 = length msg"
    by (rule send_all_spec[OF assms(1), of fd msg s1])
  have "r1 \<noteq> -1" "r2 \<noteq> -1" "s' = s2"
    using assms(2) first(1) second(1) narrow_int_numbers by (auto simp: send_all_string_def got_error_def split: if_splits)
  with first second show ?thesis by simp
qed

lemma string_roundtrip:
  assumes blocks: "recv_blocks recv incoming" and "length msg < 2 ^ 31" and "can_allocate (length msg)"
    and stream: "incoming s fd = encode_field U64 (int (length msg)) @ msg @ rest"
  shows "\<exists>s'. recv_all_string can_allocate recv fd s = (String_received msg, s') \<and> incoming s' fd = rest"
proof -
  obtain s1 where s1: "recv_all recv fd 8 s = (8, encode_field U64 (int (length msg)), s1)"
    "incoming s1 fd = msg @ rest"
    using recv_all_blocks[OF blocks, of 8 s fd] stream by auto
  obtain s2 where s2: "recv_all recv fd (length msg) s1 = (int (length msg), msg, s2)"
    "incoming s2 fd = rest"
    using recv_all_blocks[OF blocks, of "length msg" s1 fd] s1(2) by auto
  have "decode_field U64 (encode_field U64 (int (length msg))) = int (length msg)"
    using assms(2) by (intro decode_encode_field) simp
  moreover have "narrow_int (int (length msg)) \<noteq> -1"
    using narrow_int_small[of "int (length msg)"] assms(2) by simp
  ultimately show ?thesis
    using s1(1) s2 assms(3) by (simp add: recv_all_string_def narrow_int_numbers got_error_def)
qed

text \<open>
  When the stream ends before the last character, the receiver does not notice: it returns \<open>true\<close> with
  a string of the announced length, the missing characters being zero.
\<close>

lemma recv_all_loop_ended:
  assumes blocks: "recv_blocks recv incoming" and "length buf + length (incoming s fd) < len"
  shows "\<exists>s'. recv_all_loop recv fd len buf s = (0, buf @ incoming s fd, s')"
  using assms(2)
proof (induction "length (incoming s fd)" arbitrary: buf s rule: less_induct)
  case less
  have "0 < len - length buf" using less.prems by simp
  from recv_blocks_cases[OF blocks this, of s fd] obtain bs s1 where r:
    "recv s fd (len - length buf) = (Received bs, s1)"
    "incoming s fd = bs @ incoming s1 fd" "(bs = []) = (incoming s fd = [])"
    by blast
  show ?case
  proof (cases "bs = []")
    case True
    then have "incoming s fd = []" using r(3) by blast
    moreover have "recv_all_loop recv fd len buf s = (0, buf, s1)"
      using less.prems r(1) True by (subst recv_all_loop.simps) simp
    ultimately show ?thesis by simp
  next
    case False
    then have "length (incoming s1 fd) < length (incoming s fd)"
      "length (buf @ bs) + length (incoming s1 fd) < len"
      using less.prems unfolding r(2) by simp_all
    from less.hyps[OF this] obtain s' where
      "recv_all_loop recv fd len (buf @ bs) s1 = (0, (buf @ bs) @ incoming s1 fd, s')"
      by blast
    moreover have "recv_all_loop recv fd len buf s = recv_all_loop recv fd len (buf @ bs) s1"
      using less.prems r(1) False by (subst recv_all_loop.simps) simp
    ultimately show ?thesis unfolding r(2) by simp
  qed
qed

lemma truncated_string_accepted:
  assumes blocks: "recv_blocks recv incoming" and "len < 2 ^ 31" and "can_allocate len"
    and stream: "incoming s fd = encode_field U64 (int len) @ part" and "length part < len"
  shows "\<exists>s'. recv_all_string can_allocate recv fd s =
    (String_received (part @ replicate (len - length part) 0), s')"
proof -
  obtain s1 where s1: "recv_all recv fd 8 s = (8, encode_field U64 (int len), s1)" "incoming s1 fd = part"
    using recv_all_blocks[OF blocks, of 8 s fd] stream by auto
  obtain s2 where "recv_all recv fd len s1 = (0, part, s2)"
    using recv_all_loop_ended[OF blocks, of "[]" s1 fd len] assms(5) s1(2) by (auto simp: recv_all_def)
  moreover have "decode_field U64 (encode_field U64 (int len)) = int len"
    using assms(2) by (intro decode_encode_field) simp
  ultimately show ?thesis
    using s1(1) assms(3) by (simp add: recv_all_string_def narrow_int_numbers got_error_def)
qed

text \<open>A string arrives as it was sent: when \<open>send_all_string\<close> reports success for a string of less
  than 2 GiB, in however many pieces it went out, \<open>recv_all_string\<close> on the bytes sent returns exactly
  this string and leaves nothing behind.\<close>

theorem strings_arrive:
  assumes "send_law send outgoing" and "send_all_string send fd msg s = Some (True, s')"
    and "recv_blocks recv incoming" and "outgoing s' fd = outgoing s fd @ incoming c cfd"
    and "length msg < 2 ^ 31" and "can_allocate (length msg)"
  shows "\<exists>c'. recv_all_string can_allocate recv cfd c = (String_received msg, c') \<and> incoming c' cfd = []"
proof -
  have "incoming c cfd = encode_field U64 (int (length msg)) @ msg @ []"
    using string_sent[OF assms(1,2,5)] assms(4) by simp
  from string_roundtrip[OF assms(3,5) _ this] assms(6) show ?thesis by simp
qed

theorem strings_arrive_witness:
  "\<exists>c'. recv_all_string (\<lambda>n. n < 1000) stream_recv 0
     ([3, 0, 0, 0, 0, 0, 0, 0] @ [72, 105, 33]) = (String_received [72, 105, 33], c')"
proof -
  have head: "encode_field U64 (int (length [72, 105, 33 :: Byte])) = [3, 0, 0, 0, 0, 0, 0, 0]" by code_simp
  have sent: "send_all_string wire_send 4 [72, 105, 33] (\<lambda>_. []) =
      Some (True, (\<lambda>_. [])(4 := [3, 0, 0, 0, 0, 0, 0, 0] @ [72, 105, 33]))"
    unfolding send_all_string_def head
    by (simp add: send_all_def send_loop.simps wire_send_def narrow_int_numbers narrow_int_small got_error_def)
  have "send_law wire_send (\<lambda>s. s)" using wire_send_succeeds by (simp add: send_succeeds_def)
  from strings_arrive[where can_allocate = "\<lambda>n. n < 1000" and cfd = 0, OF this sent stream_recv_blocks]
  show ?thesis by auto
qed

end
