(* ===== verification/Spec2Isabelle.thy ===== *)
theory Spec2Isabelle
  imports Book_Owners Ring_Properties Server_Properties Exchange_Progress Program_End End_To_End String_Transport
begin

text \<open>
  A verification of the exchange matching engine: a C++ server that matches the orders of its clients
  in a limit order book, and the client that talks to it.

  \<^bold>\<open>The program.\<close> The server (\<^verbatim>\<open>src/server/multi_server_kqueue.cpp\<close>) has three threads. The network
  thread (\<^verbatim>\<open>networking/transport/tcp.cpp\<close>) waits for descriptors with \<^verbatim>\<open>kevent\<close>, accepts clients,
  reads their bytes into one buffer per client and parses up to four messages of each
  (\<^verbatim>\<open>msg_parser.cpp\<close>), which it pushes into a ring buffer. The engine thread
  (\<^verbatim>\<open>engine/message_consumer.cpp\<close>) pops them and lets the order book (\<^verbatim>\<open>orderbook/order_book.tpp\<close>)
  process them; the book pushes events into a second ring buffer. The sender thread
  (\<^verbatim>\<open>networking/event_sender.cpp\<close>) pops these and sends private events to one client and public ones
  to all. The client reads orders from its console and sends them, receives events
  (\<^verbatim>\<open>event_parser.cpp\<close>) into a ring buffer of its own and logs them.

  \<^bold>\<open>Conventions.\<close> \<open>Prelude\<close> has the errors of the code, one constructor for every \<open>throw\<close> and every
  undefined behaviour an operation can run into, and the result type \<open>error + 'a\<close> with its bind
  \<open>rbind\<close>. Prices and quantities are \<open>int64_t\<close>, whose overflow is undefined: they are integers, and
  every addition and subtraction of the code is \<open>i64_add\<close> or \<open>i64_sub\<close>, which end in \<open>UB_overflow\<close>
  outside of the width. Ids and sequence numbers are 64-bit words that wrap. Enumerations have one
  more constructor for a number that a \<open>static_cast\<close> from the wire or the console turns into a value
  that names no enumerator. Getters are record selectors. Definitions have the names of the code;
  fields and operations that would clash have a prefix (\<open>ao_\<close>, \<open>level_\<close>, \<open>rb_\<close>, \<open>cs_\<close>).

  \<^bold>\<open>The order book.\<close>
  \<^item> \<open>Exchange_Types\<close>: \<^verbatim>\<open>types.h\<close>, \<^verbatim>\<open>order_messages.h\<close>, \<^verbatim>\<open>order_event.h\<close>, \<^verbatim>\<open>helpers.h\<close>.
  \<^item> \<open>Orders\<close>: \<^verbatim>\<open>order.cpp\<close>, \<^verbatim>\<open>trade.cpp\<close>. \<open>Price_Level\<close>: \<^verbatim>\<open>price_level.cpp\<close>; a list iterator is the
    identity of a node, so that a stale iterator is an error of the model (\<open>UB_iterator\<close>).
  \<^item> \<open>Level_Map\<close>: the two \<open>std::map\<close>s of levels as lists in iteration order, with the locales
    \<open>level_order\<close> and \<open>matching_side\<close> for what a comparator has to promise, interpreted for bids and
    asks and for limit and market orders.
  \<^item> \<open>Order_Book\<close>: all of \<^verbatim>\<open>order_book.h\<close> and \<^verbatim>\<open>order_book.tpp\<close>, in its order. The matching loops are
    recursive functions; their termination needs that every trade empties an order, and is proved with
    the definitions, for all arguments.
  \<^item> \<open>Matching\<close> and \<open>Sweep\<close>: the reference, a function that lists the fills of a sweep, and the proof
    that the loops compute it. \<open>Book_Invariant\<close>, \<open>Book_Updates\<close>, \<open>Book_Operations\<close>, \<open>Process\<close>: the
    invariant \<open>book_ok\<close> (sorted levels with exact totals, an id index that agrees with the nodes, sides
    that do not cross), that every operation keeps it, and, as \<open>message_error\<close>, for exactly which messages
    an exception or an overflow ends the engine, and with which.
    \<open>book_relation\<close> in \<open>Process\<close> is the contract of a relation between books that the steps of a message
    respect; \<open>Market_Data\<close> interprets it for the depth feed and the trade tape, \<open>Book_Results\<close> for the
    arrival order in a level.
  \<^item> \<open>Examples\<close>, \<open>Book_Properties\<close>, \<open>Book_Client\<close>: the properties, among them every event of an insertion, which
    of its answers tell the truth, and the test sequence of the \<^verbatim>\<open>README\<close>. \<open>Book_Owners\<close>: which connection
    is told what.

  \<^bold>\<open>The ring buffer.\<close> \<open>Ring_Buffer\<close> is \<^verbatim>\<open>common/ring_buffer.tpp\<close> run sequentially, with the masks and
  indices on 64-bit words and the contract \<open>bounded_queue\<close>; the program's capacity is 128, of which one
  slot stays free. \<open>Ring_Threads\<close> cuts \<open>push\<close>, \<open>pop\<close> and \<open>wait_pop\<close> at their accesses to shared memory and
  interleaves the two threads under the release/acquire memory model of C++: the indices are lists of
  stores, each with the view its thread had; a load returns any store not older than the loading thread
  has seen, and takes over its view. The proof is an invariant over every stage of both threads.
  \<open>Ring_Properties\<close> has the properties, among them that the threads refine the sequential buffer.
  \<open>Pipeline\<close>: what gets from a producer through a buffer to a consumer.

  \<^bold>\<open>The network.\<close>
  \<^item> \<open>Protocol\<close>: the packed structs of \<^verbatim>\<open>protocol.h\<close> as their bytes, and the contract \<open>stream_format\<close>,
    interpreted for orders and for events.
  \<^item> \<open>Client_State\<close>: the buffer of \<open>STATE_SIZE = 1024\<close> bytes of a client and the resumable parser, which is
    shown to take the frames (\<open>frame\<close>) of the bytes received, however they were cut.
  \<^item> \<open>Sockets\<close>: the loops over \<open>send\<close> and \<open>recv\<close>. The system calls are parameters; \<open>recv_law\<close>,
    \<open>recv_blocks\<close> and \<open>send_law\<close> state what POSIX documents of them.
  \<^item> \<open>Server\<close>, \<open>Server_Results\<close>, \<open>Startup\<close>, \<open>Demo_Net\<close>, \<open>Server_Properties\<close>: the event loop of \<^verbatim>\<open>tcp.cpp\<close> with at
    most \<open>READ_BYTE_BUDGET = 256\<close> bytes and \<open>MSG_LIMIT_PER_CONN = 4\<close> messages for each event; its invariant
    over every sequence of events; the opening and the closing of the sockets, and the queue of
    \<^verbatim>\<open>kqueue\<close>, of which \<open>kqueue_law\<close> states that it reports what was added and not closed; a concrete
    network for the witnesses.
  \<^item> \<open>Engine\<close>, \<open>Event_Sender\<close>, \<open>Event_Parser\<close>, \<open>Delivery_Properties\<close>: the consumer loops.
  \<^item> \<open>Book_Events\<close>: the book only appends events, and their numbers fit the wire, for any bytes received. Sides
    need not be valid for that: the wire has two numbers for them, and what a client receives
    (\<open>received\<close>) has the side that was written.
  \<^item> \<open>Exchange\<close>, \<open>Demo_Exchange\<close>, \<open>Exchange_Properties\<close>: the server as a whole, its threads as steps in
    any order, with the invariant that ties the bytes received, the messages processed, the book, the
    events and the bytes sent together, and what a client can conclude from what it receives. Whatever
    bytes arrive, the book stays one that valid messages produce; an exception of the engine, which
    ends the program, has no step. What is claimed of an order or an event on its way is claimed in every
    state: of what became of it when a push, of a full buffer or with an old index, or a send has failed
    (\<open>x_lost\<close>, \<open>x_failed\<close>), and more when none has.
    \<open>Exchange_Progress\<close>: the threads never wait for each other for ever, and what they then do. A
    step is one handler, one iteration or one push; \<open>threads_refine_ring\<close> shows that a push and a
    pop of two threads that succeed behave as if they ran one after the other; a thread may read an old
    index, and then a push fails or a pop finds nothing: these are steps too. \<open>running\<close> is true in every
    step, because nothing in the server program clears it. The closing of a client and its
    removal from the map are one step, after which the sender may still find the client.

  \<^bold>\<open>The client.\<close> \<open>Decimal\<close>, \<open>Printing\<close>, \<open>Console\<close>, \<open>Client_Properties\<close>: numbers as text, the texts the
  program prints, extraction from \<^verbatim>\<open>std::cin\<close>, the menu and the sending loop. \<open>Client_Program\<close>,
  \<open>Program_Properties\<close> and \<open>Program_End\<close>: the program as a whole (\<^verbatim>\<open>client/client.cpp\<close>), its main, receiving and logging threads
  as steps in any order, with the flag \<open>running\<close> that ends them; an invariant ties the bytes that have
  arrived, the buffer, the flag and the log together. A \<open>recv\<close> that blocks is a step that is only
  possible once the frame has arrived or the peer has closed. \<open>Program_End\<close> bounds the runs after a quit by a
  measure of what is left to do, which only a pop that misses a queued item raises.

  \<^bold>\<open>The whole.\<close> \<open>End_To_End\<close> joins the two programs by the bytes of a connection: from the console to the
  book, and from the book to the log. \<open>String_Transport\<close> is \<^verbatim>\<open>string_sender.h\<close> and \<^verbatim>\<open>string_parser.h\<close>, which are
  compiled, although nothing calls them.

  \<^bold>\<open>Loops and fuel.\<close> The matching loops and \<open>recv_all\<close> are total functions with a termination proof.
  \<open>send_loop\<close>, \<open>read_message\<close> and \<open>client_loop\<close> may run for ever, so they are partial functions, and that
  they return, or not, is a theorem. The consumer loops run while a flag that another
  thread owns is set, so a run is given the values of the flag that its tests read, one for each
  iteration; what is claimed holds for every list of values, or for more of them than there are items.

  \<^bold>\<open>Not modelled.\<close> \<open>setsockopt\<close>, whose result the code ignores, and the start of threads, which only calls
  the system; the texts the programs print about themselves and the prompts of the console; \<^verbatim>\<open>main.cpp\<close>, which is
  commented out, and \<^verbatim>\<open>server/server.cpp\<close>, an older server that the current headers no longer compile
  with; \<^verbatim>\<open>itransport.h\<close>, a concept that nothing uses; the tests. The
  flag \<open>running\<close> and the map of clients, which a mutex guards, are sequentially consistent in the code, and
  so their accesses are interleaved as steps.
\<close>

end
